(* ===== verification/Rpc_Prelude.thy ===== *)
theory Rpc_Prelude
  imports Main "HOL-Library.Word"
begin

text \<open>
  Shared material of the development: the types that stand for the C++ types the program uses,
  the memory layout of unsigned integers on a host of either byte order, the byte-order
  conversions of \<^verbatim>\<open><arpa/inet.h>\<close>, \<open>std::copy\<close> into a vector, and the generic lemmas about
  them.  A C++ \<open>char\<close> is a HOL \<^typ>\<open>char\<close> (eight bits), a \<open>std::string\<close> or a byte range is a
  \<^typ>\<open>string\<close>, a fixed-width integer is a word of that width, and a \<open>size_t\<close> that counts bytes of
  an object in memory is a \<^typ>\<open>nat\<close>.
\<close>

unbundle bit_operations_syntax

named_theorems wire_simps "equations about byte layouts and frames"
named_theorems buf_simps "equations about buffer operations in terms of their contents"
named_theorems inv_intros "invariant preservation rules"

type_synonym uint8 = "8 word"
type_synonym uint16 = "16 word"
type_synonym uint32 = "32 word"
type_synonym int32 = "32 word"
type_synonym uint64 = "64 word"
type_synonym bytes = string

text \<open>The value of \<^verbatim>\<open>__BYTE_ORDER__\<close> on the host.\<close>

datatype byte_order = LittleEndian | BigEndian

text \<open>Both orders can be enumerated, so that statements about all hosts can be evaluated.\<close>

instantiation byte_order :: enum
begin

definition enum_byte_order :: "byte_order list" where
  "enum_byte_order = [LittleEndian, BigEndian]"

definition enum_all_byte_order :: "(byte_order \<Rightarrow> bool) \<Rightarrow> bool" where
  "enum_all_byte_order P \<longleftrightarrow> P LittleEndian \<and> P BigEndian"

definition enum_ex_byte_order :: "(byte_order \<Rightarrow> bool) \<Rightarrow> bool" where
  "enum_ex_byte_order P \<longleftrightarrow> P LittleEndian \<or> P BigEndian"

instance
proof
  show all: "UNIV = set (enum_class.enum :: byte_order list)"
    using byte_order.exhaust by (auto simp: enum_byte_order_def)
  show "distinct (enum_class.enum :: byte_order list)" by (simp add: enum_byte_order_def)
  show "enum_class.enum_all P = Ball UNIV P" "enum_class.enum_ex P = Bex UNIV P" for P :: "byte_order \<Rightarrow> bool"
    by (simp_all add: all enum_all_byte_order_def enum_ex_byte_order_def enum_byte_order_def)
qed

end

text \<open>A call may end the process with \<open>exit(1)\<close>.\<close>

datatype 'a process = Proceed 'a | ExitProcess

section \<open>Little-endian digits\<close>

fun le_bytes :: "nat \<Rightarrow> nat \<Rightarrow> bytes" where
  "le_bytes 0 x = []"
| "le_bytes (Suc n) x = char_of x # le_bytes n (x div 256)"

definition le_nat :: "bytes \<Rightarrow> nat" where
  "le_nat bs = foldr (\<lambda>c acc. of_char c + 256 * acc) bs 0"

text \<open>The bytes an \<open>n\<close>-byte unsigned integer occupies in memory, and the integer read back.\<close>

definition store :: "byte_order \<Rightarrow> nat \<Rightarrow> nat \<Rightarrow> bytes" where
  "store e n x = (case e of LittleEndian \<Rightarrow> le_bytes n x | BigEndian \<Rightarrow> rev (le_bytes n x))"

definition load :: "byte_order \<Rightarrow> bytes \<Rightarrow> nat" where
  "load e bs = (case e of LittleEndian \<Rightarrow> le_nat bs | BigEndian \<Rightarrow> le_nat (rev bs))"

definition store32 :: "byte_order \<Rightarrow> uint32 \<Rightarrow> bytes" where
  "store32 e w = store e 4 (unat w)"

definition load32 :: "byte_order \<Rightarrow> bytes \<Rightarrow> uint32" where
  "load32 e bs = word_of_nat (load e bs)"

definition store64 :: "byte_order \<Rightarrow> uint64 \<Rightarrow> bytes" where
  "store64 e w = store e 8 (unat w)"

definition load64 :: "byte_order \<Rightarrow> bytes \<Rightarrow> uint64" where
  "load64 e bs = word_of_nat (load e bs)"

text \<open>
  \<open>htonl\<close> and \<open>ntohl\<close> of the C library: the identity on a big-endian host, a reversal of the
  four bytes on a little-endian one.
\<close>

definition bswap32 :: "uint32 \<Rightarrow> uint32" where
  "bswap32 w = word_of_nat (le_nat (rev (le_bytes 4 (unat w))))"

definition htonl :: "byte_order \<Rightarrow> uint32 \<Rightarrow> uint32" where
  "htonl e w = (if e = LittleEndian then bswap32 w else w)"

definition ntohl :: "byte_order \<Rightarrow> uint32 \<Rightarrow> uint32" where
  "ntohl e w = htonl e w"

text \<open>\<open>std::copy(src.begin(), src.end(), &v[i])\<close> inside a vector that is long enough.\<close>

definition copy_at :: "'a list \<Rightarrow> nat \<Rightarrow> 'a list \<Rightarrow> 'a list" where
  "copy_at v i src = take i v @ src @ drop (i + length src) v"

text \<open>\<open>std::vector<char>::resize\<close>: truncates or value-initialises the new elements.\<close>

definition resize :: "bytes \<Rightarrow> nat \<Rightarrow> bytes" where
  "resize v n = take n v @ replicate (n - length v) (CHR 0x00)"

section \<open>Lemmas on layouts\<close>

lemma length_le_bytes [simp]: "length (le_bytes n x) = n"
  by (induction n arbitrary: x) auto

lemma le_nat_Nil [simp]: "le_nat [] = 0"
  by (simp add: le_nat_def)

lemma le_nat_Cons [simp]: "le_nat (c # cs) = of_char c + 256 * le_nat cs"
  by (simp add: le_nat_def)

lemma of_char_less_256 [simp]: "of_char c < (256 :: nat)"
  using of_char_mod_256 [of c, where 'a = nat] mod_less_divisor [of 256 "of_char c"]
  by simp

lemma le_nat_le_bytes: "le_nat (le_bytes n x) = x mod 256 ^ n"
proof (induction n arbitrary: x)
  case 0
  then show ?case by simp
next
  case (Suc n)
  have "x mod 256 ^ Suc n = x mod 256 + 256 * (x div 256 mod 256 ^ n)"
    by (simp add: mod_mult2_eq)
  with Suc show ?case by (simp add: of_char_of)
qed

lemma le_nat_less: "le_nat bs < 256 ^ length bs"
proof (induction bs)
  case Nil
  then show ?case by simp
next
  case (Cons c cs)
  define z :: nat where "z = 256 ^ length cs"
  have "of_char c < (256 :: nat)" by simp
  moreover have "le_nat cs < z" using Cons by (simp add: z_def)
  ultimately have "of_char c + 256 * le_nat cs < 256 * z" by arith
  then show ?case by (simp add: z_def)
qed

lemma le_bytes_le_nat: "le_bytes (length bs) (le_nat bs) = bs"
proof (induction bs)
  case Nil
  then show ?case by simp
next
  case (Cons c cs)
  have c: "of_char c < (256 :: nat)" by simp
  have "char_of (of_char c + 256 * le_nat cs) = c"
    using c by (simp add: char_of_eq_iff take_bit_eq_mod)
  moreover have "(of_char c + 256 * le_nat cs) div 256 = le_nat cs"
    using c by simp
  ultimately show ?case using Cons by simp
qed

lemma le_bytes_mod: "le_bytes n (x mod 256 ^ n) = le_bytes n x"
  using le_bytes_le_nat [of "le_bytes n x"] by (simp add: le_nat_le_bytes)

lemma le_bytes_append:
  "b < 256 ^ m \<Longrightarrow> le_bytes (m + n) (b + 256 ^ m * a) = le_bytes m b @ le_bytes n a"
proof (induction m arbitrary: b)
  case 0
  then show ?case by simp
next
  case (Suc m)
  have div: "(b + 256 ^ Suc m * a) div 256 = b div 256 + 256 ^ m * a"
    by simp
  have "(b + 256 ^ Suc m * a) mod 256 = b mod 256"
    by (simp add: mult.assoc)
  then have chr: "char_of (b + 256 ^ Suc m * a) = (char_of b :: char)"
    by (metis char_of_mod_256)
  from Suc.prems have "b div 256 < 256 ^ m"
    by (simp add: less_mult_imp_div_less mult.commute)
  then show ?case
    using Suc.IH [of "b div 256"] chr div by simp
qed

lemma le_bytes_8: "le_bytes 8 x = le_bytes 4 x @ le_bytes 4 (x div 256 ^ 4)"
proof -
  have "le_bytes (4 + 4) (x mod 256 ^ 4 + 256 ^ 4 * (x div 256 ^ 4))
      = le_bytes 4 (x mod 256 ^ 4) @ le_bytes 4 (x div 256 ^ 4)"
    by (rule le_bytes_append) simp
  moreover have "le_bytes 4 (x mod 256 ^ 4) = le_bytes 4 x"
    by (rule le_bytes_mod)
  ultimately show ?thesis by simp
qed

lemma length_store [simp]: "length (store e n x) = n"
  by (cases e) (simp_all add: store_def)

lemma length_store32 [simp]: "length (store32 e w) = 4"
  by (simp add: store32_def)

lemma length_store64 [simp]: "length (store64 e w) = 8"
  by (simp add: store64_def)

lemma load_store: "load e (store e n x) = x mod 256 ^ n"
  by (cases e) (simp_all add: store_def load_def le_nat_le_bytes)

lemma unat_bound: "unat (w :: 'a :: len word) < 2 ^ LENGTH('a)"
  by (rule unsigned_less)

lemma word_of_nat_unat_mod:
  "word_of_nat (unat w mod 2 ^ LENGTH('a)) = (w :: 'a :: len word)"
  by (simp add: unsigned_less)

lemmas word_of_nat_unat_mod_256 [simp] =
  word_of_nat_unat_mod [where 'a = 32, simplified] word_of_nat_unat_mod [where 'a = 64, simplified]

lemma load32_store32 [simp]: "load32 e (store32 e w) = w"
  by (simp add: load32_def store32_def load_store)

lemma load64_store64 [simp]: "load64 e (store64 e w) = w"
  by (simp add: load64_def store64_def load_store)

lemma le_bytes_bswap32: "le_bytes 4 (unat (bswap32 w)) = rev (le_bytes 4 (unat w))"
proof -
  let ?bs = "rev (le_bytes 4 (unat w))"
  have "unat (bswap32 w) = le_nat ?bs mod 256 ^ 4"
    by (simp add: bswap32_def unat_of_nat)
  then have "le_bytes 4 (unat (bswap32 w)) = le_bytes (length ?bs) (le_nat ?bs)"
    by (simp only: le_bytes_mod) simp
  then show ?thesis by (simp only: le_bytes_le_nat)
qed

lemma bswap32_bswap32 [simp]: "bswap32 (bswap32 w) = w"
proof -
  have "bswap32 (bswap32 w) = word_of_nat (le_nat (le_bytes 4 (unat w)))"
    by (simp add: bswap32_def [of "bswap32 w"] le_bytes_bswap32)
  then show ?thesis by (simp add: le_nat_le_bytes)
qed

lemma ntohl_htonl [simp]: "ntohl e (htonl e w) = w"
  by (simp add: ntohl_def htonl_def)

lemma htonl_ntohl [simp]: "htonl e (ntohl e w) = w"
  by (simp add: ntohl_def htonl_def)

text \<open>The bytes of a converted word are the big-endian digits, whatever the host.\<close>

lemma store32_htonl: "store32 e (htonl e w) = rev (le_bytes 4 (unat w))"
  by (cases e) (simp_all add: store32_def store_def htonl_def le_bytes_bswap32)

section \<open>Lemmas on vectors\<close>

lemma length_copy_at [simp]:
  "i + length src \<le> length v \<Longrightarrow> length (copy_at v i src) = length v"
  by (simp add: copy_at_def)

lemma take_copy_at [simp]: "i \<le> length v \<Longrightarrow> take i (copy_at v i src) = take i v"
  by (simp add: copy_at_def)

lemma drop_copy_at [simp]:
  "i \<le> length v \<Longrightarrow> drop i (copy_at v i src) = src @ drop (i + length src) v"
  by (simp add: copy_at_def)

lemma length_resize [simp]: "length (resize v n) = n"
  by (simp add: resize_def)

lemma take_resize [simp]: "k \<le> n \<Longrightarrow> k \<le> length v \<Longrightarrow> take k (resize v n) = take k v"
  by (simp add: resize_def min_def)

end
