(* ===== verification/Net_Buffer.thy ===== *)
theory Net_Buffer
  imports Rpc_Prelude
begin

text \<open>
  The application buffer of \<^verbatim>\<open>src/Buffer.h\<close> and \<^verbatim>\<open>src/Buffer.cpp\<close>: a vector with a read and a write
  index.  The record and the operations follow the class; the result of the \<open>readv\<close> system call is
  an argument of \<open>readFd\<close>.  The invariant \<open>buf_inv\<close> orders the indices, \<open>contents\<close> abstracts a
  buffer to the byte queue it stands for, and the locale \<open>byte_queue\<close> is the contract the codec and
  the connections rely on.
\<close>

section \<open>The class\<close>

definition kCheapPrepend :: nat where
  "kCheapPrepend = 8"

definition kInitialSize :: nat where
  "kInitialSize = 1024"

record buffer =
  buf_vec :: bytes
  readIndex :: nat
  writeIndex :: nat

definition Buffer_new :: "nat \<Rightarrow> buffer" where
  "Buffer_new initialSize =
     \<lparr>buf_vec = replicate (kCheapPrepend + initialSize) (CHR 0x00),
      readIndex = kCheapPrepend, writeIndex = kCheapPrepend\<rparr>"

definition readableBytes :: "buffer \<Rightarrow> nat" where
  "readableBytes b = writeIndex b - readIndex b"

definition writableBytes :: "buffer \<Rightarrow> nat" where
  "writableBytes b = length (buf_vec b) - writeIndex b"

definition prependableBytes :: "buffer \<Rightarrow> nat" where
  "prependableBytes b = readIndex b"

text \<open>The \<open>n\<close> bytes that start at the pointer \<open>peek()\<close>.\<close>

definition peek :: "buffer \<Rightarrow> nat \<Rightarrow> bytes" where
  "peek b n = take n (drop (readIndex b) (buf_vec b))"

definition retrieveAll :: "buffer \<Rightarrow> buffer" where
  "retrieveAll b = b\<lparr>readIndex := kCheapPrepend, writeIndex := kCheapPrepend\<rparr>"

definition retrieve :: "nat \<Rightarrow> buffer \<Rightarrow> buffer" where
  "retrieve len b =
     (if len < readableBytes b then b\<lparr>readIndex := readIndex b + len\<rparr> else retrieveAll b)"

text \<open>
  The string is copied from \<open>len\<close> bytes at \<open>peek()\<close>, readable or not; a length that leaves the vector is
  undefined (\<open>None\<close>).
\<close>

definition retrieveAsString :: "nat \<Rightarrow> buffer \<Rightarrow> (bytes \<times> buffer) option" where
  "retrieveAsString len b =
     (if readIndex b + len \<le> length (buf_vec b)
      then (let result = peek b len in Some (result, retrieve len b)) else None)"

definition makeSpace :: "nat \<Rightarrow> buffer \<Rightarrow> buffer" where
  "makeSpace len b =
     (if writableBytes b + prependableBytes b < len + kCheapPrepend
      then b\<lparr>buf_vec := resize (buf_vec b) (writeIndex b + len)\<rparr>
      else let readable = readableBytes b
           in b\<lparr>buf_vec := copy_at (buf_vec b) kCheapPrepend (peek b readable),
                readIndex := kCheapPrepend,
                writeIndex := kCheapPrepend + readable\<rparr>)"

definition ensureWritableBytes :: "nat \<Rightarrow> buffer \<Rightarrow> buffer" where
  "ensureWritableBytes len b = (if writableBytes b < len then makeSpace len b else b)"

text \<open>\<open>Buffer::append\<close>: the data are copied to \<open>beginWrite()\<close> once there is room.\<close>

definition append_buf :: "bytes \<Rightarrow> buffer \<Rightarrow> buffer" where
  "append_buf data b =
     (let b' = ensureWritableBytes (length data) b
      in b'\<lparr>buf_vec := copy_at (buf_vec b') (writeIndex b') data,
            writeIndex := writeIndex b' + length data\<rparr>)"

text \<open>
  The outcome of a read system call: an \<open>errno\<close>, or the bytes the kernel delivered (none at the end
  of the stream).
\<close>

datatype read_result = ReadErr int | ReadOk bytes

definition extrabuf_size :: nat where
  "extrabuf_size = 65536"

text \<open>
  \<open>Buffer::readFd\<close>: \<open>readv\<close> fills the writable area first and the stack buffer \<open>extrabuf\<close> next.
  The result is the return value, \<open>*savedErrno\<close> and the buffer.
\<close>

definition readFd :: "read_result \<Rightarrow> int \<Rightarrow> buffer \<Rightarrow> int \<times> int \<times> buffer" where
  "readFd r savedErrno b =
     (case r of
        ReadErr errno \<Rightarrow> (-1, errno, b)
      | ReadOk data \<Rightarrow>
          (let writable = writableBytes b;
               n = length data;
               b1 = b\<lparr>buf_vec := copy_at (buf_vec b) (writeIndex b) (take writable data)\<rparr>;
               extrabuf = drop writable data
           in if n \<le> writable
              then (int n, savedErrno, b1\<lparr>writeIndex := writeIndex b1 + n\<rparr>)
              else (int n, savedErrno,
                    append_buf (take (n - writable) extrabuf)
                      (b1\<lparr>writeIndex := length (buf_vec b1)\<rparr>))))"

section \<open>Invariant and abstraction\<close>

definition buf_inv :: "buffer \<Rightarrow> bool" where
  "buf_inv b \<longleftrightarrow> kCheapPrepend \<le> readIndex b \<and> readIndex b \<le> writeIndex b
     \<and> writeIndex b \<le> length (buf_vec b)"

definition contents :: "buffer \<Rightarrow> bytes" where
  "contents b = peek b (readableBytes b)"

lemmas buf_index_defs = readableBytes_def writableBytes_def prependableBytes_def

section \<open>The contract of a byte queue\<close>

text \<open>
  What the users of a buffer rely on: bytes are appended at the back, looked at and consumed at the
  front, and no operation touches the others.
\<close>

locale byte_queue =
  fixes inv :: "'b \<Rightarrow> bool"
    and abs :: "'b \<Rightarrow> bytes"
    and app :: "bytes \<Rightarrow> 'b \<Rightarrow> 'b"
    and look :: "'b \<Rightarrow> nat \<Rightarrow> bytes"
    and consume :: "nat \<Rightarrow> 'b \<Rightarrow> 'b"
    and avail :: "'b \<Rightarrow> nat"
  assumes inv_app: "inv b \<Longrightarrow> inv (app xs b)"
    and inv_consume: "inv b \<Longrightarrow> inv (consume n b)"
    and abs_app: "inv b \<Longrightarrow> abs (app xs b) = abs b @ xs"
    and abs_consume: "inv b \<Longrightarrow> abs (consume n b) = drop n (abs b)"
    and look_abs: "inv b \<Longrightarrow> n \<le> avail b \<Longrightarrow> look b n = take n (abs b)"
    and avail_abs: "inv b \<Longrightarrow> avail b = length (abs b)"
begin

lemma look_prefix: "inv b \<Longrightarrow> abs b = xs @ ys \<Longrightarrow> look b (length xs) = xs"
  by (simp add: look_abs avail_abs)

lemma consume_prefix: "inv b \<Longrightarrow> abs b = xs @ ys \<Longrightarrow> abs (consume (length xs) b) = ys"
  by (simp add: abs_consume)

lemma avail_consume: "inv b \<Longrightarrow> avail (consume n b) = avail b - n"
  by (simp add: avail_abs abs_consume inv_consume)

lemma inv_app_all: "inv b \<Longrightarrow> inv (fold app xss b)"
  by (induction xss arbitrary: b) (simp_all add: inv_app)

text \<open>Appending chunk by chunk is appending the whole.\<close>

lemma abs_app_all: "inv b \<Longrightarrow> abs (fold app xss b) = abs b @ concat xss"
  by (induction xss arbitrary: b) (simp_all add: inv_app abs_app)

text \<open>What has been consumed and what is left make up the queue.\<close>

lemma look_consume_split:
  "inv b \<Longrightarrow> n \<le> avail b \<Longrightarrow> look b n @ abs (consume n b) = abs b"
  by (simp add: look_abs abs_consume)

end

section \<open>The buffer implements the contract\<close>

lemma contents_eq_drop_take:
  "buf_inv b \<Longrightarrow> contents b = drop (readIndex b) (take (writeIndex b) (buf_vec b))"
  by (simp add: contents_def peek_def readableBytes_def drop_take)

lemma length_contents [buf_simps]: "buf_inv b \<Longrightarrow> length (contents b) = readableBytes b"
  by (auto simp: contents_def peek_def buf_inv_def readableBytes_def)

lemma buf_inv_new [inv_intros, simp]: "buf_inv (Buffer_new n)"
  by (simp add: buf_inv_def Buffer_new_def)

lemma contents_new [buf_simps, simp]: "contents (Buffer_new n) = []"
  by (simp add: contents_def peek_def Buffer_new_def readableBytes_def)

lemma buf_inv_retrieveAll [inv_intros]: "buf_inv b \<Longrightarrow> buf_inv (retrieveAll b)"
  by (auto simp: buf_inv_def retrieveAll_def)

lemma contents_retrieveAll [buf_simps]: "contents (retrieveAll b) = []"
  by (simp add: contents_def peek_def retrieveAll_def readableBytes_def)

lemma readable_retrieveAll [simp]: "readableBytes (retrieveAll b) = 0"
  by (simp add: retrieveAll_def readableBytes_def)

lemma buf_inv_retrieve [inv_intros]: "buf_inv b \<Longrightarrow> buf_inv (retrieve n b)"
  by (auto simp: buf_inv_def retrieve_def retrieveAll_def readableBytes_def)

lemma readable_retrieve: "readableBytes (retrieve n b) = readableBytes b - n"
  by (simp add: retrieve_def readableBytes_def retrieveAll_def)

lemma contents_retrieve [buf_simps]:
  assumes "buf_inv b"
  shows "contents (retrieve n b) = drop n (contents b)"
proof (cases "n < readableBytes b")
  case True
  then show ?thesis
    by (simp add: retrieve_def contents_def peek_def readableBytes_def drop_take add.commute)
next
  case False
  then have "drop n (contents b) = []"
    using assms by (simp add: length_contents)
  with False show ?thesis
    by (simp add: retrieve_def contents_retrieveAll)
qed

lemma peek_contents [buf_simps]: "n \<le> readableBytes b \<Longrightarrow> peek b n = take n (contents b)"
  by (simp add: contents_def peek_def min_def)

text \<open>\<open>makeSpace\<close>, called when the room is short, makes room and keeps the contents.\<close>

lemma makeSpace_spec:
  assumes inv: "buf_inv b" and short: "writableBytes b < len"
  shows "buf_inv (makeSpace len b)" (is ?inv)
    and "len \<le> writableBytes (makeSpace len b)" (is ?room)
    and "contents (makeSpace len b) = contents b" (is ?same)
proof -
  have "?inv \<and> ?room \<and> ?same"
  proof (cases "writableBytes b + prependableBytes b < len + kCheapPrepend")
    case True
    then show ?thesis
      using inv short
      by (simp add: makeSpace_def buf_inv_def writableBytes_def contents_def peek_def
          readableBytes_def resize_def)
  next
    case False
    define p where "p = peek b (readableBytes b)"
    have len: "length p = writeIndex b - readIndex b"
      and room: "kCheapPrepend + length p \<le> length (buf_vec b)"
      using inv by (auto simp: p_def buf_inv_def peek_def readableBytes_def)
    have eq: "makeSpace len b = b\<lparr>buf_vec := copy_at (buf_vec b) kCheapPrepend p,
        readIndex := kCheapPrepend, writeIndex := kCheapPrepend + length p\<rparr>" (is "_ = ?b'")
      using False len by (simp add: makeSpace_def p_def Let_def readableBytes_def)
    have "contents ?b' = p"
      using room by (simp add: contents_def peek_def readableBytes_def)
    moreover have "buf_inv ?b'"
      using room by (simp add: buf_inv_def)
    moreover have "len \<le> writableBytes ?b'"
      using False inv room len by (auto simp: buf_inv_def buf_index_defs)
    ultimately show ?thesis
      by (simp add: eq contents_def p_def)
  qed
  then show ?inv ?room ?same by blast+
qed

lemma ensureWritable_spec:
  assumes "buf_inv b"
  shows "buf_inv (ensureWritableBytes len b)"
    and "len \<le> writableBytes (ensureWritableBytes len b)"
    and "contents (ensureWritableBytes len b) = contents b"
  using makeSpace_spec [OF assms] assms by (auto simp: ensureWritableBytes_def)

text \<open>Writing into room that is there.\<close>

lemma write_in_room:
  assumes inv: "buf_inv b" and room: "length xs \<le> writableBytes b"
  defines "b' \<equiv> b\<lparr>buf_vec := copy_at (buf_vec b) (writeIndex b) xs,
                 writeIndex := writeIndex b + length xs\<rparr>"
  shows "buf_inv b' \<and> contents b' = contents b @ xs"
proof -
  have w: "writeIndex b + length xs \<le> length (buf_vec b)"
    using inv room by (auto simp: buf_inv_def writableBytes_def)
  then have inv': "buf_inv b'"
    using inv by (simp add: b'_def buf_inv_def)
  have "take (writeIndex b + length xs) (copy_at (buf_vec b) (writeIndex b) xs)
      = take (writeIndex b) (buf_vec b) @ xs"
    using w by (simp add: copy_at_def)
  then have "contents b' = drop (readIndex b) (take (writeIndex b) (buf_vec b) @ xs)"
    using contents_eq_drop_take [OF inv'] by (simp add: b'_def)
  also have "\<dots> = drop (readIndex b) (take (writeIndex b) (buf_vec b)) @ xs"
    using inv by (simp add: buf_inv_def min_def)
  finally show ?thesis
    using inv inv' by (simp add: contents_eq_drop_take)
qed

lemma buf_inv_append [inv_intros]: "buf_inv b \<Longrightarrow> buf_inv (append_buf xs b)"
  using write_in_room [of "ensureWritableBytes (length xs) b" xs] ensureWritable_spec [of b "length xs"]
  by (simp add: append_buf_def Let_def)

lemma contents_append [buf_simps]: "buf_inv b \<Longrightarrow> contents (append_buf xs b) = contents b @ xs"
  using write_in_room [of "ensureWritableBytes (length xs) b" xs] ensureWritable_spec [of b "length xs"]
  by (simp add: append_buf_def Let_def)

interpretation bq: byte_queue buf_inv contents append_buf peek retrieve readableBytes
  by unfold_locales (simp_all add: buf_simps inv_intros)

section \<open>Reading from a descriptor\<close>

text \<open>The bytes \<open>readv\<close> put into the writable area become readable once the write index moves.\<close>

lemma readFd_fits:
  assumes "buf_inv b" and "length data \<le> writableBytes b"
  shows "readFd (ReadOk data) e b = (int (length data), e,
           b\<lparr>buf_vec := copy_at (buf_vec b) (writeIndex b) data,
             writeIndex := writeIndex b + length data\<rparr>)"
  using assms by (simp add: readFd_def Let_def)

lemma readFd_overflows:
  assumes inv: "buf_inv b" and more: "writableBytes b < length data"
  obtains b1 where "buf_inv b1"
    and "contents b1 = contents b @ take (writableBytes b) data"
    and "readFd (ReadOk data) e b
         = (int (length data), e, append_buf (drop (writableBytes b) data) b1)"
proof -
  let ?w = "writableBytes b"
  let ?b1 = "b\<lparr>buf_vec := copy_at (buf_vec b) (writeIndex b) (take ?w data),
               writeIndex := writeIndex b + length (take ?w data)\<rparr>"
  have full: "writeIndex b + length (take ?w data) = length (buf_vec b)"
    and len: "length (copy_at (buf_vec b) (writeIndex b) (take ?w data)) = length (buf_vec b)"
    using inv more by (auto simp: buf_inv_def writableBytes_def)
  have "buf_inv ?b1 \<and> contents ?b1 = contents b @ take ?w data"
    by (rule write_in_room [OF inv]) simp
  moreover have "readFd (ReadOk data) e b
      = (int (length data), e, append_buf (drop ?w data) ?b1)"
    using more full len by (simp add: readFd_def Let_def)
  ultimately show ?thesis using that by blast
qed

lemma readFd_Ok:
  assumes "buf_inv b"
  shows "\<exists>b'. readFd (ReadOk data) e b = (int (length data), e, b')
              \<and> buf_inv b' \<and> contents b' = contents b @ data"
proof (cases "length data \<le> writableBytes b")
  case True
  with assms show ?thesis
    using write_in_room [OF assms True] by (simp add: readFd_fits)
next
  case False
  then have "writableBytes b < length data" by simp
  then obtain b1 where b1: "buf_inv b1"
      "contents b1 = contents b @ take (writableBytes b) data"
    and eq: "readFd (ReadOk data) e b
      = (int (length data), e, append_buf (drop (writableBytes b) data) b1)"
    by (rule readFd_overflows [OF assms])
  then show ?thesis
    by (simp add: buf_simps inv_intros)
qed

lemma readFd_Err: "readFd (ReadErr errno) e b = (-1, errno, b)"
  by (simp add: readFd_def)

section \<open>Refinement of a byte queue by operation sequences\<close>

text \<open>The public operations of the class, as commands, and their effect on the abstract queue.\<close>

datatype buf_op = Append bytes | Retrieve nat | RetrieveAll | RetrieveAsString nat
  | ReadFd read_result

fun buf_step :: "buf_op \<Rightarrow> buffer \<Rightarrow> buffer option" where
  "buf_step (Append xs) b = Some (append_buf xs b)"
| "buf_step (Retrieve n) b = Some (retrieve n b)"
| "buf_step RetrieveAll b = Some (retrieveAll b)"
| "buf_step (RetrieveAsString n) b = map_option snd (retrieveAsString n b)"
| "buf_step (ReadFd r) b = Some (snd (snd (readFd r 0 b)))"

fun buf_run :: "buf_op list \<Rightarrow> buffer \<Rightarrow> buffer option" where
  "buf_run [] b = Some b"
| "buf_run (c # cs) b = Option.bind (buf_step c b) (buf_run cs)"

fun queue_step :: "buf_op \<Rightarrow> bytes \<Rightarrow> bytes" where
  "queue_step (Append xs) q = q @ xs"
| "queue_step (Retrieve n) q = drop n q"
| "queue_step RetrieveAll q = []"
| "queue_step (RetrieveAsString n) q = drop n q"
| "queue_step (ReadFd (ReadErr _)) q = q"
| "queue_step (ReadFd (ReadOk data)) q = q @ data"

lemma buf_step_refines:
  assumes "buf_inv b" and "buf_step c b = Some b'"
  shows "buf_inv b' \<and> contents b' = queue_step c (contents b)"
proof (cases c)
  case (ReadFd r)
  show ?thesis
  proof (cases r)
    case (ReadErr errno)
    with assms ReadFd show ?thesis by (simp add: readFd_Err)
  next
    case (ReadOk data)
    with ReadFd assms(2) show ?thesis using readFd_Ok [OF assms(1), of data 0] by auto
  qed
qed (use assms in \<open>auto simp: buf_simps inv_intros retrieveAsString_def Let_def split: if_splits\<close>)

lemma buf_run_refines:
  "buf_inv b \<Longrightarrow> buf_run cs b = Some b' \<Longrightarrow> buf_inv b' \<and> contents b' = fold queue_step cs (contents b)"
proof (induction cs arbitrary: b)
  case (Cons c cs)
  then obtain b1 where "buf_step c b = Some b1" "buf_run cs b1 = Some b'" by (auto simp: bind_eq_Some_conv)
  with Cons.IH [of b1] buf_step_refines [OF Cons.prems(1)] show ?case by simp
qed simp

text \<open>What is readable can be taken as a string.\<close>

lemma retrieve_readable:
  "buf_inv b \<Longrightarrow> n \<le> readableBytes b \<Longrightarrow> retrieveAsString n b = Some (peek b n, retrieve n b)"
  by (auto simp: retrieveAsString_def buf_inv_def readableBytes_def Let_def)

text \<open>A run is undefined exactly where it reads a string past the end of the vector.\<close>

definition overreads :: "buf_op list \<Rightarrow> buffer \<Rightarrow> bool" where
  "overreads cs b \<longleftrightarrow> (\<exists>pre m post b'. cs = pre @ RetrieveAsString m # post \<and> buf_run pre b = Some b'
     \<and> length (buf_vec b') < readIndex b' + m)"

lemma buf_step_undefined:
  "buf_step c b = None \<longleftrightarrow> (\<exists>m. c = RetrieveAsString m \<and> length (buf_vec b) < readIndex b + m)"
  by (cases c) (auto simp: retrieveAsString_def Let_def)

lemma buf_run_undefined: "buf_run cs b = None \<Longrightarrow> overreads cs b"
proof (induction cs arbitrary: b)
  case (Cons c cs)
  show ?case
  proof (cases "buf_step c b")
    case None
    then obtain m where "c = RetrieveAsString m" "length (buf_vec b) < readIndex b + m" by (auto simp: buf_step_undefined)
    then show ?thesis unfolding overreads_def by (intro exI [of _ "[]"] exI [of _ m] exI [of _ cs] exI [of _ b]) simp
  next
    case (Some b1)
    with Cons.prems have "buf_run cs b1 = None" by simp
    from Cons.IH [OF this] obtain pre m post b' where "cs = pre @ RetrieveAsString m # post" "buf_run pre b1 = Some b'"
        "length (buf_vec b') < readIndex b' + m" unfolding overreads_def by blast
    with Some show ?thesis
      unfolding overreads_def by (intro exI [of _ "c # pre"] exI [of _ m] exI [of _ post] exI [of _ b']) simp
  qed
qed simp

text \<open>
  C17: a buffer is a byte queue.  Any sequence of the public operations, started on a fresh buffer of
  any initial size, keeps the index invariant and leaves as readable bytes exactly what the same
  operations leave in an abstract byte queue; compaction, growth and the spill through the stack
  buffer of \<open>readFd\<close> are invisible.  The only run without a result is one that asks \<open>retrieveAsString\<close>,
  which does not check its argument, for bytes beyond the vector.
\<close>

theorem buffer_refines_queue:
  "case buf_run cs (Buffer_new n) of
     Some b \<Rightarrow> buf_inv b \<and> contents b = fold queue_step cs []
   | None \<Rightarrow> overreads cs (Buffer_new n)"
  using buf_run_refines [of "Buffer_new n" cs] buf_run_undefined [of cs "Buffer_new n"] by (auto split: option.split)

text \<open>
  \<open>append\<close> compacts before it grows.  As long as the unread bytes, the new data and the
  reserved prefix fit into the vector, the vector keeps its size; otherwise it grows to exactly the
  write position plus the new data.
\<close>

theorem append_space:
  assumes "buf_inv b"
  shows "length (buf_vec (append_buf xs b)) =
    (if readableBytes b + length xs + kCheapPrepend \<le> length (buf_vec b)
     then length (buf_vec b) else writeIndex b + length xs)"
proof (cases "writableBytes b < length xs")
  case False
  with assms show ?thesis
    by (auto simp: append_buf_def ensureWritableBytes_def buf_inv_def buf_index_defs Let_def)
next
  case True
  have peek: "length (peek b (readableBytes b)) = readableBytes b"
    using assms by (auto simp: peek_def buf_inv_def readableBytes_def)
  show ?thesis
    using assms True peek
    by (auto simp: append_buf_def ensureWritableBytes_def makeSpace_def buf_inv_def buf_index_defs
        Let_def)
qed

lemma append_space_witness:
  "buf_inv (Buffer_new 4)
   \<and> length (buf_vec (append_buf ''abcdef'' (Buffer_new 4))) = 14"
  using append_space [OF buf_inv_new, of "''abcdef''" 4]
  by (simp add: Buffer_new_def readableBytes_def kCheapPrepend_def buf_inv_def)

end
