(* ===== verification/Rpc_Codec.thy ===== *)
theory Rpc_Codec
  imports Net_Buffer "HOL-Library.Sublist"
begin

text \<open>
  The frame codec of \<^verbatim>\<open>src/rpc/rpc_codec.h\<close>: a four-byte length in network order, an eight-byte
  request id in network order, and the payload.  The functions take the byte order of the host they
  run on, so that the two ends of a connection may differ.  The locale \<open>frame_codec\<close> is the contract
  the server, the client channel and the benchmark rely on.
\<close>

section \<open>The class RpcCodec\<close>

definition htonll :: "byte_order \<Rightarrow> uint64 \<Rightarrow> uint64" where
  "htonll e val =
     (if e = LittleEndian
      then push_bit 32 (ucast (htonl e (ucast (val AND 0xFFFFFFFF))) :: uint64)
           OR (ucast (htonl e (ucast (drop_bit 32 val))) :: uint64)
      else val)"

definition ntohll :: "byte_order \<Rightarrow> uint64 \<Rightarrow> uint64" where
  "ntohll e val = htonll e val"

definition pack :: "byte_order \<Rightarrow> bytes \<Rightarrow> bytes" where
  "pack e data =
     (let len = (word_of_nat (length data) :: int32);
          netLen = htonl e len
      in store32 e netLen @ data)"

definition packWithId :: "byte_order \<Rightarrow> uint64 \<Rightarrow> bytes \<Rightarrow> bytes" where
  "packWithId e reqId data =
     (let len = (word_of_nat (8 + length data) :: int32);
          netLen = htonl e len;
          netId = htonll e reqId
      in store32 e netLen @ store64 e netId @ data)"

text \<open>The limit \<open>64 * 1024 * 1024\<close> both decoders put on the length field.\<close>

definition kMaxLen :: nat where
  "kMaxLen = 64 * 1024 * 1024"

definition tryUnpack :: "byte_order \<Rightarrow> buffer \<Rightarrow> bytes \<times> buffer" where
  "tryUnpack e buf =
     (if readableBytes buf < 4 then ([], buf)
      else let netLen = load32 e (peek buf 4);
               len = ntohl e netLen
           in if sint len < 0 \<or> sint len > int kMaxLen then ([], retrieveAll buf)
              else if readableBytes buf < 4 + nat (sint len) then ([], buf)
              else (case retrieveAsString (nat (sint len)) (retrieve 4 buf) of
                      Some r \<Rightarrow> r
                    | None \<Rightarrow> ([], retrieve 4 buf)))"

text \<open>
  Both decoders call \<open>retrieveAsString\<close> with what is readable only, so its undefined case does not arise in
  them (\<open>retrieve_readable\<close>).  \<open>tryUnpackWithId\<close> returns the payload, the out-parameter \<open>id\<close> and the buffer; \<open>id\<close> keeps the
  caller's value where the source does not assign it.
\<close>

definition tryUnpackWithId :: "byte_order \<Rightarrow> buffer \<Rightarrow> uint64 \<Rightarrow> bytes \<times> uint64 \<times> buffer" where
  "tryUnpackWithId e buf reqId =
     (if readableBytes buf < 4 then ([], reqId, buf)
      else let netLen = load32 e (peek buf 4);
               len = ntohl e netLen
           in if sint len < 0 \<or> sint len > int kMaxLen then ([], 0, retrieveAll buf)
              else if readableBytes buf < 4 + nat (sint len) then ([], reqId, buf)
              else let buf1 = retrieve 4 buf
                   in if sint len < 8 then ([], 0, retrieveAll buf1)
                      else let netId = load64 e (peek buf1 8);
                               reqId' = ntohll e netId;
                               buf2 = retrieve 8 buf1;
                               (s, buf3) = (case retrieveAsString (nat (sint len) - 8) buf2 of
                                              Some r \<Rightarrow> r
                                            | None \<Rightarrow> ([], buf2))
                           in (s, reqId', buf3))"

section \<open>Byte order of the identifier\<close>

lemma unat_hi_lo:
  fixes a b :: uint32
  shows "unat (push_bit 32 (ucast a :: uint64) OR ucast b) = unat b + 256 ^ 4 * unat a"
proof -
  have disj: "push_bit 32 (ucast a :: uint64) AND ucast b = 0"
    by (rule bit_eqI) (auto simp: bit_simps dest: bit_imp_le_length)
  have "push_bit 32 (ucast a :: uint64) OR ucast b = push_bit 32 (ucast a) + ucast b"
    using disj by (simp add: disjunctive_add_eq_or)
  moreover have "unat (push_bit 32 (ucast a :: uint64)) = 2 ^ 32 * unat a"
  proof -
    have "2 ^ 32 * unat a < 2 ^ 64"
      using unat_bound [of a] by simp
    then show ?thesis
      by (simp add: push_bit_eq_mult unat_word_ariths unsigned_ucast_eq take_bit_eq_mod)
  qed
  moreover have "unat (ucast b :: uint64) = unat b"
    using unat_bound [of b] by (simp add: unsigned_ucast_eq take_bit_eq_mod)
  moreover have "unat b + 2 ^ 32 * unat a < 2 ^ 64"
    using unat_bound [of a] unat_bound [of b] by simp
  ultimately show ?thesis
    by (simp add: unat_word_ariths)
qed

lemma le_bytes_low: "le_bytes 4 (unat (ucast (v AND 0xFFFFFFFF :: uint64) :: uint32)) = le_bytes 4 (unat v)"
proof -
  have "v AND 0xFFFFFFFF = take_bit 32 v"
    by (simp add: take_bit_eq_mask mask_eq_exp_minus_1)
  then have "unat (ucast (v AND 0xFFFFFFFF) :: uint32) = unat v mod 256 ^ 4"
    by (simp add: unsigned_ucast_eq take_bit_eq_mod unat_mod)
  then show ?thesis by (simp only: le_bytes_mod)
qed

lemma le_bytes_high: "unat (ucast (drop_bit 32 (v :: uint64)) :: uint32) = unat v div 256 ^ 4"
proof -
  have "unat v div 2 ^ 32 < 2 ^ 32"
    using unat_bound [of v] by (simp add: less_mult_imp_div_less)
  then show ?thesis
    by (simp add: unsigned_ucast_eq take_bit_eq_mod drop_bit_eq_div unat_div)
qed

lemma store64_htonll: "store64 e (htonll e v) = rev (le_bytes 8 (unat v))"
proof (cases e)
  case LittleEndian
  let ?lo = "ucast (v AND 0xFFFFFFFF) :: uint32" and ?hi = "ucast (drop_bit 32 v) :: uint32"
  have "unat (bswap32 ?hi) < 256 ^ 4"
    using unat_bound [of "bswap32 ?hi"] by simp
  then have "le_bytes (4 + 4) (unat (bswap32 ?hi) + 256 ^ 4 * unat (bswap32 ?lo))
      = le_bytes 4 (unat (bswap32 ?hi)) @ le_bytes 4 (unat (bswap32 ?lo))"
    by (rule le_bytes_append)
  then have "le_bytes 8 (unat (htonll e v)) = rev (le_bytes 4 (unat ?hi)) @ rev (le_bytes 4 (unat ?lo))"
    by (simp add: LittleEndian htonll_def htonl_def unat_hi_lo le_bytes_bswap32)
  also have "\<dots> = rev (le_bytes 8 (unat v))"
    by (simp only: le_bytes_low le_bytes_high le_bytes_8 [of "unat v"] rev_append)
  finally show ?thesis
    by (simp add: LittleEndian store64_def store_def)
next
  case BigEndian
  then show ?thesis by (simp add: store64_def store_def htonll_def)
qed

lemma store64_inj: "store64 e v = store64 e w \<Longrightarrow> v = w"
  by (metis load64_store64)

lemma htonll_htonll [simp]: "htonll e (htonll e v) = v"
proof (cases e)
  case LittleEndian
  have "store64 LittleEndian (htonll LittleEndian (htonll LittleEndian v)) = store64 LittleEndian v"
    using store64_htonll [of LittleEndian "htonll LittleEndian v"] store64_htonll [of LittleEndian v]
    by (simp add: store64_def store_def)
  with LittleEndian show ?thesis by (blast intro: store64_inj)
next
  case BigEndian
  then show ?thesis by (simp add: htonll_def)
qed

lemma ntohll_htonll [simp]: "ntohll e (htonll e v) = v"
  by (simp add: ntohll_def)

text \<open>What one host writes, a host of either byte order reads.\<close>

lemma net32_any_host [wire_simps]: "ntohl e (load32 e (store32 e' (htonl e' w))) = w"
proof -
  have "store32 e' (htonl e' w) = store32 e (htonl e w)"
    by (simp add: store32_htonl)
  then show ?thesis by simp
qed

lemma net64_any_host [wire_simps]: "ntohll e (load64 e (store64 e' (htonll e' w))) = w"
proof -
  have "store64 e' (htonll e' w) = store64 e (htonll e w)"
    by (simp add: store64_htonll)
  then show ?thesis by simp
qed

section \<open>Decoding\<close>

text \<open>The payloads a frame can carry under the length limit of the decoders.\<close>

definition fits :: "bytes \<Rightarrow> bool" where
  "fits data \<longleftrightarrow> 8 + length data \<le> kMaxLen"

lemma sint_of_small_nat: "n < 2 ^ 31 \<Longrightarrow> sint (word_of_nat n :: int32) = int n"
  by (simp add: signed_of_nat signed_take_bit_int_eq_self)

lemma sint_of_large_nat:
  assumes "2 ^ 31 \<le> n" and "n < 2 ^ 32"
  shows "sint (word_of_nat n :: int32) = int n - 2 ^ 32"
proof -
  have "n div 2 ^ 31 = 1"
    using assms by (simp add: div_nat_eqI)
  then have "int n div 2 ^ 31 = 1"
    by (metis of_nat_1 of_nat_numeral of_nat_power zdiv_int)
  then have "bit (int n) 31"
    by (simp add: bit_iff_odd)
  moreover have "take_bit 32 (int n) = int n"
    using assms(2) by (simp add: take_bit_int_eq_self)
  ultimately show ?thesis
    by (simp add: signed_of_nat signed_take_bit_eq_take_bit_minus)
qed

lemma sint_len [wire_simps]: "n \<le> kMaxLen \<Longrightarrow> sint (word_of_nat n :: int32) = int n"
  by (rule sint_of_small_nat) (simp add: kMaxLen_def)

lemma packWithId_alt:
  "packWithId e reqId data =
     store32 e (htonl e (word_of_nat (8 + length data))) @ store64 e (htonll e reqId) @ data"
  by (simp add: packWithId_def Let_def)

lemma length_packWithId [simp]: "length (packWithId e reqId data) = 12 + length data"
  by (simp add: packWithId_alt)

lemma length_pack [simp]: "length (pack e data) = 4 + length data"
  by (simp add: pack_def Let_def)

text \<open>Reading the length field of a buffer whose first four bytes are known.\<close>

lemma length_field:
  assumes "buf_inv b" and "contents b = store32 e' (htonl e' w) @ rest"
  shows "ntohl e (load32 e (peek b 4)) = w"
  using bq.look_prefix [OF assms] by (simp add: net32_any_host)

lemma length_field_prefix:
  assumes "buf_inv b" and "4 \<le> readableBytes b"
    and "prefix (contents b) (store32 e' (htonl e' w) @ xs)"
  shows "ntohl e (load32 e (peek b 4)) = w"
proof -
  have "4 \<le> length (contents b)"
    using assms by (simp add: length_contents)
  with assms(3) have "prefix (store32 e' (htonl e' w)) (contents b)"
    by (metis length_store32 prefix_length_prefix prefixI)
  then obtain rest where "contents b = store32 e' (htonl e' w) @ rest"
    by (auto elim: prefixE)
  then show ?thesis by (rule length_field [OF assms(1)])
qed

lemma tryUnpackWithId_frame:
  assumes inv: "buf_inv b" and fits: "fits data"
    and c: "contents b = packWithId e' reqId data @ rest"
  shows "\<exists>b'. tryUnpackWithId e b reqId0 = (data, reqId, b') \<and> buf_inv b' \<and> contents b' = rest"
proof -
  let ?len = "word_of_nat (8 + length data) :: int32"
  let ?b1 = "retrieve 4 b" and ?n = "length data"
  have c': "contents b = store32 e' (htonl e' ?len) @ (store64 e' (htonll e' reqId) @ data @ rest)"
    using c by (simp add: packWithId_alt)
  have readable: "readableBytes b = 12 + ?n + length rest"
    using c inv by (simp flip: length_contents)
  have len: "sint ?len = int (8 + ?n)"
    using fits by (intro sint_len) (simp add: fits_def)
  have c1: "contents ?b1 = store64 e' (htonll e' reqId) @ (data @ rest)" and i1: "buf_inv ?b1"
    using bq.consume_prefix [OF inv c'] inv by (simp_all add: inv_intros)
  have c2: "contents (retrieve 8 ?b1) = data @ rest" and i2: "buf_inv (retrieve 8 ?b1)"
    using bq.consume_prefix [OF i1 c1] i1 by (simp_all add: inv_intros)
  have "peek ?b1 8 = store64 e' (htonll e' reqId)"
    using bq.look_prefix [OF i1 c1] by simp
  then have reqId: "ntohll e (load64 e (peek ?b1 8)) = reqId"
    by (simp add: net64_any_host)
  have body: "peek (retrieve 8 ?b1) ?n = data"
    using bq.look_prefix [OF i2 c2] by simp
  have rest: "contents (retrieve ?n (retrieve 8 ?b1)) = rest"
    using bq.consume_prefix [OF i2 c2] by simp
  have "tryUnpackWithId e b reqId0 = (data, reqId, retrieve ?n (retrieve 8 ?b1))"
    using readable len fits reqId body length_field [OF inv c', of e]
    using retrieve_readable [OF i2, of ?n] c2 i2
    by (simp add: tryUnpackWithId_def fits_def Let_def nat_add_distrib flip: length_contents)
  with i2 rest show ?thesis by (simp add: inv_intros)
qed

lemma tryUnpackWithId_partial:
  assumes inv: "buf_inv b" and fits: "fits data"
    and pre: "strict_prefix (contents b) (packWithId e' reqId data)"
  shows "tryUnpackWithId e b reqId0 = ([], reqId0, b)"
proof (cases "readableBytes b < 4")
  case True
  then show ?thesis by (simp add: tryUnpackWithId_def)
next
  case False
  let ?len = "word_of_nat (8 + length data) :: int32"
  have len: "sint ?len = int (8 + length data)"
    using fits by (intro sint_len) (simp add: fits_def)
  have "length (contents b) < 12 + length data"
    using prefix_length_less [OF pre] by simp
  then have "readableBytes b < 4 + (8 + length data)"
    using inv by (simp add: length_contents)
  moreover have "prefix (contents b) (store32 e' (htonl e' ?len) @ store64 e' (htonll e' reqId) @ data)"
    using pre by (simp add: packWithId_alt strict_prefix_def)
  then have "ntohl e (load32 e (peek b 4)) = ?len"
    using length_field_prefix [OF inv] False by (meson not_less)
  ultimately show ?thesis
    using False len fits by (simp add: tryUnpackWithId_def fits_def Let_def nat_add_distrib)
qed

section \<open>The contract of a framed stream\<close>

text \<open>
  What a reader of frames relies on: a complete frame at the front is taken off, with its id and
  payload; an incomplete one is left alone.
\<close>

locale frame_codec =
  fixes inv :: "'b \<Rightarrow> bool"
    and abs :: "'b \<Rightarrow> bytes"
    and unpack :: "'b \<Rightarrow> bytes \<times> uint64 \<times> 'b"
    and frame :: "uint64 \<Rightarrow> bytes \<Rightarrow> bytes"
    and ok :: "bytes \<Rightarrow> bool"
  assumes unpack_frame: "inv b \<Longrightarrow> ok d \<Longrightarrow> abs b = frame i d @ rest \<Longrightarrow>
      \<exists>b'. unpack b = (d, i, b') \<and> inv b' \<and> abs b' = rest"
    and unpack_partial: "inv b \<Longrightarrow> ok d \<Longrightarrow> strict_prefix (abs b) (frame i d) \<Longrightarrow>
      fst (unpack b) = [] \<and> snd (snd (unpack b)) = b"
    and ok_empty: "ok []"
    and frame_nonempty: "frame i d \<noteq> []"
begin

lemma unpack_empty: "inv b \<Longrightarrow> abs b = [] \<Longrightarrow> fst (unpack b) = [] \<and> snd (snd (unpack b)) = b"
  using unpack_partial [OF _ ok_empty, of b 0] frame_nonempty [of 0 "[]"]
  by (simp add: strict_prefix_def)

definition frames :: "(uint64 \<times> bytes) list \<Rightarrow> bytes" where
  "frames ms = concat (map (\<lambda>(i, d). frame i d) ms)"

lemma frames_Nil [simp]: "frames [] = []"
  by (simp add: frames_def)

lemma frames_Cons [simp]: "frames ((i, d) # ms) = frame i d @ frames ms"
  by (simp add: frames_def)

lemma frames_append [simp]: "frames (ms @ ms') = frames ms @ frames ms'"
  by (simp add: frames_def)

text \<open>A prefix of a stream of frames is some frames and the beginning of the next one.\<close>

definition cut :: "(uint64 \<times> bytes) list \<Rightarrow> bytes \<Rightarrow> bool" where
  "cut ms part \<longleftrightarrow> part = [] \<or> (\<exists>i d ms'. ms = (i, d) # ms' \<and> strict_prefix part (frame i d))"

lemma prefix_of_frames:
  "prefix xs (frames ms) \<Longrightarrow> \<exists>ms1 ms2 part. ms = ms1 @ ms2 \<and> xs = frames ms1 @ part \<and> cut ms2 part"
proof (induction ms arbitrary: xs)
  case Nil
  then show ?case by (simp add: cut_def)
next
  case (Cons m ms)
  obtain i d where m: "m = (i, d)" by (cases m)
  with Cons.prems have "prefix xs (frame i d) \<or> (\<exists>ys. xs = frame i d @ ys \<and> prefix ys (frames ms))"
    by (simp add: prefix_append)
  then consider "strict_prefix xs (frame i d)" | ys where "xs = frame i d @ ys" "prefix ys (frames ms)"
    by (metis Nil_prefix append_Nil2 strict_prefix_def)
  then show ?case
  proof cases
    case 1
    with m have "m # ms = [] @ m # ms \<and> xs = frames [] @ xs \<and> cut (m # ms) xs" by (simp add: cut_def)
    then show ?thesis by blast
  next
    case 2
    with Cons.IH obtain ms1 ms2 part where "ms = ms1 @ ms2" "ys = frames ms1 @ part" "cut ms2 part" by blast
    with 2 m have "m # ms = (m # ms1) @ ms2 \<and> xs = frames (m # ms1) @ part \<and> cut ms2 part" by simp
    then show ?thesis by blast
  qed
qed

lemma cut_all: "cut ms (frames ms) \<Longrightarrow> ms = []"
proof (cases ms)
  case (Cons m ms')
  moreover assume "cut ms (frames ms)"
  ultimately show ?thesis
    using frame_nonempty by (cases m) (auto simp: cut_def strict_prefix_def)
qed

end

text \<open>
  A reader: a loop that unpacks until it gets an empty payload and hands every other payload to a
  handler.  The equation is the contract of the loop; the result says which frames it handles.
\<close>

locale frame_reader = frame_codec inv abs unpack frame ok
  for inv :: "'b \<Rightarrow> bool" and abs and unpack and frame and ok +
  fixes loop :: "'b \<Rightarrow> 's \<Rightarrow> 's \<times> 'b"
    and handle :: "uint64 \<Rightarrow> bytes \<Rightarrow> 's \<Rightarrow> 's"
  assumes loop_stop: "fst (unpack b) = [] \<Longrightarrow> loop b s = (s, snd (snd (unpack b)))"
    and loop_step: "unpack b = (d, i, b') \<Longrightarrow> d \<noteq> [] \<Longrightarrow> loop b s = loop b' (handle i d s)"
begin

lemma loop_frames:
  assumes "inv b" and "abs b = frames ms @ rest"
    and "\<forall>(i, d) \<in> set ms. ok d \<and> d \<noteq> []"
  shows "\<exists>b'. loop b s = loop b' (fold (\<lambda>(i, d). handle i d) ms s) \<and> inv b' \<and> abs b' = rest"
  using assms
proof (induction ms arbitrary: b s)
  case Nil
  then show ?case by auto
next
  case (Cons m ms)
  obtain i d where m: "m = (i, d)" by (cases m)
  with Cons.prems have "ok d" "d \<noteq> []" and "abs b = frame i d @ (frames ms @ rest)"
    by auto
  with Cons.prems(1) obtain b1 where b1: "unpack b = (d, i, b1)" "inv b1" "abs b1 = frames ms @ rest"
    using unpack_frame by blast
  have "loop b s = loop b1 (handle i d s)"
    using b1(1) \<open>d \<noteq> []\<close> by (rule loop_step)
  moreover have "\<forall>(i, d) \<in> set ms. ok d \<and> d \<noteq> []"
    using Cons.prems(3) by simp
  ultimately show ?case
    using Cons.IH [OF b1(2,3)] m by simp
qed

text \<open>
  Frames followed by the beginning of another one: every complete frame is handled, in order, and
  the beginning stays in the buffer.
\<close>

lemma loop_frames_partial:
  assumes inv: "inv b" and "abs b = frames ms @ part"
    and "\<forall>(i, d) \<in> set ms. ok d \<and> d \<noteq> []"
    and part: "part = [] \<or> (\<exists>i d. ok d \<and> strict_prefix part (frame i d))"
  shows "\<exists>b'. loop b s = (fold (\<lambda>(i, d). handle i d) ms s, b') \<and> inv b' \<and> abs b' = part"
proof -
  obtain b' where b': "loop b s = loop b' (fold (\<lambda>(i, d). handle i d) ms s)" "inv b'" "abs b' = part"
    using loop_frames [OF assms(1-3)] by blast
  have "fst (unpack b') = [] \<and> snd (snd (unpack b')) = b'"
    using part b'(2,3) unpack_partial unpack_empty by blast
  then show ?thesis using b' loop_stop by metis
qed

end

text \<open>
  A reader whose buffer is filled in pieces, by an operation that appends.  However the stream is cut
  into pieces, the frames are handled in order, each as soon as it is complete.
\<close>

locale chunked_reader = frame_reader inv abs unpack frame ok loop handle
  for inv :: "'b \<Rightarrow> bool" and abs and unpack and frame and ok and loop :: "'b \<Rightarrow> 's \<Rightarrow> 's \<times> 'b" and handle +
  fixes fill :: "bytes \<Rightarrow> 'b \<Rightarrow> 'b"
  assumes inv_fill: "inv b \<Longrightarrow> inv (fill xs b)"
    and abs_fill: "inv b \<Longrightarrow> abs (fill xs b) = abs b @ xs"
begin

definition feed :: "bytes list \<Rightarrow> 's \<times> 'b \<Rightarrow> 's \<times> 'b" where
  "feed = fold (\<lambda>chunk (s, b). loop (fill chunk b) s)"

lemma feed_step:
  assumes "inv b" and "cut ms (abs b)" and "prefix (abs b @ xs) (frames ms)"
    and "\<forall>(i, d) \<in> set ms. ok d \<and> d \<noteq> []"
  shows "\<exists>ms1 ms2 b'. ms = ms1 @ ms2 \<and> loop (fill xs b) s = (fold (\<lambda>(i, d). handle i d) ms1 s, b')
      \<and> inv b' \<and> abs b @ xs = frames ms1 @ abs b' \<and> cut ms2 (abs b')"
proof -
  obtain ms1 ms2 part where ms: "ms = ms1 @ ms2" "abs b @ xs = frames ms1 @ part" "cut ms2 part"
    using prefix_of_frames [OF assms(3)] by blast
  moreover have "part = [] \<or> (\<exists>i d. ok d \<and> strict_prefix part (frame i d))"
    using ms(1,3) assms(4) by (fastforce simp: cut_def)
  moreover have "\<forall>(i, d) \<in> set ms1. ok d \<and> d \<noteq> []" using ms(1) assms(4) by auto
  moreover have "abs (fill xs b) = frames ms1 @ part" using ms(2) abs_fill [OF assms(1)] by simp
  ultimately obtain b' where "loop (fill xs b) s = (fold (\<lambda>(i, d). handle i d) ms1 s, b')" "inv b'" "abs b' = part"
    using loop_frames_partial [OF inv_fill [OF assms(1)], of xs ms1 part s] by blast
  with ms show ?thesis by blast
qed

lemma feed_frames:
  assumes "inv b" and "cut ms (abs b)" and "prefix (abs b @ concat chunks) (frames ms)"
    and "\<forall>(i, d) \<in> set ms. ok d \<and> d \<noteq> []"
  shows "\<exists>ms1 ms2 b'. ms = ms1 @ ms2 \<and> feed chunks (s, b) = (fold (\<lambda>(i, d). handle i d) ms1 s, b')
      \<and> inv b' \<and> abs b @ concat chunks = frames ms1 @ abs b' \<and> cut ms2 (abs b')"
  using assms
proof (induction chunks arbitrary: b s ms)
  case Nil
  then show ?case by (intro exI [of _ "[]"] exI [of _ ms] exI [of _ b]) (simp add: feed_def)
next
  case (Cons xs chunks)
  have "prefix (abs b @ xs) (frames ms)"
    using Cons.prems(3) append_prefixD [of "abs b @ xs" "concat chunks"] by simp
  from feed_step [OF Cons.prems(1,2) this Cons.prems(4), of s]
  obtain ms1 ms2 b1 where 1: "ms = ms1 @ ms2" "loop (fill xs b) s = (fold (\<lambda>(i, d). handle i d) ms1 s, b1)"
      "inv b1" "abs b @ xs = frames ms1 @ abs b1" "cut ms2 (abs b1)" by blast
  have "prefix (abs b1 @ concat chunks) (frames ms2)"
    using Cons.prems(3) 1(1,4) by (simp flip: append_assoc) (simp add: append_assoc)
  from Cons.IH [OF 1(3,5) this, of "fold (\<lambda>(i, d). handle i d) ms1 s"] Cons.prems(4) 1(1)
  obtain ms3 ms4 b' where 2: "ms2 = ms3 @ ms4" "inv b'"
      "feed chunks (fold (\<lambda>(i, d). handle i d) ms1 s, b1)
         = (fold (\<lambda>(i, d). handle i d) ms3 (fold (\<lambda>(i, d). handle i d) ms1 s), b')"
      "abs b1 @ concat chunks = frames ms3 @ abs b'" "cut ms4 (abs b')" by auto
  then show ?case
    using 1 by (intro exI [of _ "ms1 @ ms3"] exI [of _ ms4] exI [of _ b'])
      (simp add: feed_def flip: append_assoc, simp add: append_assoc)
qed

text \<open>A complete stream is handled completely, and the buffer is empty again.\<close>

lemma feed_all:
  assumes "inv b" and "abs b = []" and "concat chunks = frames ms" and "\<forall>(i, d) \<in> set ms. ok d \<and> d \<noteq> []"
  shows "\<exists>b'. feed chunks (s, b) = (fold (\<lambda>(i, d). handle i d) ms s, b') \<and> inv b' \<and> abs b' = []"
proof -
  obtain ms1 ms2 b' where r: "ms = ms1 @ ms2" "feed chunks (s, b) = (fold (\<lambda>(i, d). handle i d) ms1 s, b')"
      "inv b'" "abs b @ concat chunks = frames ms1 @ abs b'" "cut ms2 (abs b')"
    using feed_frames [OF assms(1), of ms chunks s] assms(2-4) by (auto simp: cut_def)
  then have "abs b' = frames ms2" using assms(2,3) by simp
  with r(5) have "ms2 = []" using cut_all by simp
  with r \<open>abs b' = frames ms2\<close> show ?thesis by simp
qed

end

lemma kMaxLen_ge_8 [simp]: "8 \<le> kMaxLen"
  by (simp add: kMaxLen_def)

interpretation rc: frame_codec buf_inv contents "\<lambda>b. tryUnpackWithId e b 0" "packWithId e'" fits
  for e e'
proof unfold_locales
  show "packWithId e' i d \<noteq> []" for i d
    by (metis length_packWithId list.size(3) add_is_0 zero_neq_numeral)
qed (simp_all add: tryUnpackWithId_frame tryUnpackWithId_partial fits_def)

section \<open>Outcomes of the decoder\<close>

lemma tryUnpackWithId_inv [inv_intros]:
  assumes "buf_inv b" and "tryUnpackWithId e b i = (d, i', b')"
  shows "buf_inv b'"
  using assms
  by (auto simp: tryUnpackWithId_def Let_def retrieveAsString_def inv_intros
      split: if_splits prod.splits option.splits)

text \<open>A payload costs at least its own length, so a loop over payloads stops.\<close>

lemma tryUnpackWithId_consumes:
  assumes "tryUnpackWithId e b i = (d, i', b')" and "d \<noteq> []"
  shows "readableBytes b' < readableBytes b"
  using assms
  by (auto simp: tryUnpackWithId_def Let_def retrieveAsString_def readable_retrieve
      split: if_splits prod.splits option.splits)

lemma bad_length_clears:
  assumes "buf_inv b" and "contents b = store32 e' (htonl e' len) @ rest"
    and "sint len < 0 \<or> sint len > int kMaxLen"
  shows "tryUnpackWithId e b i = ([], 0, retrieveAll b)"
proof -
  have "4 \<le> readableBytes b"
    using assms(1,2) by (simp flip: length_contents)
  with length_field [OF assms(1,2), of e] assms(3) show ?thesis
    by (auto simp: tryUnpackWithId_def Let_def)
qed

section \<open>Properties of the codec\<close>

text \<open>
  C9: framing round trip.  Whatever way the network cuts the byte stream into chunks, and whatever
  the byte orders of the two hosts, a buffer that has received a frame and some further bytes yields
  exactly the id and the payload that were packed, and keeps exactly the further bytes.
\<close>

theorem frame_roundtrip:
  assumes "8 + length data \<le> kMaxLen"
    and "concat chunks = packWithId e' reqId data @ rest"
  shows "\<exists>b'. tryUnpackWithId e (fold append_buf chunks (Buffer_new n)) 0 = (data, reqId, b')
              \<and> buf_inv b' \<and> contents b' = rest"
proof (rule tryUnpackWithId_frame)
  show "buf_inv (fold append_buf chunks (Buffer_new n))"
    by (rule bq.inv_app_all) simp
  show "contents (fold append_buf chunks (Buffer_new n)) = packWithId e' reqId data @ rest"
    using assms(2) by (simp add: bq.abs_app_all)
qed (use assms(1) in \<open>simp add: fits_def\<close>)

lemma frame_roundtrip_witness:
  "8 + length ''hi'' \<le> kMaxLen
   \<and> concat [packWithId BigEndian 7 ''hi'', ''xy''] = packWithId BigEndian 7 ''hi'' @ ''xy''
   \<and> (\<exists>b'. tryUnpackWithId LittleEndian
             (fold append_buf [packWithId BigEndian 7 ''hi'', ''xy''] (Buffer_new 1024)) 0
             = (''hi'', 7, b') \<and> buf_inv b' \<and> contents b' = ''xy'')"
proof -
  have h1: "8 + length ''hi'' \<le> kMaxLen" by (simp add: kMaxLen_def)
  have h2: "concat [packWithId BigEndian 7 ''hi'', ''xy''] = packWithId BigEndian 7 ''hi'' @ ''xy''"
    by simp
  from h1 h2 frame_roundtrip [OF h1 h2, of LittleEndian 1024] show ?thesis by blast
qed

text \<open>
  The frame is the documented wire format on every host: the length of id and payload as four
  bytes, the id as eight bytes, both most significant byte first, then the payload.
\<close>

theorem frame_is_network_order:
  assumes "8 + length data < 2 ^ 32"
  shows "packWithId e reqId data
       = rev (le_bytes 4 (8 + length data)) @ rev (le_bytes 8 (unat reqId)) @ data"
proof -
  have "unat (word_of_nat (8 + length data) :: int32) = 8 + length data"
    using assms by (simp add: unat_of_nat del: of_nat_add)
  then show ?thesis
    by (simp only: packWithId_alt store32_htonl store64_htonll)
qed

lemma frame_is_network_order_witness:
  "8 + length ''A'' < 2 ^ 32
   \<and> packWithId LittleEndian 258 ''A''
     = map char_of [0, 0, 0, 9, 0, 0, 0, 0, 0, 0, 1, 2, 65 :: nat]"
proof -
  have h: "8 + length ''A'' < 2 ^ 32" by simp
  have "packWithId LittleEndian 258 ''A''
      = rev (le_bytes 4 9) @ rev (le_bytes 8 258) @ ''A''"
    using frame_is_network_order [OF h, of LittleEndian 258] by simp
  also have "\<dots> = map char_of [0, 0, 0, 9, 0, 0, 0, 0, 0, 0, 1, 2, 65 :: nat]"
    by code_simp
  finally show ?thesis using h by simp
qed

text \<open>
  A frame that is too long for the receiver.  \<open>packWithId\<close> accepts any payload, but a receiver
  that sees a length above 64 MiB (or a negative one) discards the frame together with everything
  that follows it in the buffer, and reports no message and id 0.
\<close>

theorem oversize_frame_dropped:
  assumes "buf_inv b" and "contents b = packWithId e' reqId data @ rest"
    and "kMaxLen < 8 + length data" and "8 + length data < 2 ^ 32"
  shows "tryUnpackWithId e b i = ([], 0, retrieveAll b) \<and> contents (retrieveAll b) = []"
proof -
  let ?len = "word_of_nat (8 + length data) :: int32"
  have "sint ?len < 0 \<or> sint ?len > int kMaxLen"
  proof (cases "8 + length data < 2 ^ 31")
    case True
    then have "sint ?len = int (8 + length data)" by (rule sint_of_small_nat)
    with assms(3) show ?thesis by simp
  next
    case False
    then have "sint ?len = int (8 + length data) - 2 ^ 32"
      using assms(4) by (intro sint_of_large_nat) simp_all
    with assms(4) show ?thesis by simp
  qed
  moreover have "contents b = store32 e' (htonl e' ?len) @ (store64 e' (htonll e' reqId) @ data @ rest)"
    using assms(2) by (simp add: packWithId_alt)
  ultimately show ?thesis
    using bad_length_clears [OF assms(1)] by (simp add: contents_retrieveAll)
qed

lemma oversize_frame_dropped_witness:
  "\<exists>b. buf_inv b
     \<and> contents b = packWithId LittleEndian 1 (replicate kMaxLen (CHR ''x'')) @ ''rest''
     \<and> tryUnpackWithId BigEndian b 5 = ([], 0, retrieveAll b)"
proof -
  let ?d = "replicate kMaxLen (CHR ''x'')"
  let ?b = "append_buf (packWithId LittleEndian 1 ?d @ ''rest'') (Buffer_new 0)"
  have inv: "buf_inv ?b" and c: "contents ?b = packWithId LittleEndian 1 ?d @ ''rest''"
    by (simp_all add: buf_simps inv_intros)
  have "kMaxLen < 8 + length ?d" "8 + length ?d < 2 ^ 32"
    by (simp_all only: length_replicate) (simp_all add: kMaxLen_def)
  then have "tryUnpackWithId BigEndian ?b 5 = ([], 0, retrieveAll ?b)"
    using oversize_frame_dropped [OF inv c] by blast
  with inv c show ?thesis by blast
qed

text \<open>
  A frame too short to hold an id poisons the stream.  Once such a frame (a length field below
  eight, followed by that many bytes) is complete, the decoder discards it and every byte behind it,
  complete valid frames included.
\<close>

theorem short_frame_drops_following:
  assumes "buf_inv b" and "length body < 8"
    and "contents b = store32 e' (htonl e' (word_of_nat (length body))) @ body @ rest"
  shows "\<exists>b'. tryUnpackWithId e b i = ([], 0, b') \<and> contents b' = []"
proof -
  let ?len = "word_of_nat (length body) :: int32"
  have "sint ?len = int (length body)"
    using assms(2) by (intro sint_of_small_nat) simp
  moreover have "readableBytes b = 4 + length body + length rest"
    using assms(1,3) by (simp flip: length_contents)
  ultimately have "tryUnpackWithId e b i = ([], 0, retrieveAll (retrieve 4 b))"
    using length_field [OF assms(1,3), of e] assms(2)
    by (simp add: tryUnpackWithId_def Let_def kMaxLen_def)
  then show ?thesis by (simp add: contents_retrieveAll)
qed

lemma short_frame_drops_following_witness:
  "\<exists>b. contents b = pack LittleEndian ''abc'' @ packWithId LittleEndian 1 ''ping''
     \<and> (\<exists>b'. tryUnpackWithId LittleEndian b 9 = ([], 0, b') \<and> contents b' = [])"
proof -
  let ?b = "append_buf (pack LittleEndian ''abc'' @ packWithId LittleEndian 1 ''ping'') (Buffer_new 0)"
  have inv: "buf_inv ?b" and len: "length ''abc'' < 8"
    and c: "contents ?b = pack LittleEndian ''abc'' @ packWithId LittleEndian 1 ''ping''"
    by (simp_all add: buf_simps inv_intros)
  have "contents ?b = store32 LittleEndian (htonl LittleEndian (word_of_nat (length ''abc'')))
      @ ''abc'' @ packWithId LittleEndian 1 ''ping''"
    unfolding c by (simp only: pack_def Let_def append_assoc)
  from short_frame_drops_following [OF inv len this] c show ?thesis by blast
qed

text \<open>
  Round trip of the frames without an id, \<open>pack\<close> and \<open>tryUnpack\<close>, between hosts of any byte
  orders.
\<close>

theorem pack_roundtrip:
  assumes inv: "buf_inv b" and len: "length data \<le> kMaxLen"
    and c: "contents b = pack e' data @ rest"
  shows "\<exists>b'. tryUnpack e b = (data, b') \<and> buf_inv b' \<and> contents b' = rest"
proof -
  let ?len = "word_of_nat (length data) :: int32"
  have c': "contents b = store32 e' (htonl e' ?len) @ (data @ rest)"
    using c by (simp add: pack_def Let_def)
  have c1: "contents (retrieve 4 b) = data @ rest" and i1: "buf_inv (retrieve 4 b)"
    using bq.consume_prefix [OF inv c'] inv by (simp_all add: inv_intros)
  have "readableBytes b = 4 + length data + length rest"
    using c inv by (simp flip: length_contents)
  moreover have "retrieveAsString (length data) (retrieve 4 b) = Some (data, retrieve (length data) (retrieve 4 b))"
    using retrieve_readable [OF i1, of "length data"] bq.look_prefix [OF i1 c1] c1 i1 by (simp flip: length_contents)
  ultimately have "tryUnpack e b = (data, retrieve (length data) (retrieve 4 b))"
    using length_field [OF inv c', of e] sint_len [OF len] len
    by (simp add: tryUnpack_def Let_def)
  then show ?thesis
    using bq.consume_prefix [OF i1 c1] i1 by (simp add: inv_intros)
qed

lemma pack_roundtrip_witness:
  "\<exists>b b'. contents b = pack BigEndian ''abc'' @ ''de''
     \<and> tryUnpack LittleEndian b = (''abc'', b') \<and> contents b' = ''de''"
proof -
  let ?b = "append_buf (pack BigEndian ''abc'' @ ''de'') (Buffer_new 0)"
  have inv: "buf_inv ?b" and c: "contents ?b = pack BigEndian ''abc'' @ ''de''"
    by (simp_all add: buf_simps inv_intros)
  have len: "length ''abc'' \<le> kMaxLen" by (simp add: kMaxLen_def)
  from pack_roundtrip [OF inv len c] c show ?thesis by blast
qed

end
