(* ===== verification/Pb_Runtime.thy ===== *)
theory Pb_Runtime
  imports Rpc_Prelude
begin

text \<open>
  The protobuf runtime that the generated files \<^verbatim>\<open>*.pb.cc\<close> call.  The runtime is not part of the
  repository: it enters the model as a record of functions, an argument of every definition that
  uses it, and the locale \<open>pb_runtime_ok\<close> lists the documented facts about the wire format that the
  proofs use.  The parse loop that every generated \<open>_InternalParse\<close> contains is defined here once,
  over the switch of the message.  The last part is a concrete runtime, base-128 varints and
  length-delimited fields, which shows that the contract can be met.
\<close>

section \<open>The runtime as a parameter\<close>

text \<open>
  A read pointer is the list of the bytes left; \<open>None\<close> is \<open>nullptr\<close>.  A writer is the list of bytes
  it appends.  The type \<open>'u\<close> stands for \<open>UnknownFieldSet\<close>.
\<close>

record 'u pb_runtime =
  ReadTag :: "bytes \<Rightarrow> uint32 \<times> bytes option"
  ReadVarint32 :: "bytes \<Rightarrow> uint32 \<times> bytes option"
  ReadVarint64 :: "bytes \<Rightarrow> uint64 \<times> bytes option"
  InlineGreedyStringParser :: "bytes \<Rightarrow> (bytes \<times> bytes) option"
  VerifyUTF8 :: "bytes \<Rightarrow> bool"
  UnknownFieldParse :: "uint32 \<Rightarrow> 'u \<Rightarrow> bytes \<Rightarrow> ('u \<times> bytes) option"
  WriteStringMaybeAliased :: "nat \<Rightarrow> bytes \<Rightarrow> bytes"
  WriteBytesMaybeAliased :: "nat \<Rightarrow> bytes \<Rightarrow> bytes"
  WriteEnumToArray :: "nat \<Rightarrow> int32 \<Rightarrow> bytes"
  WriteInt32ToArray :: "nat \<Rightarrow> int32 \<Rightarrow> bytes"
  StringSize :: "bytes \<Rightarrow> nat"
  BytesSize :: "bytes \<Rightarrow> nat"
  EnumSize :: "int32 \<Rightarrow> nat"
  Int32SizePlusOne :: "int32 \<Rightarrow> nat"
  unknown_default :: 'u
  have_unknown_fields :: "'u \<Rightarrow> bool"
  MergeUnknown :: "'u \<Rightarrow> 'u \<Rightarrow> 'u"
  SerializeUnknown :: "'u \<Rightarrow> bytes"
  UnknownFieldsSize :: "'u \<Rightarrow> nat"

section \<open>The parse loop of the generated code\<close>

text \<open>
  One pass of the loop body ends with \<open>goto failure\<close>, with \<open>goto message_done\<close> after
  \<open>ctx->SetLastTag(tag)\<close>, or with \<open>continue\<close>.
\<close>

datatype 'm parse_step = Failure 'm | MessageDone 'm bytes uint32 | Continue 'm bytes

text \<open>
  The block at the label \<open>handle_unusual\<close>: an end-group tag or a zero tag ends the message, any other
  field is kept in the unknown field set.
\<close>

definition handle_unusual ::
  "'u pb_runtime \<Rightarrow> ('m \<Rightarrow> 'u) \<Rightarrow> ('u \<Rightarrow> 'm \<Rightarrow> 'm) \<Rightarrow> 'm \<Rightarrow> uint32 \<Rightarrow> bytes option \<Rightarrow> 'm parse_step" where
  "handle_unusual rt get_unknown set_unknown m tag ptr =
     (if tag = 0 \<or> tag AND 7 = 4
      then (case ptr of None \<Rightarrow> Failure m | Some q \<Rightarrow> MessageDone m q tag)
      else (case Option.bind ptr (UnknownFieldParse rt tag (get_unknown m)) of
              None \<Rightarrow> Failure m
            | Some (u, q) \<Rightarrow> Continue (set_unknown u m) q))"

text \<open>
  The loop \<open>while (!ctx->Done(&ptr))\<close>.  The result is the message, the final pointer and the value
  \<open>last_tag_minus_1\<close> of the parse context; the outer \<open>None\<close> is a loop that does not end.
\<close>

partial_function (option) parse_loop ::
  "'u pb_runtime \<Rightarrow> ('m \<Rightarrow> uint32 \<Rightarrow> bytes option \<Rightarrow> 'm parse_step) \<Rightarrow> 'm \<Rightarrow> bytes
     \<Rightarrow> ('m \<times> bytes option \<times> uint32) option" where
  "parse_loop rt switch m ptr =
     (if ptr = [] then Some (m, Some [], 0)
      else (case ReadTag rt ptr of (tag, p) \<Rightarrow>
             (case switch m tag p of
                Failure m' \<Rightarrow> Some (m', None, 0)
              | MessageDone m' q t \<Rightarrow> Some (m', Some q, t - 1)
              | Continue m' q \<Rightarrow> parse_loop rt switch m' q)))"

lemma parse_loop_inv:
  assumes ret: "parse_loop rt switch m ptr = Some (m', r)" and init: "P m"
    and fail: "\<And>m t p m'. P m \<Longrightarrow> switch m t p = Failure m' \<Longrightarrow> P m'"
    and finish: "\<And>m t p m' q u. P m \<Longrightarrow> switch m t p = MessageDone m' q u \<Longrightarrow> P m'"
    and cont: "\<And>m t p m' q. P m \<Longrightarrow> switch m t p = Continue m' q \<Longrightarrow> P m'"
  shows "P m'"
proof -
  have "switch = switch \<longrightarrow> P m \<longrightarrow> P (fst (m', r))"
  proof (rule parse_loop.raw_induct
      [where P = "\<lambda>rt' sw m ptr res. sw = switch \<longrightarrow> P m \<longrightarrow> P (fst res)", OF _ ret])
    fix f rt' sw m ptr res
    assume IH: "\<And>rt' sw m ptr res. f rt' sw m ptr = Some res \<Longrightarrow> sw = switch \<longrightarrow> P m \<longrightarrow> P (fst res)"
      and eq: "(if ptr = [] then Some (m, Some [], 0)
        else case ReadTag rt' ptr of (tag, p) \<Rightarrow>
          case sw m tag p of Failure m' \<Rightarrow> Some (m', None, 0)
          | MessageDone m' q t \<Rightarrow> Some (m', Some q, t - 1) | Continue m' q \<Rightarrow> f rt' sw m' q) = Some res"
    show "sw = switch \<longrightarrow> P m \<longrightarrow> P (fst res)"
    proof (intro impI)
      assume sw: "sw = switch" and P: "P m"
      from eq P show "P (fst res)"
        by (auto simp: sw split: if_splits prod.splits parse_step.splits
            intro: fail finish dest: cont IH [rule_format])
    qed
  qed
  with init show ?thesis by simp
qed

text \<open>
  The entry point \<open>MessageLite::ParseFromString\<close>, as documented: the message is cleared, the parser
  runs over the string, and the call succeeds if the parser ended with a pointer and at the limit of
  the input.
\<close>

definition ParseFromString ::
  "('m \<Rightarrow> 'm) \<Rightarrow> ('m \<Rightarrow> bytes \<Rightarrow> ('m \<times> bytes option \<times> uint32) option) \<Rightarrow> 'm \<Rightarrow> bytes
     \<Rightarrow> ('m \<times> bool) option" where
  "ParseFromString clear parse m bs =
     (case parse (clear m) bs of
        None \<Rightarrow> None
      | Some (m', ptr, last_tag_minus_1) \<Rightarrow> Some (m', ptr \<noteq> None \<and> last_tag_minus_1 = 0))"

section \<open>What the generated code relies on\<close>

text \<open>Field numbers up to fifteen have a tag of one byte; a field is shorter than two gigabytes.\<close>

definition field_no :: "nat \<Rightarrow> bool" where
  "field_no n \<longleftrightarrow> 1 \<le> n \<and> n \<le> 15"

definition field_len :: "bytes \<Rightarrow> bool" where
  "field_len s \<longleftrightarrow> length s < 2 ^ 31 - 16"

lemma ucast_scast_int32: "(ucast (scast (v :: int32) :: uint64) :: uint32) = v"
proof (rule bit_word_eqI)
  fix k assume "k < LENGTH(32)"
  then have "min k 31 = k" "k < 64" "k < 32" by simp_all
  then show "bit (ucast (scast v :: uint64) :: uint32) k = bit v k"
    by (simp add: bit_simps)
qed

locale pb_runtime_ok =
  fixes rt :: "'u pb_runtime"
  assumes read_string: "field_no n \<Longrightarrow> field_len s \<Longrightarrow>
      \<exists>p. ReadTag rt (WriteStringMaybeAliased rt n s @ rest) = (word_of_nat (8 * n + 2), Some p)
        \<and> InlineGreedyStringParser rt p = Some (s, rest)"
    and read_bytes: "field_no n \<Longrightarrow> field_len s \<Longrightarrow>
      \<exists>p. ReadTag rt (WriteBytesMaybeAliased rt n s @ rest) = (word_of_nat (8 * n + 2), Some p)
        \<and> InlineGreedyStringParser rt p = Some (s, rest)"
    and read_enum: "field_no n \<Longrightarrow>
      \<exists>p. ReadTag rt (WriteEnumToArray rt n v @ rest) = (word_of_nat (8 * n), Some p)
        \<and> ReadVarint64 rt p = (scast v, Some rest)"
    and read_int32: "field_no n \<Longrightarrow>
      \<exists>p. ReadTag rt (WriteInt32ToArray rt n v @ rest) = (word_of_nat (8 * n), Some p)
        \<and> ReadVarint32 rt p = (v, Some rest)"
    and string_size: "field_no n \<Longrightarrow> length (WriteStringMaybeAliased rt n s) = 1 + StringSize rt s"
    and bytes_size: "field_no n \<Longrightarrow> length (WriteBytesMaybeAliased rt n s) = 1 + BytesSize rt s"
    and enum_size: "field_no n \<Longrightarrow> length (WriteEnumToArray rt n v) = 1 + EnumSize rt v"
    and int32_size: "field_no n \<Longrightarrow> length (WriteInt32ToArray rt n v) = Int32SizePlusOne rt v"
    and int32_size_pos: "0 < Int32SizePlusOne rt v"
    and unknown_size: "length (SerializeUnknown rt u) = UnknownFieldsSize rt u"
    and no_unknown: "\<not> have_unknown_fields rt (unknown_default rt)"
    and merge_default: "MergeUnknown rt (unknown_default rt) u = u"
    and merge_default_right: "MergeUnknown rt u (unknown_default rt) = u"
    and tag_shrinks: "ptr \<noteq> [] \<Longrightarrow> ReadTag rt ptr = (t, Some p) \<Longrightarrow> length p < length ptr"
    and varint32_shrinks: "ReadVarint32 rt p = (v, Some q) \<Longrightarrow> length q \<le> length p"
    and varint64_shrinks: "ReadVarint64 rt p = (w, Some q) \<Longrightarrow> length q \<le> length p"
    and string_shrinks: "InlineGreedyStringParser rt p = Some (s, q) \<Longrightarrow> length q \<le> length p"
    and unknown_shrinks: "UnknownFieldParse rt t u p = Some (u', q) \<Longrightarrow> length q \<le> length p"
begin

lemma field_numbers [simp]: "field_no 1" "field_no (Suc 0)" "field_no 2" "field_no 3"
  by (simp_all add: field_no_def)

lemmas writer_sizes = string_size bytes_size enum_size int32_size unknown_size

text \<open>A field that the switch takes is one pass of the loop.\<close>

lemma loop_field:
  assumes "ReadTag rt (w @ rest) = (t, Some p)" and "w \<noteq> []" and "switch m t (Some p) = Continue m' rest"
  shows "parse_loop rt switch m (w @ rest) = parse_loop rt switch m' rest"
  using assms by (subst parse_loop.simps) simp

lemma loop_end: "parse_loop rt switch m [] = Some (m, Some [], 0)"
  by (subst parse_loop.simps) simp

lemma loop_string:
  assumes "field_no n" "field_len s"
    and "\<And>p. InlineGreedyStringParser rt p = Some (s, rest) \<Longrightarrow>
           switch m (word_of_nat (8 * n + 2)) (Some p) = Continue m' rest"
  shows "parse_loop rt switch m (WriteStringMaybeAliased rt n s @ rest) = parse_loop rt switch m' rest"
  using read_string [OF assms(1,2), of rest] string_size [OF assms(1), of s] assms(3)
  by (metis loop_field list.size(3) add_is_0 one_neq_zero)

lemma loop_bytes:
  assumes "field_no n" "field_len s"
    and "\<And>p. InlineGreedyStringParser rt p = Some (s, rest) \<Longrightarrow>
           switch m (word_of_nat (8 * n + 2)) (Some p) = Continue m' rest"
  shows "parse_loop rt switch m (WriteBytesMaybeAliased rt n s @ rest) = parse_loop rt switch m' rest"
  using read_bytes [OF assms(1,2), of rest] bytes_size [OF assms(1), of s] assms(3)
  by (metis loop_field list.size(3) add_is_0 one_neq_zero)

lemma loop_enum:
  assumes "field_no n"
    and "\<And>p. ReadVarint64 rt p = (scast v, Some rest) \<Longrightarrow>
           switch m (word_of_nat (8 * n)) (Some p) = Continue m' rest"
  shows "parse_loop rt switch m (WriteEnumToArray rt n v @ rest) = parse_loop rt switch m' rest"
  using read_enum [OF assms(1), of v rest] enum_size [OF assms(1), of v] assms(2)
  by (metis loop_field list.size(3) add_is_0 one_neq_zero)

lemma loop_int32:
  assumes "field_no n"
    and "\<And>p. ReadVarint32 rt p = (v, Some rest) \<Longrightarrow>
           switch m (word_of_nat (8 * n)) (Some p) = Continue m' rest"
  shows "parse_loop rt switch m (WriteInt32ToArray rt n v @ rest) = parse_loop rt switch m' rest"
  using read_int32 [OF assms(1), of v rest] int32_size [OF assms(1), of v] int32_size_pos [of v] assms(2)
  by (metis loop_field list.size(3) less_irrefl)

text \<open>
  A switch that never moves the pointer backwards gives a loop that ends on every input: each pass
  reads a tag of at least one byte.
\<close>

lemma loop_returns:
  assumes adv: "\<And>m t p m' q. switch m t p = Continue m' q \<Longrightarrow> \<exists>p'. p = Some p' \<and> length q \<le> length p'"
  shows "\<exists>r. parse_loop rt switch m ptr = Some r"
proof (induction "length ptr" arbitrary: m ptr rule: less_induct)
  case less
  show ?case
  proof (cases "ptr = []")
    case True
    then show ?thesis by (simp add: loop_end)
  next
    case False
    obtain t p where tp: "ReadTag rt ptr = (t, p)" by (cases "ReadTag rt ptr")
    show ?thesis
    proof (cases "switch m t p")
      case (Continue m' q)
      then obtain p' where p': "p = Some p'" "length q \<le> length p'" using adv by blast
      then have "length q < length ptr"
        using tag_shrinks False tp by (metis le_less_trans)
      with less obtain r where "parse_loop rt switch m' q = Some r" by blast
      then show ?thesis
        using False tp Continue by (subst parse_loop.simps) (cases r, simp)
    qed (use False tp in \<open>subst parse_loop.simps, simp\<close>)+
  qed
qed

text \<open>The unusual block does not move the pointer backwards either.\<close>

lemma unusual_advances:
  "handle_unusual rt g s m t p = Continue m' q \<Longrightarrow> \<exists>p'. p = Some p' \<and> length q \<le> length p'"
  by (auto simp: handle_unusual_def bind_eq_Some_conv dest: unknown_shrinks
      split: if_splits option.splits prod.splits)

end

section \<open>A concrete runtime\<close>

text \<open>
  Base-128 varints, least significant group first; a decoder accepts at most a given number of
  bytes.  Unknown fields are kept as the bytes they were read from; the deprecated group encoding
  is rejected.
\<close>

fun varint :: "nat \<Rightarrow> bytes" where
  "varint n = (if n < 128 then [char_of n] else char_of (n mod 128 + 128) # varint (n div 128))"

declare varint.simps [simp del]

fun unvarint :: "nat \<Rightarrow> bytes \<Rightarrow> (nat \<times> bytes) option" where
  "unvarint 0 bs = None"
| "unvarint (Suc k) [] = None"
| "unvarint (Suc k) (c # cs) =
     (let v = of_char c
      in if v < 128 then Some (v, cs)
         else map_option (\<lambda>(w, rest). (v - 128 + 128 * w, rest)) (unvarint k cs))"

text \<open>Well-formed UTF-8: no overlong forms, no surrogates, nothing above U+10FFFF.\<close>

fun utf8_ok :: "nat list \<Rightarrow> bool" where
  "utf8_ok [] = True"
| "utf8_ok (a # bs) =
     (if a < 0x80 then utf8_ok bs
      else case bs of
        [] \<Rightarrow> False
      | b # cs \<Rightarrow>
          if 0xC2 \<le> a \<and> a < 0xE0 then 0x80 \<le> b \<and> b < 0xC0 \<and> utf8_ok cs
          else (case cs of
            [] \<Rightarrow> False
          | c # ds \<Rightarrow>
              if 0xE0 \<le> a \<and> a < 0xF0
              then (if a = 0xE0 then 0xA0 else 0x80) \<le> b \<and> b < (if a = 0xED then 0xA0 else 0xC0)
                   \<and> 0x80 \<le> c \<and> c < 0xC0 \<and> utf8_ok ds
              else (case ds of
                [] \<Rightarrow> False
              | d # es \<Rightarrow>
                  0xF0 \<le> a \<and> a < 0xF5 \<and> (if a = 0xF0 then 0x90 else 0x80) \<le> b
                  \<and> b < (if a = 0xF4 then 0x90 else 0xC0)
                  \<and> 0x80 \<le> c \<and> c < 0xC0 \<and> 0x80 \<le> d \<and> d < 0xC0 \<and> utf8_ok es)))"

definition read_delimited :: "bytes \<Rightarrow> (bytes \<times> bytes) option" where
  "read_delimited p =
     (case unvarint 5 p of
        None \<Rightarrow> None
      | Some (n, q) \<Rightarrow> if n < 2 ^ 31 - 16 \<and> n \<le> length q then Some (take n q, drop n q) else None)"

definition skip_field :: "uint32 \<Rightarrow> bytes \<Rightarrow> bytes option" where
  "skip_field tag p =
     (if tag AND 7 = 0 then map_option snd (unvarint 10 p)
      else if tag AND 7 = 1 then (if 8 \<le> length p then Some (drop 8 p) else None)
      else if tag AND 7 = 2 then map_option snd (read_delimited p)
      else if tag AND 7 = 5 then (if 4 \<le> length p then Some (drop 4 p) else None)
      else None)"

definition varint_runtime :: "bytes pb_runtime" where
  "varint_runtime =
     \<lparr>ReadTag = (\<lambda>p. case unvarint 5 p of None \<Rightarrow> (0, None) | Some (n, q) \<Rightarrow> (word_of_nat n, Some q)),
      ReadVarint32 = (\<lambda>p. case unvarint 10 p of None \<Rightarrow> (0, None) | Some (n, q) \<Rightarrow> (word_of_nat n, Some q)),
      ReadVarint64 = (\<lambda>p. case unvarint 10 p of None \<Rightarrow> (0, None) | Some (n, q) \<Rightarrow> (word_of_nat n, Some q)),
      InlineGreedyStringParser = read_delimited,
      VerifyUTF8 = (\<lambda>s. utf8_ok (map of_char s)),
      UnknownFieldParse = (\<lambda>tag u p. case skip_field tag p of
          None \<Rightarrow> None
        | Some q \<Rightarrow> Some (u @ varint (unat tag) @ take (length p - length q) p, q)),
      WriteStringMaybeAliased = (\<lambda>n s. varint (8 * n + 2) @ varint (length s) @ s),
      WriteBytesMaybeAliased = (\<lambda>n s. varint (8 * n + 2) @ varint (length s) @ s),
      WriteEnumToArray = (\<lambda>n v. varint (8 * n) @ varint (unat (scast v :: uint64))),
      WriteInt32ToArray = (\<lambda>n v. varint (8 * n) @ varint (unat (scast v :: uint64))),
      StringSize = (\<lambda>s. length (varint (length s)) + length s),
      BytesSize = (\<lambda>s. length (varint (length s)) + length s),
      EnumSize = (\<lambda>v. length (varint (unat (scast v :: uint64)))),
      Int32SizePlusOne = (\<lambda>v. 1 + length (varint (unat (scast v :: uint64)))),
      unknown_default = [],
      have_unknown_fields = (\<lambda>u. u \<noteq> []),
      MergeUnknown = (\<lambda>u v. u @ v),
      SerializeUnknown = (\<lambda>u. u),
      UnknownFieldsSize = length\<rparr>"

lemma unvarint_varint: "n < 128 ^ k \<Longrightarrow> 0 < k \<Longrightarrow> unvarint k (varint n @ rest) = Some (n, rest)"
proof (induction k arbitrary: n)
  case 0
  then show ?case by simp
next
  case (Suc k)
  show ?case
  proof (cases "n < 128")
    case True
    then show ?thesis by (subst varint.simps) simp
  next
    case False
    have "n div 128 < 128 ^ k"
      using Suc.prems by (simp add: less_mult_imp_div_less mult.commute)
    moreover from this False have "0 < k"
      by (cases k) auto
    ultimately have IH: "unvarint k (varint (n div 128) @ rest) = Some (n div 128, rest)"
      by (rule Suc.IH)
    have "n mod 128 + 128 < 256" by simp
    then have v: "of_char (char_of (n mod 128 + 128) :: char) = n mod 128 + 128"
      by simp
    show ?thesis
      using False IH v by (subst varint.simps) (simp add: Let_def)
  qed
qed

lemma unvarint_shrinks: "unvarint k bs = Some (n, q) \<Longrightarrow> length q < length bs"
proof (induction k bs arbitrary: n q rule: unvarint.induct)
  case (3 k c cs)
  then show ?case
    by (fastforce simp: Let_def split: if_splits dest: less_SucI)
qed simp_all

lemma length_varint_small: "n < 128 \<Longrightarrow> length (varint n) = 1"
  by (subst varint.simps) simp

lemma length_varint: "n < 128 ^ k \<Longrightarrow> 0 < k \<Longrightarrow> length (varint n) \<le> k"
proof (induction k arbitrary: n)
  case (Suc k)
  show ?case
  proof (cases "n < 128")
    case True
    then show ?thesis by (simp add: varint.simps)
  next
    case False
    with Suc.prems have "0 < k" by (cases k) auto
    moreover have "n div 128 < 128 ^ k" using Suc.prems(1) by (simp add: less_mult_imp_div_less)
    ultimately have "length (varint (n div 128)) \<le> k" by (intro Suc.IH)
    with False show ?thesis by (subst varint.simps) simp
  qed
qed simp

lemma length_varint64: "length (varint (unat (w :: uint64))) \<le> 10"
proof -
  have "unat w < 2 ^ 64" using unat_bound [of w] by simp
  then have "unat w < 128 ^ 10" by simp
  from length_varint [OF this] show ?thesis by simp
qed

lemma varint_nonempty [simp]: "varint n \<noteq> []"
  by (subst varint.simps) simp

lemma read_delimited_written:
  assumes "field_len s"
  shows "read_delimited (varint (length s) @ s @ rest) = Some (s, rest)"
proof -
  have "length s < 128 ^ 5" using assms by (simp add: field_len_def)
  then show ?thesis
    using assms by (simp add: read_delimited_def unvarint_varint field_len_def)
qed

lemma read_delimited_shrinks: "read_delimited p = Some (s, q) \<Longrightarrow> length q \<le> length p"
  by (fastforce simp: read_delimited_def split: option.splits if_splits dest: unvarint_shrinks)

lemma skip_field_shrinks: "skip_field t p = Some q \<Longrightarrow> length q \<le> length p"
  by (auto simp: skip_field_def split: if_splits dest: unvarint_shrinks read_delimited_shrinks)

lemma unvarint_int32:
  "unvarint 10 (varint (unat (scast (v :: int32) :: uint64)) @ rest)
     = Some (unat (scast v :: uint64), rest)"
proof (rule unvarint_varint)
  have "unat (scast v :: uint64) < 2 ^ 64"
    using unat_bound [of "scast v :: uint64"] by simp
  also have "\<dots> < 128 ^ 10" by simp
  finally show "unat (scast v :: uint64) < 128 ^ 10" .
qed simp

lemma unvarint_tag: "n \<le> 127 \<Longrightarrow> unvarint 5 (varint n @ rest) = Some (n, rest)"
  by (rule unvarint_varint) simp_all

interpretation vrt: pb_runtime_ok varint_runtime
proof
  fix n s rest
  assume "field_no n" "field_len s"
  then have "unvarint 5 (varint (8 * n + 2) @ varint (length s) @ s @ rest)
      = Some (8 * n + 2, varint (length s) @ s @ rest)"
    and "read_delimited (varint (length s) @ s @ rest) = Some (s, rest)"
    by (auto intro: unvarint_tag read_delimited_written simp: field_no_def)
  then show "\<exists>p. ReadTag varint_runtime (WriteStringMaybeAliased varint_runtime n s @ rest)
        = (word_of_nat (8 * n + 2), Some p)
      \<and> InlineGreedyStringParser varint_runtime p = Some (s, rest)"
    and "\<exists>p. ReadTag varint_runtime (WriteBytesMaybeAliased varint_runtime n s @ rest)
        = (word_of_nat (8 * n + 2), Some p)
      \<and> InlineGreedyStringParser varint_runtime p = Some (s, rest)"
    by (auto simp: varint_runtime_def simp del: of_nat_add of_nat_mult)
next
  fix n rest and v :: int32
  assume "field_no n"
  then have tag: "unvarint 5 (varint (8 * n) @ varint (unat (scast v :: uint64)) @ rest)
      = Some (8 * n, varint (unat (scast v :: uint64)) @ rest)"
    by (intro unvarint_tag) (simp add: field_no_def)
  then show "\<exists>p. ReadTag varint_runtime (WriteEnumToArray varint_runtime n v @ rest)
        = (word_of_nat (8 * n), Some p)
      \<and> ReadVarint64 varint_runtime p = (scast v, Some rest)"
    by (auto simp: varint_runtime_def unvarint_int32 simp del: of_nat_mult)
  from tag show "\<exists>p. ReadTag varint_runtime (WriteInt32ToArray varint_runtime n v @ rest)
        = (word_of_nat (8 * n), Some p)
      \<and> ReadVarint32 varint_runtime p = (v, Some rest)"
    by (auto simp: varint_runtime_def unvarint_int32 ucast_scast_int32 simp del: of_nat_mult)
next
  fix ptr p and t :: uint32
  assume "ReadTag varint_runtime ptr = (t, Some p)"
  then show "length p < length ptr"
    by (auto simp: varint_runtime_def dest: unvarint_shrinks split: option.splits)
next
  fix t u p u' q
  assume "UnknownFieldParse varint_runtime t u p = Some (u', q)"
  then show "length q \<le> length p"
    by (auto simp: varint_runtime_def dest: skip_field_shrinks split: option.splits)
qed (auto simp: varint_runtime_def field_no_def length_varint_small
      dest: unvarint_shrinks read_delimited_shrinks less_imp_le split: option.splits)

end
