(* ===== verification/Rpc_Header.thy ===== *)
theory Rpc_Header
  imports Pb_Runtime
begin

text \<open>
  The messages \<open>RpcRequest\<close> and \<open>RpcResponse\<close> of \<^verbatim>\<open>src/rpc/rpc_header.pb.h\<close> and
  \<^verbatim>\<open>src/rpc/rpc_header.pb.cc\<close>: their fields, accessors and the generated operations (clear, parse,
  serialize, size, merge, copy, swap), over the protobuf runtime as a parameter.  The cached size, a
  memo of \<open>ByteSizeLong\<close>, and the arena that owns a message are not part of the records; where the
  code asks whether two messages share an arena or are the same object, the answer is an argument.
\<close>

section \<open>RpcRequest\<close>

record 'u RpcRequest =
  service_name :: bytes
  method_name :: bytes
  args :: bytes
  req_unknown :: 'u

definition RpcRequest_default :: "'u pb_runtime \<Rightarrow> 'u RpcRequest" where
  "RpcRequest_default rt =
     \<lparr>service_name = [], method_name = [], args = [], req_unknown = unknown_default rt\<rparr>"

definition set_service_name :: "bytes \<Rightarrow> 'u RpcRequest \<Rightarrow> 'u RpcRequest" where
  "set_service_name v m = m\<lparr>service_name := v\<rparr>"

definition clear_service_name :: "'u RpcRequest \<Rightarrow> 'u RpcRequest" where
  "clear_service_name m = m\<lparr>service_name := []\<rparr>"

definition set_allocated_service_name :: "bytes option \<Rightarrow> 'u RpcRequest \<Rightarrow> 'u RpcRequest" where
  "set_allocated_service_name p m = m\<lparr>service_name := (case p of None \<Rightarrow> [] | Some s \<Rightarrow> s)\<rparr>"

definition set_method_name :: "bytes \<Rightarrow> 'u RpcRequest \<Rightarrow> 'u RpcRequest" where
  "set_method_name v m = m\<lparr>method_name := v\<rparr>"

definition clear_method_name :: "'u RpcRequest \<Rightarrow> 'u RpcRequest" where
  "clear_method_name m = m\<lparr>method_name := []\<rparr>"

definition set_allocated_method_name :: "bytes option \<Rightarrow> 'u RpcRequest \<Rightarrow> 'u RpcRequest" where
  "set_allocated_method_name p m = m\<lparr>method_name := (case p of None \<Rightarrow> [] | Some s \<Rightarrow> s)\<rparr>"

definition set_args :: "bytes \<Rightarrow> 'u RpcRequest \<Rightarrow> 'u RpcRequest" where
  "set_args v m = m\<lparr>args := v\<rparr>"

definition clear_args :: "'u RpcRequest \<Rightarrow> 'u RpcRequest" where
  "clear_args m = m\<lparr>args := []\<rparr>"

definition set_allocated_args :: "bytes option \<Rightarrow> 'u RpcRequest \<Rightarrow> 'u RpcRequest" where
  "set_allocated_args p m = m\<lparr>args := (case p of None \<Rightarrow> [] | Some s \<Rightarrow> s)\<rparr>"

text \<open>The copy constructor: empty strings stay the default.\<close>

definition RpcRequest_copy :: "'u pb_runtime \<Rightarrow> 'u RpcRequest \<Rightarrow> 'u RpcRequest" where
  "RpcRequest_copy rt from =
     (let m0 = (RpcRequest_default rt)
                 \<lparr>req_unknown := MergeUnknown rt (unknown_default rt) (req_unknown from)\<rparr>;
          m1 = (if service_name from \<noteq> [] then m0\<lparr>service_name := service_name from\<rparr> else m0);
          m2 = (if method_name from \<noteq> [] then m1\<lparr>method_name := method_name from\<rparr> else m1)
      in if args from \<noteq> [] then m2\<lparr>args := args from\<rparr> else m2)"

definition RpcRequest_Clear :: "'u pb_runtime \<Rightarrow> 'u RpcRequest \<Rightarrow> 'u RpcRequest" where
  "RpcRequest_Clear rt m =
     m\<lparr>service_name := [], method_name := [], args := [], req_unknown := unknown_default rt\<rparr>"

text \<open>The switch of \<open>RpcRequest::_InternalParse\<close>, and the loop around it.\<close>

definition RpcRequest_switch ::
  "'u pb_runtime \<Rightarrow> 'u RpcRequest \<Rightarrow> uint32 \<Rightarrow> bytes option \<Rightarrow> 'u RpcRequest parse_step" where
  "RpcRequest_switch rt m tag ptr =
     (if drop_bit 3 tag = 1 \<and> (ucast tag :: uint8) = 10 then
        (case Option.bind ptr (InlineGreedyStringParser rt) of
           None \<Rightarrow> Failure m
         | Some (str, q) \<Rightarrow>
             (let m' = m\<lparr>service_name := str\<rparr>
              in if VerifyUTF8 rt str then Continue m' q else Failure m'))
      else if drop_bit 3 tag = 2 \<and> (ucast tag :: uint8) = 18 then
        (case Option.bind ptr (InlineGreedyStringParser rt) of
           None \<Rightarrow> Failure m
         | Some (str, q) \<Rightarrow>
             (let m' = m\<lparr>method_name := str\<rparr>
              in if VerifyUTF8 rt str then Continue m' q else Failure m'))
      else if drop_bit 3 tag = 3 \<and> (ucast tag :: uint8) = 26 then
        (case Option.bind ptr (InlineGreedyStringParser rt) of
           None \<Rightarrow> Failure m
         | Some (str, q) \<Rightarrow> Continue (m\<lparr>args := str\<rparr>) q)
      else handle_unusual rt req_unknown (\<lambda>u. req_unknown_update (\<lambda>_. u)) m tag ptr)"

definition RpcRequest_InternalParse ::
  "'u pb_runtime \<Rightarrow> 'u RpcRequest \<Rightarrow> bytes \<Rightarrow> ('u RpcRequest \<times> bytes option \<times> uint32) option" where
  "RpcRequest_InternalParse rt m ptr = parse_loop rt (RpcRequest_switch rt) m ptr"

definition RpcRequest_InternalSerialize :: "'u pb_runtime \<Rightarrow> 'u RpcRequest \<Rightarrow> bytes" where
  "RpcRequest_InternalSerialize rt m =
     (if service_name m \<noteq> [] then WriteStringMaybeAliased rt 1 (service_name m) else [])
     @ (if method_name m \<noteq> [] then WriteStringMaybeAliased rt 2 (method_name m) else [])
     @ (if args m \<noteq> [] then WriteBytesMaybeAliased rt 3 (args m) else [])
     @ (if have_unknown_fields rt (req_unknown m) then SerializeUnknown rt (req_unknown m) else [])"

definition RpcRequest_ByteSizeLong :: "'u pb_runtime \<Rightarrow> 'u RpcRequest \<Rightarrow> nat" where
  "RpcRequest_ByteSizeLong rt m =
     (let s0 = 0;
          s1 = (if service_name m \<noteq> [] then s0 + (1 + StringSize rt (service_name m)) else s0);
          s2 = (if method_name m \<noteq> [] then s1 + (1 + StringSize rt (method_name m)) else s1);
          s3 = (if args m \<noteq> [] then s2 + (1 + BytesSize rt (args m)) else s2)
      in if have_unknown_fields rt (req_unknown m)
         then s3 + UnknownFieldsSize rt (req_unknown m) else s3)"

definition RpcRequest_MergeImpl ::
  "'u pb_runtime \<Rightarrow> 'u RpcRequest \<Rightarrow> 'u RpcRequest \<Rightarrow> 'u RpcRequest" where
  "RpcRequest_MergeImpl rt to from =
     (let m1 = (if service_name from \<noteq> [] then to\<lparr>service_name := service_name from\<rparr> else to);
          m2 = (if method_name from \<noteq> [] then m1\<lparr>method_name := method_name from\<rparr> else m1);
          m3 = (if args from \<noteq> [] then m2\<lparr>args := args from\<rparr> else m2)
      in m3\<lparr>req_unknown := MergeUnknown rt (req_unknown m3) (req_unknown from)\<rparr>)"

definition RpcRequest_CopyFrom ::
  "'u pb_runtime \<Rightarrow> bool \<Rightarrow> 'u RpcRequest \<Rightarrow> 'u RpcRequest \<Rightarrow> 'u RpcRequest" where
  "RpcRequest_CopyFrom rt same_object this from =
     (if same_object then this else RpcRequest_MergeImpl rt (RpcRequest_Clear rt this) from)"

definition RpcRequest_InternalSwap ::
  "'u RpcRequest \<Rightarrow> 'u RpcRequest \<Rightarrow> 'u RpcRequest \<times> 'u RpcRequest" where
  "RpcRequest_InternalSwap this other =
     (this\<lparr>req_unknown := req_unknown other, service_name := service_name other,
           method_name := method_name other, args := args other\<rparr>,
      other\<lparr>req_unknown := req_unknown this, service_name := service_name this,
            method_name := method_name this, args := args this\<rparr>)"

text \<open>Move assignment: the state of both objects afterwards.\<close>

definition RpcRequest_move_assign ::
  "'u pb_runtime \<Rightarrow> bool \<Rightarrow> bool \<Rightarrow> 'u RpcRequest \<Rightarrow> 'u RpcRequest \<Rightarrow> 'u RpcRequest \<times> 'u RpcRequest" where
  "RpcRequest_move_assign rt same_object same_arena this from =
     (if same_object then (this, from)
      else if same_arena then RpcRequest_InternalSwap this from
      else (RpcRequest_CopyFrom rt False this from, from))"

definition RpcRequest_IsInitialized :: "'u RpcRequest \<Rightarrow> bool" where
  "RpcRequest_IsInitialized m = True"

section \<open>RpcResponse\<close>

text \<open>The enumeration is open: the field holds any \<open>int\<close>.\<close>

definition NO_ERROR :: int32 where "NO_ERROR = 0"
definition WRONG_PROTO :: int32 where "WRONG_PROTO = 1"
definition NO_SERVICE :: int32 where "NO_SERVICE = 2"
definition NO_METHOD :: int32 where "NO_METHOD = 3"
definition INVALID_ARGUMENT :: int32 where "INVALID_ARGUMENT = 4"
definition INTERNAL_ERROR :: int32 where "INTERNAL_ERROR = 5"

lemmas error_code_defs =
  NO_ERROR_def WRONG_PROTO_def NO_SERVICE_def NO_METHOD_def INVALID_ARGUMENT_def INTERNAL_ERROR_def

definition RpcResponse_ErrorCode_IsValid :: "int32 \<Rightarrow> bool" where
  "RpcResponse_ErrorCode_IsValid v \<longleftrightarrow> v = 0 \<or> v = 1 \<or> v = 2 \<or> v = 3 \<or> v = 4 \<or> v = 5"

record 'u RpcResponse =
  error_msg :: bytes
  result :: bytes
  error_code :: int32
  rsp_unknown :: 'u

definition RpcResponse_default :: "'u pb_runtime \<Rightarrow> 'u RpcResponse" where
  "RpcResponse_default rt =
     \<lparr>error_msg = [], result = [], error_code = 0, rsp_unknown = unknown_default rt\<rparr>"

definition set_error_code :: "int32 \<Rightarrow> 'u RpcResponse \<Rightarrow> 'u RpcResponse" where
  "set_error_code v m = m\<lparr>error_code := v\<rparr>"

definition clear_error_code :: "'u RpcResponse \<Rightarrow> 'u RpcResponse" where
  "clear_error_code m = m\<lparr>error_code := 0\<rparr>"

definition set_error_msg :: "bytes \<Rightarrow> 'u RpcResponse \<Rightarrow> 'u RpcResponse" where
  "set_error_msg v m = m\<lparr>error_msg := v\<rparr>"

definition clear_error_msg :: "'u RpcResponse \<Rightarrow> 'u RpcResponse" where
  "clear_error_msg m = m\<lparr>error_msg := []\<rparr>"

definition set_allocated_error_msg :: "bytes option \<Rightarrow> 'u RpcResponse \<Rightarrow> 'u RpcResponse" where
  "set_allocated_error_msg p m = m\<lparr>error_msg := (case p of None \<Rightarrow> [] | Some s \<Rightarrow> s)\<rparr>"

definition set_result :: "bytes \<Rightarrow> 'u RpcResponse \<Rightarrow> 'u RpcResponse" where
  "set_result v m = m\<lparr>result := v\<rparr>"

definition clear_result :: "'u RpcResponse \<Rightarrow> 'u RpcResponse" where
  "clear_result m = m\<lparr>result := []\<rparr>"

definition set_allocated_result :: "bytes option \<Rightarrow> 'u RpcResponse \<Rightarrow> 'u RpcResponse" where
  "set_allocated_result p m = m\<lparr>result := (case p of None \<Rightarrow> [] | Some s \<Rightarrow> s)\<rparr>"

definition RpcResponse_copy :: "'u pb_runtime \<Rightarrow> 'u RpcResponse \<Rightarrow> 'u RpcResponse" where
  "RpcResponse_copy rt from =
     (let m0 = (RpcResponse_default rt)
                 \<lparr>rsp_unknown := MergeUnknown rt (unknown_default rt) (rsp_unknown from)\<rparr>;
          m1 = (if error_msg from \<noteq> [] then m0\<lparr>error_msg := error_msg from\<rparr> else m0);
          m2 = (if result from \<noteq> [] then m1\<lparr>result := result from\<rparr> else m1)
      in m2\<lparr>error_code := error_code from\<rparr>)"

definition RpcResponse_Clear :: "'u pb_runtime \<Rightarrow> 'u RpcResponse \<Rightarrow> 'u RpcResponse" where
  "RpcResponse_Clear rt m =
     m\<lparr>error_msg := [], result := [], error_code := 0, rsp_unknown := unknown_default rt\<rparr>"

definition RpcResponse_switch ::
  "'u pb_runtime \<Rightarrow> 'u RpcResponse \<Rightarrow> uint32 \<Rightarrow> bytes option \<Rightarrow> 'u RpcResponse parse_step" where
  "RpcResponse_switch rt m tag ptr =
     (if drop_bit 3 tag = 1 \<and> (ucast tag :: uint8) = 8 then
        (case ptr of
           None \<Rightarrow> Failure m
         | Some p \<Rightarrow>
             (case ReadVarint64 rt p of
                (val, None) \<Rightarrow> Failure m
              | (val, Some q) \<Rightarrow> Continue (m\<lparr>error_code := ucast val\<rparr>) q))
      else if drop_bit 3 tag = 2 \<and> (ucast tag :: uint8) = 18 then
        (case Option.bind ptr (InlineGreedyStringParser rt) of
           None \<Rightarrow> Failure m
         | Some (str, q) \<Rightarrow>
             (let m' = m\<lparr>error_msg := str\<rparr>
              in if VerifyUTF8 rt str then Continue m' q else Failure m'))
      else if drop_bit 3 tag = 3 \<and> (ucast tag :: uint8) = 26 then
        (case Option.bind ptr (InlineGreedyStringParser rt) of
           None \<Rightarrow> Failure m
         | Some (str, q) \<Rightarrow> Continue (m\<lparr>result := str\<rparr>) q)
      else handle_unusual rt rsp_unknown (\<lambda>u. rsp_unknown_update (\<lambda>_. u)) m tag ptr)"

definition RpcResponse_InternalParse ::
  "'u pb_runtime \<Rightarrow> 'u RpcResponse \<Rightarrow> bytes \<Rightarrow> ('u RpcResponse \<times> bytes option \<times> uint32) option" where
  "RpcResponse_InternalParse rt m ptr = parse_loop rt (RpcResponse_switch rt) m ptr"

definition RpcResponse_InternalSerialize :: "'u pb_runtime \<Rightarrow> 'u RpcResponse \<Rightarrow> bytes" where
  "RpcResponse_InternalSerialize rt m =
     (if error_code m \<noteq> 0 then WriteEnumToArray rt 1 (error_code m) else [])
     @ (if error_msg m \<noteq> [] then WriteStringMaybeAliased rt 2 (error_msg m) else [])
     @ (if result m \<noteq> [] then WriteBytesMaybeAliased rt 3 (result m) else [])
     @ (if have_unknown_fields rt (rsp_unknown m) then SerializeUnknown rt (rsp_unknown m) else [])"

definition RpcResponse_ByteSizeLong :: "'u pb_runtime \<Rightarrow> 'u RpcResponse \<Rightarrow> nat" where
  "RpcResponse_ByteSizeLong rt m =
     (let s0 = 0;
          s1 = (if error_msg m \<noteq> [] then s0 + (1 + StringSize rt (error_msg m)) else s0);
          s2 = (if result m \<noteq> [] then s1 + (1 + BytesSize rt (result m)) else s1);
          s3 = (if error_code m \<noteq> 0 then s2 + (1 + EnumSize rt (error_code m)) else s2)
      in if have_unknown_fields rt (rsp_unknown m)
         then s3 + UnknownFieldsSize rt (rsp_unknown m) else s3)"

definition RpcResponse_MergeImpl ::
  "'u pb_runtime \<Rightarrow> 'u RpcResponse \<Rightarrow> 'u RpcResponse \<Rightarrow> 'u RpcResponse" where
  "RpcResponse_MergeImpl rt to from =
     (let m1 = (if error_msg from \<noteq> [] then to\<lparr>error_msg := error_msg from\<rparr> else to);
          m2 = (if result from \<noteq> [] then m1\<lparr>result := result from\<rparr> else m1);
          m3 = (if error_code from \<noteq> 0 then m2\<lparr>error_code := error_code from\<rparr> else m2)
      in m3\<lparr>rsp_unknown := MergeUnknown rt (rsp_unknown m3) (rsp_unknown from)\<rparr>)"

definition RpcResponse_CopyFrom ::
  "'u pb_runtime \<Rightarrow> bool \<Rightarrow> 'u RpcResponse \<Rightarrow> 'u RpcResponse \<Rightarrow> 'u RpcResponse" where
  "RpcResponse_CopyFrom rt same_object this from =
     (if same_object then this else RpcResponse_MergeImpl rt (RpcResponse_Clear rt this) from)"

definition RpcResponse_InternalSwap ::
  "'u RpcResponse \<Rightarrow> 'u RpcResponse \<Rightarrow> 'u RpcResponse \<times> 'u RpcResponse" where
  "RpcResponse_InternalSwap this other =
     (this\<lparr>rsp_unknown := rsp_unknown other, error_msg := error_msg other,
           result := result other, error_code := error_code other\<rparr>,
      other\<lparr>rsp_unknown := rsp_unknown this, error_msg := error_msg this,
            result := result this, error_code := error_code this\<rparr>)"

definition RpcResponse_move_assign ::
  "'u pb_runtime \<Rightarrow> bool \<Rightarrow> bool \<Rightarrow> 'u RpcResponse \<Rightarrow> 'u RpcResponse \<Rightarrow> 'u RpcResponse \<times> 'u RpcResponse" where
  "RpcResponse_move_assign rt same_object same_arena this from =
     (if same_object then (this, from)
      else if same_arena then RpcResponse_InternalSwap this from
      else (RpcResponse_CopyFrom rt False this from, from))"

definition RpcResponse_IsInitialized :: "'u RpcResponse \<Rightarrow> bool" where
  "RpcResponse_IsInitialized m = True"

section \<open>Correctness of the generated operations\<close>

text \<open>The messages the generated parser accepts back: valid UTF-8 names, no unknown fields.\<close>

definition RpcRequest_wf :: "'u pb_runtime \<Rightarrow> 'u RpcRequest \<Rightarrow> bool" where
  "RpcRequest_wf rt m \<longleftrightarrow>
     field_len (service_name m) \<and> field_len (method_name m) \<and> field_len (args m)
     \<and> VerifyUTF8 rt (service_name m) \<and> VerifyUTF8 rt (method_name m)
     \<and> req_unknown m = unknown_default rt"

definition RpcResponse_wf :: "'u pb_runtime \<Rightarrow> 'u RpcResponse \<Rightarrow> bool" where
  "RpcResponse_wf rt m \<longleftrightarrow>
     field_len (error_msg m) \<and> field_len (result m) \<and> VerifyUTF8 rt (error_msg m)
     \<and> rsp_unknown m = unknown_default rt"

definition RpcRequest_ParseFromString ::
  "'u pb_runtime \<Rightarrow> 'u RpcRequest \<Rightarrow> bytes \<Rightarrow> ('u RpcRequest \<times> bool) option" where
  "RpcRequest_ParseFromString rt =
     ParseFromString (RpcRequest_Clear rt) (RpcRequest_InternalParse rt)"

definition RpcResponse_ParseFromString ::
  "'u pb_runtime \<Rightarrow> 'u RpcResponse \<Rightarrow> bytes \<Rightarrow> ('u RpcResponse \<times> bool) option" where
  "RpcResponse_ParseFromString rt =
     ParseFromString (RpcResponse_Clear rt) (RpcResponse_InternalParse rt)"

context pb_runtime_ok
begin

text \<open>Parsing what a message serializes to, in front of anything, merges the message.\<close>

lemma request_parse_merges:
  assumes wf: "RpcRequest_wf rt m"
  shows "parse_loop rt (RpcRequest_switch rt) m0 (RpcRequest_InternalSerialize rt m @ rest)
       = parse_loop rt (RpcRequest_switch rt) (RpcRequest_MergeImpl rt m0 m) rest"
proof -
  let ?loop = "parse_loop rt (RpcRequest_switch rt)"
  have s: "?loop n ((if service_name m \<noteq> [] then WriteStringMaybeAliased rt 1 (service_name m) else []) @ xs)
      = ?loop (if service_name m \<noteq> [] then n\<lparr>service_name := service_name m\<rparr> else n) xs" for n xs
    using wf by (auto intro!: loop_string simp: RpcRequest_wf_def RpcRequest_switch_def)
  have t: "?loop n ((if method_name m \<noteq> [] then WriteStringMaybeAliased rt 2 (method_name m) else []) @ xs)
      = ?loop (if method_name m \<noteq> [] then n\<lparr>method_name := method_name m\<rparr> else n) xs" for n xs
    using wf by (auto intro!: loop_string simp: RpcRequest_wf_def RpcRequest_switch_def)
  have a: "?loop n ((if args m \<noteq> [] then WriteBytesMaybeAliased rt 3 (args m) else []) @ xs)
      = ?loop (if args m \<noteq> [] then n\<lparr>args := args m\<rparr> else n) xs" for n xs
    using wf by (auto intro!: loop_bytes simp: RpcRequest_wf_def RpcRequest_switch_def)
  have u: "req_unknown m = unknown_default rt" using wf by (simp add: RpcRequest_wf_def)
  show ?thesis
    by (simp only: RpcRequest_InternalSerialize_def append_assoc s t a)
      (simp add: u no_unknown RpcRequest_MergeImpl_def merge_default_right Let_def)
qed

lemma response_parse_merges:
  assumes wf: "RpcResponse_wf rt m"
  shows "parse_loop rt (RpcResponse_switch rt) m0 (RpcResponse_InternalSerialize rt m @ rest)
       = parse_loop rt (RpcResponse_switch rt) (RpcResponse_MergeImpl rt m0 m) rest"
proof -
  let ?loop = "parse_loop rt (RpcResponse_switch rt)"
  have c: "?loop n ((if error_code m \<noteq> 0 then WriteEnumToArray rt 1 (error_code m) else []) @ xs)
      = ?loop (if error_code m \<noteq> 0 then n\<lparr>error_code := error_code m\<rparr> else n) xs" for n xs
    by (auto intro!: loop_enum simp: RpcResponse_switch_def ucast_scast_int32)
  have e: "?loop n ((if error_msg m \<noteq> [] then WriteStringMaybeAliased rt 2 (error_msg m) else []) @ xs)
      = ?loop (if error_msg m \<noteq> [] then n\<lparr>error_msg := error_msg m\<rparr> else n) xs" for n xs
    using wf by (auto intro!: loop_string simp: RpcResponse_wf_def RpcResponse_switch_def)
  have r: "?loop n ((if result m \<noteq> [] then WriteBytesMaybeAliased rt 3 (result m) else []) @ xs)
      = ?loop (if result m \<noteq> [] then n\<lparr>result := result m\<rparr> else n) xs" for n xs
    using wf by (auto intro!: loop_bytes simp: RpcResponse_wf_def RpcResponse_switch_def)
  have u: "rsp_unknown m = unknown_default rt" using wf by (simp add: RpcResponse_wf_def)
  show ?thesis
    by (simp only: RpcResponse_InternalSerialize_def append_assoc c e r)
      (cases m0, simp add: u no_unknown RpcResponse_MergeImpl_def merge_default_right Let_def)
qed

lemma request_merge_clear: "RpcRequest_MergeImpl rt (RpcRequest_Clear rt m0) m = m"
  by (simp add: RpcRequest_MergeImpl_def RpcRequest_Clear_def merge_default Let_def)

lemma response_merge_clear: "RpcResponse_MergeImpl rt (RpcResponse_Clear rt m0) m = m"
  by (simp add: RpcResponse_MergeImpl_def RpcResponse_Clear_def merge_default Let_def)

lemma request_reads_back:
  "RpcRequest_wf rt m \<Longrightarrow>
   RpcRequest_ParseFromString rt m0 (RpcRequest_InternalSerialize rt m) = Some (m, True)"
  using request_parse_merges [of m "RpcRequest_Clear rt m0" "[]"]
  by (simp add: RpcRequest_ParseFromString_def ParseFromString_def RpcRequest_InternalParse_def
      request_merge_clear loop_end)

lemma response_reads_back:
  "RpcResponse_wf rt m \<Longrightarrow>
   RpcResponse_ParseFromString rt m0 (RpcResponse_InternalSerialize rt m) = Some (m, True)"
  using response_parse_merges [of m "RpcResponse_Clear rt m0" "[]"]
  by (simp add: RpcResponse_ParseFromString_def ParseFromString_def RpcResponse_InternalParse_def
      response_merge_clear loop_end)

lemma request_switch_advances:
  "RpcRequest_switch rt m t p = Continue m' q \<Longrightarrow> \<exists>p'. p = Some p' \<and> length q \<le> length p'"
  by (auto simp: RpcRequest_switch_def Let_def bind_eq_Some_conv
      dest: string_shrinks unusual_advances split: if_splits option.splits prod.splits)

lemma response_switch_advances:
  "RpcResponse_switch rt m t p = Continue m' q \<Longrightarrow> \<exists>p'. p = Some p' \<and> length q \<le> length p'"
  by (auto simp: RpcResponse_switch_def Let_def bind_eq_Some_conv
      dest: string_shrinks varint64_shrinks unusual_advances split: if_splits option.splits prod.splits)

lemma request_parse_returns: "\<exists>r. RpcRequest_ParseFromString rt m0 bs = Some r"
  using loop_returns [OF request_switch_advances]
  by (fastforce simp: RpcRequest_ParseFromString_def ParseFromString_def RpcRequest_InternalParse_def
      split: option.splits)

lemma response_parse_returns: "\<exists>r. RpcResponse_ParseFromString rt m0 bs = Some r"
  using loop_returns [OF response_switch_advances]
  by (fastforce simp: RpcResponse_ParseFromString_def ParseFromString_def RpcResponse_InternalParse_def
      split: option.splits)

lemma request_size: "length (RpcRequest_InternalSerialize rt m) = RpcRequest_ByteSizeLong rt m"
  by (simp add: RpcRequest_InternalSerialize_def RpcRequest_ByteSizeLong_def Let_def writer_sizes)

lemma response_size: "length (RpcResponse_InternalSerialize rt m) = RpcResponse_ByteSizeLong rt m"
  by (simp add: RpcResponse_InternalSerialize_def RpcResponse_ByteSizeLong_def Let_def writer_sizes)

end

section \<open>Properties of the messages\<close>

text \<open>
  C18: a request and a response survive the wire.  With a runtime that follows the wire format,
  parsing the serialized message into any existing object succeeds and leaves exactly the message
  that was sent: nothing of the old object survives, absent fields come back as defaults, and any
  error code, known to the enumeration or not, is preserved.
\<close>

theorem header_roundtrip:
  assumes "pb_runtime_ok rt"
  shows "(RpcRequest_wf rt req \<longrightarrow>
      RpcRequest_ParseFromString rt req0 (RpcRequest_InternalSerialize rt req) = Some (req, True))
    \<and> (RpcResponse_wf rt rsp \<longrightarrow>
      RpcResponse_ParseFromString rt rsp0 (RpcResponse_InternalSerialize rt rsp) = Some (rsp, True))"
  using pb_runtime_ok.request_reads_back [OF assms] pb_runtime_ok.response_reads_back [OF assms]
  by blast

definition sample_request :: "bytes RpcRequest" where
  "sample_request = \<lparr>service_name = ''math.MathService'', method_name = ''Add'', args = ''xy'',
     req_unknown = []\<rparr>"

definition sample_response :: "bytes RpcResponse" where
  "sample_response = \<lparr>error_msg = ''bad'', result = [], error_code = - 7, rsp_unknown = []\<rparr>"

lemma sample_request_wf: "RpcRequest_wf varint_runtime sample_request"
  by (simp add: RpcRequest_wf_def sample_request_def field_len_def varint_runtime_def)

lemma sample_response_wf: "RpcResponse_wf varint_runtime sample_response"
  by (simp add: RpcResponse_wf_def sample_response_def field_len_def varint_runtime_def)

lemma header_roundtrip_witness:
  "RpcRequest_ParseFromString varint_runtime sample_request
       (RpcRequest_InternalSerialize varint_runtime sample_request) = Some (sample_request, True)
   \<and> RpcResponse_ParseFromString varint_runtime (RpcResponse_default varint_runtime)
       (RpcResponse_InternalSerialize varint_runtime sample_response) = Some (sample_response, True)"
  using header_roundtrip [OF vrt.pb_runtime_ok_axioms] sample_request_wf sample_response_wf by blast

text \<open>
  The size the runtime reserves is the size that is written.  \<open>ByteSizeLong\<close> of both messages
  equals the number of bytes \<open>_InternalSerialize\<close> produces, unknown fields included.
\<close>

theorem header_size_exact:
  assumes "pb_runtime_ok rt"
  shows "length (RpcRequest_InternalSerialize rt req) = RpcRequest_ByteSizeLong rt req
       \<and> length (RpcResponse_InternalSerialize rt rsp) = RpcResponse_ByteSizeLong rt rsp"
  using pb_runtime_ok.request_size [OF assms] pb_runtime_ok.response_size [OF assms] by blast

lemma header_size_exact_witness:
  "length (RpcRequest_InternalSerialize varint_runtime sample_request)
     = RpcRequest_ByteSizeLong varint_runtime sample_request
   \<and> RpcRequest_ByteSizeLong varint_runtime sample_request = 27"
proof -
  have "RpcRequest_ByteSizeLong varint_runtime sample_request = 27"
    by (simp add: RpcRequest_ByteSizeLong_def sample_request_def varint_runtime_def varint.simps)
  with header_size_exact [OF vrt.pb_runtime_ok_axioms, of sample_request] show ?thesis by simp
qed

text \<open>
  C36: the parsers return on every input.  With a runtime whose readers never move backwards, the
  parse loops of both messages end on arbitrary bytes, well-formed or not.
\<close>

theorem header_parse_terminates:
  assumes "pb_runtime_ok rt"
  shows "(\<exists>req ok. RpcRequest_ParseFromString rt req0 bs = Some (req, ok))
       \<and> (\<exists>rsp ok. RpcResponse_ParseFromString rt rsp0 bs = Some (rsp, ok))"
  using pb_runtime_ok.request_parse_returns [OF assms, of req0 bs]
    pb_runtime_ok.response_parse_returns [OF assms, of rsp0 bs] by auto

lemma header_parse_terminates_witness:
  "(\<exists>req ok. RpcRequest_ParseFromString varint_runtime sample_request [CHR 0xFF] = Some (req, ok))
   \<and> (\<exists>rsp ok. RpcResponse_ParseFromString varint_runtime sample_response [CHR 0xFF] = Some (rsp, ok))"
  by (rule header_parse_terminates [OF vrt.pb_runtime_ok_axioms])

text \<open>
  C35: concatenated encodings merge.  Parsing the encodings of two requests, or of two responses, one after
  the other gives what \<open>MergeImpl\<close> gives on the messages themselves: set fields of the second win, unset ones keep
  the value of the first.
\<close>

theorem parse_concat_is_merge:
  assumes "pb_runtime_ok rt" and "RpcRequest_wf rt q" "RpcRequest_wf rt q'" and "RpcResponse_wf rt a" "RpcResponse_wf rt a'"
  shows "RpcRequest_ParseFromString rt q0
           (RpcRequest_InternalSerialize rt q @ RpcRequest_InternalSerialize rt q')
       = Some (RpcRequest_MergeImpl rt q q', True)
     \<and> RpcResponse_ParseFromString rt a0
           (RpcResponse_InternalSerialize rt a @ RpcResponse_InternalSerialize rt a')
       = Some (RpcResponse_MergeImpl rt a a', True)"
proof -
  note Q = pb_runtime_ok.request_parse_merges [OF assms(1)] and R = pb_runtime_ok.response_parse_merges [OF assms(1)]
  have "parse_loop rt (RpcRequest_switch rt) (RpcRequest_Clear rt q0)
          (RpcRequest_InternalSerialize rt q @ RpcRequest_InternalSerialize rt q' @ [])
      = parse_loop rt (RpcRequest_switch rt) (RpcRequest_MergeImpl rt q q') []"
    by (simp only: Q [OF assms(2)] Q [OF assms(3)] pb_runtime_ok.request_merge_clear [OF assms(1)])
  moreover have "parse_loop rt (RpcResponse_switch rt) (RpcResponse_Clear rt a0)
          (RpcResponse_InternalSerialize rt a @ RpcResponse_InternalSerialize rt a' @ [])
      = parse_loop rt (RpcResponse_switch rt) (RpcResponse_MergeImpl rt a a') []"
    by (simp only: R [OF assms(4)] R [OF assms(5)] pb_runtime_ok.response_merge_clear [OF assms(1)])
  ultimately show ?thesis
    by (simp add: RpcRequest_ParseFromString_def RpcResponse_ParseFromString_def ParseFromString_def
        RpcRequest_InternalParse_def RpcResponse_InternalParse_def pb_runtime_ok.loop_end [OF assms(1)])
qed

lemma parse_concat_is_merge_witness:
  "RpcRequest_ParseFromString varint_runtime (RpcRequest_default varint_runtime)
     (RpcRequest_InternalSerialize varint_runtime sample_request
      @ RpcRequest_InternalSerialize varint_runtime sample_request)
   = Some (RpcRequest_MergeImpl varint_runtime sample_request sample_request, True)
   \<and> RpcResponse_ParseFromString varint_runtime (RpcResponse_default varint_runtime)
     (RpcResponse_InternalSerialize varint_runtime sample_response
      @ RpcResponse_InternalSerialize varint_runtime sample_response)
   = Some (RpcResponse_MergeImpl varint_runtime sample_response sample_response, True)"
  by (rule parse_concat_is_merge [OF vrt.pb_runtime_ok_axioms sample_request_wf sample_request_wf
        sample_response_wf sample_response_wf])

end
