(* ===== verification/Math_Messages.thy ===== *)
theory Math_Messages
  imports Pb_Runtime
begin

text \<open>
  The messages of the example service, \<^verbatim>\<open>src/math_service.pb.h\<close> and \<^verbatim>\<open>src/math_service.pb.cc\<close>.  They
  are proto2 messages: each optional field has a presence bit in \<open>_has_bits_[0]\<close>.  The invariants
  \<open>AddRequest_inv\<close> and its siblings say that presence and value agree, which \<open>Clear\<close> relies on when it
  skips the fields of a message without presence bits.
\<close>

section \<open>AddRequest\<close>

record 'u AddRequest =
  addq_has_bits :: uint32
  addq_a :: int32
  addq_b :: int32
  addq_unknown :: 'u

definition AddRequest_default :: "'u pb_runtime \<Rightarrow> 'u AddRequest" where
  "AddRequest_default rt = \<lparr>addq_has_bits = 0, addq_a = 0, addq_b = 0, addq_unknown = unknown_default rt\<rparr>"

definition AddRequest_copy :: "'u pb_runtime \<Rightarrow> 'u AddRequest \<Rightarrow> 'u AddRequest" where
  "AddRequest_copy rt from =
     \<lparr>addq_has_bits = addq_has_bits from, addq_a = addq_a from, addq_b = addq_b from,
      addq_unknown = MergeUnknown rt (unknown_default rt) (addq_unknown from)\<rparr>"

definition addq_has_a :: "'u AddRequest \<Rightarrow> bool" where
  "addq_has_a m \<longleftrightarrow> addq_has_bits m AND 1 \<noteq> 0"

definition addq_clear_a :: "'u AddRequest \<Rightarrow> 'u AddRequest" where
  "addq_clear_a m = m\<lparr>addq_a := 0, addq_has_bits := addq_has_bits m AND NOT 1\<rparr>"

definition addq_set_a :: "int32 \<Rightarrow> 'u AddRequest \<Rightarrow> 'u AddRequest" where
  "addq_set_a v m = m\<lparr>addq_has_bits := addq_has_bits m OR 1, addq_a := v\<rparr>"

definition addq_has_b :: "'u AddRequest \<Rightarrow> bool" where
  "addq_has_b m \<longleftrightarrow> addq_has_bits m AND 2 \<noteq> 0"

definition addq_clear_b :: "'u AddRequest \<Rightarrow> 'u AddRequest" where
  "addq_clear_b m = m\<lparr>addq_b := 0, addq_has_bits := addq_has_bits m AND NOT 2\<rparr>"

definition addq_set_b :: "int32 \<Rightarrow> 'u AddRequest \<Rightarrow> 'u AddRequest" where
  "addq_set_b v m = m\<lparr>addq_has_bits := addq_has_bits m OR 2, addq_b := v\<rparr>"

text \<open>\<open>Clear\<close> zeroes the fields only if a presence bit is set.\<close>

definition AddRequest_Clear :: "'u pb_runtime \<Rightarrow> 'u AddRequest \<Rightarrow> 'u AddRequest" where
  "AddRequest_Clear rt m =
     (let cached_has_bits = addq_has_bits m;
          m' = (if cached_has_bits AND 3 \<noteq> 0 then m\<lparr>addq_a := 0, addq_b := 0\<rparr> else m)
      in m'\<lparr>addq_has_bits := 0, addq_unknown := unknown_default rt\<rparr>)"

text \<open>The parser collects the presence bits in a local variable, the second component of its state.\<close>

definition AddRequest_switch ::
  "'u pb_runtime \<Rightarrow> 'u AddRequest \<times> uint32 \<Rightarrow> uint32 \<Rightarrow> bytes option \<Rightarrow> ('u AddRequest \<times> uint32) parse_step" where
  "AddRequest_switch rt s tag ptr =
     (case s of (m, has_bits) \<Rightarrow>
        if drop_bit 3 tag = 1 \<and> (ucast tag :: uint8) = 8 then
          (case ptr of
             None \<Rightarrow> Failure (m, has_bits)
           | Some p \<Rightarrow>
               (case ReadVarint32 rt p of (v, q) \<Rightarrow>
                  (let s' = (m\<lparr>addq_a := v\<rparr>, has_bits OR 1)
                   in case q of None \<Rightarrow> Failure s' | Some q' \<Rightarrow> Continue s' q')))
        else if drop_bit 3 tag = 2 \<and> (ucast tag :: uint8) = 16 then
          (case ptr of
             None \<Rightarrow> Failure (m, has_bits)
           | Some p \<Rightarrow>
               (case ReadVarint32 rt p of (v, q) \<Rightarrow>
                  (let s' = (m\<lparr>addq_b := v\<rparr>, has_bits OR 2)
                   in case q of None \<Rightarrow> Failure s' | Some q' \<Rightarrow> Continue s' q')))
        else handle_unusual rt (\<lambda>(m, h). addq_unknown m)
               (\<lambda>u (m, h). (m\<lparr>addq_unknown := u\<rparr>, h)) (m, has_bits) tag ptr)"

definition AddRequest_InternalParse ::
  "'u pb_runtime \<Rightarrow> 'u AddRequest \<Rightarrow> bytes \<Rightarrow> ('u AddRequest \<times> bytes option \<times> uint32) option" where
  "AddRequest_InternalParse rt m ptr =
     (case parse_loop rt (AddRequest_switch rt) (m, 0) ptr of
        None \<Rightarrow> None
      | Some ((m', has_bits), r) \<Rightarrow>
          Some (m'\<lparr>addq_has_bits := addq_has_bits m' OR has_bits\<rparr>, r))"

definition AddRequest_InternalSerialize :: "'u pb_runtime \<Rightarrow> 'u AddRequest \<Rightarrow> bytes" where
  "AddRequest_InternalSerialize rt m =
     (if addq_has_bits m AND 1 \<noteq> 0 then WriteInt32ToArray rt 1 (addq_a m) else [])
     @ (if addq_has_bits m AND 2 \<noteq> 0 then WriteInt32ToArray rt 2 (addq_b m) else [])
     @ (if have_unknown_fields rt (addq_unknown m) then SerializeUnknown rt (addq_unknown m) else [])"

definition AddRequest_ByteSizeLong :: "'u pb_runtime \<Rightarrow> 'u AddRequest \<Rightarrow> nat" where
  "AddRequest_ByteSizeLong rt m =
     (let cached_has_bits = addq_has_bits m;
          s = (if cached_has_bits AND 3 \<noteq> 0
               then (if cached_has_bits AND 1 \<noteq> 0 then Int32SizePlusOne rt (addq_a m) else 0)
                    + (if cached_has_bits AND 2 \<noteq> 0 then Int32SizePlusOne rt (addq_b m) else 0)
               else 0)
      in if have_unknown_fields rt (addq_unknown m)
         then s + UnknownFieldsSize rt (addq_unknown m) else s)"

definition AddRequest_MergeImpl :: "'u pb_runtime \<Rightarrow> 'u AddRequest \<Rightarrow> 'u AddRequest \<Rightarrow> 'u AddRequest" where
  "AddRequest_MergeImpl rt to from =
     (let cached_has_bits = addq_has_bits from;
          m = (if cached_has_bits AND 3 \<noteq> 0
               then (let m1 = (if cached_has_bits AND 1 \<noteq> 0 then to\<lparr>addq_a := addq_a from\<rparr> else to);
                         m2 = (if cached_has_bits AND 2 \<noteq> 0 then m1\<lparr>addq_b := addq_b from\<rparr> else m1)
                     in m2\<lparr>addq_has_bits := addq_has_bits m2 OR cached_has_bits\<rparr>)
               else to)
      in m\<lparr>addq_unknown := MergeUnknown rt (addq_unknown m) (addq_unknown from)\<rparr>)"

definition AddRequest_CopyFrom :: "'u pb_runtime \<Rightarrow> bool \<Rightarrow> 'u AddRequest \<Rightarrow> 'u AddRequest \<Rightarrow> 'u AddRequest" where
  "AddRequest_CopyFrom rt same_object this from =
     (if same_object then this else AddRequest_MergeImpl rt (AddRequest_Clear rt this) from)"

definition AddRequest_InternalSwap :: "'u AddRequest \<Rightarrow> 'u AddRequest \<Rightarrow> 'u AddRequest \<times> 'u AddRequest" where
  "AddRequest_InternalSwap this other =
     (this\<lparr>addq_unknown := addq_unknown other, addq_has_bits := addq_has_bits other,
           addq_a := addq_a other, addq_b := addq_b other\<rparr>,
      other\<lparr>addq_unknown := addq_unknown this, addq_has_bits := addq_has_bits this,
            addq_a := addq_a this, addq_b := addq_b this\<rparr>)"

definition AddRequest_ParseFromString ::
  "'u pb_runtime \<Rightarrow> 'u AddRequest \<Rightarrow> bytes \<Rightarrow> ('u AddRequest \<times> bool) option" where
  "AddRequest_ParseFromString rt = ParseFromString (AddRequest_Clear rt) (AddRequest_InternalParse rt)"

text \<open>Presence and value agree: an absent field is zero, and only the two declared bits are used.\<close>

definition AddRequest_inv :: "'u AddRequest \<Rightarrow> bool" where
  "AddRequest_inv m \<longleftrightarrow> addq_has_bits m AND 3 = addq_has_bits m
     \<and> (addq_has_a m \<or> addq_a m = 0) \<and> (addq_has_b m \<or> addq_b m = 0)"

section \<open>AddResponse\<close>

record 'u AddResponse =
  addr_has_bits :: uint32
  addr_sum :: int32
  addr_unknown :: 'u

definition AddResponse_default :: "'u pb_runtime \<Rightarrow> 'u AddResponse" where
  "AddResponse_default rt = \<lparr>addr_has_bits = 0, addr_sum = 0, addr_unknown = unknown_default rt\<rparr>"

definition AddResponse_copy :: "'u pb_runtime \<Rightarrow> 'u AddResponse \<Rightarrow> 'u AddResponse" where
  "AddResponse_copy rt from =
     \<lparr>addr_has_bits = addr_has_bits from, addr_sum = addr_sum from,
      addr_unknown = MergeUnknown rt (unknown_default rt) (addr_unknown from)\<rparr>"

definition has_sum :: "'u AddResponse \<Rightarrow> bool" where
  "has_sum m \<longleftrightarrow> addr_has_bits m AND 1 \<noteq> 0"

definition clear_sum :: "'u AddResponse \<Rightarrow> 'u AddResponse" where
  "clear_sum m = m\<lparr>addr_sum := 0, addr_has_bits := addr_has_bits m AND NOT 1\<rparr>"

definition set_sum :: "int32 \<Rightarrow> 'u AddResponse \<Rightarrow> 'u AddResponse" where
  "set_sum v m = m\<lparr>addr_has_bits := addr_has_bits m OR 1, addr_sum := v\<rparr>"

definition AddResponse_Clear :: "'u pb_runtime \<Rightarrow> 'u AddResponse \<Rightarrow> 'u AddResponse" where
  "AddResponse_Clear rt m = m\<lparr>addr_sum := 0, addr_has_bits := 0, addr_unknown := unknown_default rt\<rparr>"

definition AddResponse_switch ::
  "'u pb_runtime \<Rightarrow> 'u AddResponse \<times> uint32 \<Rightarrow> uint32 \<Rightarrow> bytes option \<Rightarrow> ('u AddResponse \<times> uint32) parse_step" where
  "AddResponse_switch rt s tag ptr =
     (case s of (m, has_bits) \<Rightarrow>
        if drop_bit 3 tag = 1 \<and> (ucast tag :: uint8) = 8 then
          (case ptr of
             None \<Rightarrow> Failure (m, has_bits)
           | Some p \<Rightarrow>
               (case ReadVarint32 rt p of (v, q) \<Rightarrow>
                  (let s' = (m\<lparr>addr_sum := v\<rparr>, has_bits OR 1)
                   in case q of None \<Rightarrow> Failure s' | Some q' \<Rightarrow> Continue s' q')))
        else handle_unusual rt (\<lambda>(m, h). addr_unknown m)
               (\<lambda>u (m, h). (m\<lparr>addr_unknown := u\<rparr>, h)) (m, has_bits) tag ptr)"

definition AddResponse_InternalParse ::
  "'u pb_runtime \<Rightarrow> 'u AddResponse \<Rightarrow> bytes \<Rightarrow> ('u AddResponse \<times> bytes option \<times> uint32) option" where
  "AddResponse_InternalParse rt m ptr =
     (case parse_loop rt (AddResponse_switch rt) (m, 0) ptr of
        None \<Rightarrow> None
      | Some ((m', has_bits), r) \<Rightarrow>
          Some (m'\<lparr>addr_has_bits := addr_has_bits m' OR has_bits\<rparr>, r))"

definition AddResponse_InternalSerialize :: "'u pb_runtime \<Rightarrow> 'u AddResponse \<Rightarrow> bytes" where
  "AddResponse_InternalSerialize rt m =
     (if addr_has_bits m AND 1 \<noteq> 0 then WriteInt32ToArray rt 1 (addr_sum m) else [])
     @ (if have_unknown_fields rt (addr_unknown m) then SerializeUnknown rt (addr_unknown m) else [])"

definition AddResponse_ByteSizeLong :: "'u pb_runtime \<Rightarrow> 'u AddResponse \<Rightarrow> nat" where
  "AddResponse_ByteSizeLong rt m =
     (let s = (if addr_has_bits m AND 1 \<noteq> 0 then Int32SizePlusOne rt (addr_sum m) else 0)
      in if have_unknown_fields rt (addr_unknown m)
         then s + UnknownFieldsSize rt (addr_unknown m) else s)"

definition AddResponse_MergeImpl :: "'u pb_runtime \<Rightarrow> 'u AddResponse \<Rightarrow> 'u AddResponse \<Rightarrow> 'u AddResponse" where
  "AddResponse_MergeImpl rt to from =
     (let m = (if has_sum from then set_sum (addr_sum from) to else to)
      in m\<lparr>addr_unknown := MergeUnknown rt (addr_unknown m) (addr_unknown from)\<rparr>)"

definition AddResponse_CopyFrom :: "'u pb_runtime \<Rightarrow> bool \<Rightarrow> 'u AddResponse \<Rightarrow> 'u AddResponse \<Rightarrow> 'u AddResponse" where
  "AddResponse_CopyFrom rt same_object this from =
     (if same_object then this else AddResponse_MergeImpl rt (AddResponse_Clear rt this) from)"

definition AddResponse_InternalSwap :: "'u AddResponse \<Rightarrow> 'u AddResponse \<Rightarrow> 'u AddResponse \<times> 'u AddResponse" where
  "AddResponse_InternalSwap this other =
     (this\<lparr>addr_unknown := addr_unknown other, addr_has_bits := addr_has_bits other, addr_sum := addr_sum other\<rparr>,
      other\<lparr>addr_unknown := addr_unknown this, addr_has_bits := addr_has_bits this, addr_sum := addr_sum this\<rparr>)"

definition AddResponse_ParseFromString ::
  "'u pb_runtime \<Rightarrow> 'u AddResponse \<Rightarrow> bytes \<Rightarrow> ('u AddResponse \<times> bool) option" where
  "AddResponse_ParseFromString rt = ParseFromString (AddResponse_Clear rt) (AddResponse_InternalParse rt)"

definition AddResponse_inv :: "'u AddResponse \<Rightarrow> bool" where
  "AddResponse_inv m \<longleftrightarrow> addr_has_bits m AND 1 = addr_has_bits m \<and> (has_sum m \<or> addr_sum m = 0)"

section \<open>SubRequest\<close>

record 'u SubRequest =
  subq_has_bits :: uint32
  subq_a :: int32
  subq_b :: int32
  subq_unknown :: 'u

definition SubRequest_default :: "'u pb_runtime \<Rightarrow> 'u SubRequest" where
  "SubRequest_default rt = \<lparr>subq_has_bits = 0, subq_a = 0, subq_b = 0, subq_unknown = unknown_default rt\<rparr>"

definition SubRequest_copy :: "'u pb_runtime \<Rightarrow> 'u SubRequest \<Rightarrow> 'u SubRequest" where
  "SubRequest_copy rt from =
     \<lparr>subq_has_bits = subq_has_bits from, subq_a = subq_a from, subq_b = subq_b from,
      subq_unknown = MergeUnknown rt (unknown_default rt) (subq_unknown from)\<rparr>"

definition subq_has_a :: "'u SubRequest \<Rightarrow> bool" where
  "subq_has_a m \<longleftrightarrow> subq_has_bits m AND 1 \<noteq> 0"

definition subq_clear_a :: "'u SubRequest \<Rightarrow> 'u SubRequest" where
  "subq_clear_a m = m\<lparr>subq_a := 0, subq_has_bits := subq_has_bits m AND NOT 1\<rparr>"

definition subq_set_a :: "int32 \<Rightarrow> 'u SubRequest \<Rightarrow> 'u SubRequest" where
  "subq_set_a v m = m\<lparr>subq_has_bits := subq_has_bits m OR 1, subq_a := v\<rparr>"

definition subq_has_b :: "'u SubRequest \<Rightarrow> bool" where
  "subq_has_b m \<longleftrightarrow> subq_has_bits m AND 2 \<noteq> 0"

definition subq_clear_b :: "'u SubRequest \<Rightarrow> 'u SubRequest" where
  "subq_clear_b m = m\<lparr>subq_b := 0, subq_has_bits := subq_has_bits m AND NOT 2\<rparr>"

definition subq_set_b :: "int32 \<Rightarrow> 'u SubRequest \<Rightarrow> 'u SubRequest" where
  "subq_set_b v m = m\<lparr>subq_has_bits := subq_has_bits m OR 2, subq_b := v\<rparr>"

text \<open>\<open>Clear\<close> zeroes the fields only if a presence bit is set.\<close>

definition SubRequest_Clear :: "'u pb_runtime \<Rightarrow> 'u SubRequest \<Rightarrow> 'u SubRequest" where
  "SubRequest_Clear rt m =
     (let cached_has_bits = subq_has_bits m;
          m' = (if cached_has_bits AND 3 \<noteq> 0 then m\<lparr>subq_a := 0, subq_b := 0\<rparr> else m)
      in m'\<lparr>subq_has_bits := 0, subq_unknown := unknown_default rt\<rparr>)"

text \<open>The parser collects the presence bits in a local variable, the second component of its state.\<close>

definition SubRequest_switch ::
  "'u pb_runtime \<Rightarrow> 'u SubRequest \<times> uint32 \<Rightarrow> uint32 \<Rightarrow> bytes option \<Rightarrow> ('u SubRequest \<times> uint32) parse_step" where
  "SubRequest_switch rt s tag ptr =
     (case s of (m, has_bits) \<Rightarrow>
        if drop_bit 3 tag = 1 \<and> (ucast tag :: uint8) = 8 then
          (case ptr of
             None \<Rightarrow> Failure (m, has_bits)
           | Some p \<Rightarrow>
               (case ReadVarint32 rt p of (v, q) \<Rightarrow>
                  (let s' = (m\<lparr>subq_a := v\<rparr>, has_bits OR 1)
                   in case q of None \<Rightarrow> Failure s' | Some q' \<Rightarrow> Continue s' q')))
        else if drop_bit 3 tag = 2 \<and> (ucast tag :: uint8) = 16 then
          (case ptr of
             None \<Rightarrow> Failure (m, has_bits)
           | Some p \<Rightarrow>
               (case ReadVarint32 rt p of (v, q) \<Rightarrow>
                  (let s' = (m\<lparr>subq_b := v\<rparr>, has_bits OR 2)
                   in case q of None \<Rightarrow> Failure s' | Some q' \<Rightarrow> Continue s' q')))
        else handle_unusual rt (\<lambda>(m, h). subq_unknown m)
               (\<lambda>u (m, h). (m\<lparr>subq_unknown := u\<rparr>, h)) (m, has_bits) tag ptr)"

definition SubRequest_InternalParse ::
  "'u pb_runtime \<Rightarrow> 'u SubRequest \<Rightarrow> bytes \<Rightarrow> ('u SubRequest \<times> bytes option \<times> uint32) option" where
  "SubRequest_InternalParse rt m ptr =
     (case parse_loop rt (SubRequest_switch rt) (m, 0) ptr of
        None \<Rightarrow> None
      | Some ((m', has_bits), r) \<Rightarrow>
          Some (m'\<lparr>subq_has_bits := subq_has_bits m' OR has_bits\<rparr>, r))"

definition SubRequest_InternalSerialize :: "'u pb_runtime \<Rightarrow> 'u SubRequest \<Rightarrow> bytes" where
  "SubRequest_InternalSerialize rt m =
     (if subq_has_bits m AND 1 \<noteq> 0 then WriteInt32ToArray rt 1 (subq_a m) else [])
     @ (if subq_has_bits m AND 2 \<noteq> 0 then WriteInt32ToArray rt 2 (subq_b m) else [])
     @ (if have_unknown_fields rt (subq_unknown m) then SerializeUnknown rt (subq_unknown m) else [])"

definition SubRequest_ByteSizeLong :: "'u pb_runtime \<Rightarrow> 'u SubRequest \<Rightarrow> nat" where
  "SubRequest_ByteSizeLong rt m =
     (let cached_has_bits = subq_has_bits m;
          s = (if cached_has_bits AND 3 \<noteq> 0
               then (if cached_has_bits AND 1 \<noteq> 0 then Int32SizePlusOne rt (subq_a m) else 0)
                    + (if cached_has_bits AND 2 \<noteq> 0 then Int32SizePlusOne rt (subq_b m) else 0)
               else 0)
      in if have_unknown_fields rt (subq_unknown m)
         then s + UnknownFieldsSize rt (subq_unknown m) else s)"

definition SubRequest_MergeImpl :: "'u pb_runtime \<Rightarrow> 'u SubRequest \<Rightarrow> 'u SubRequest \<Rightarrow> 'u SubRequest" where
  "SubRequest_MergeImpl rt to from =
     (let cached_has_bits = subq_has_bits from;
          m = (if cached_has_bits AND 3 \<noteq> 0
               then (let m1 = (if cached_has_bits AND 1 \<noteq> 0 then to\<lparr>subq_a := subq_a from\<rparr> else to);
                         m2 = (if cached_has_bits AND 2 \<noteq> 0 then m1\<lparr>subq_b := subq_b from\<rparr> else m1)
                     in m2\<lparr>subq_has_bits := subq_has_bits m2 OR cached_has_bits\<rparr>)
               else to)
      in m\<lparr>subq_unknown := MergeUnknown rt (subq_unknown m) (subq_unknown from)\<rparr>)"

definition SubRequest_CopyFrom :: "'u pb_runtime \<Rightarrow> bool \<Rightarrow> 'u SubRequest \<Rightarrow> 'u SubRequest \<Rightarrow> 'u SubRequest" where
  "SubRequest_CopyFrom rt same_object this from =
     (if same_object then this else SubRequest_MergeImpl rt (SubRequest_Clear rt this) from)"

definition SubRequest_InternalSwap :: "'u SubRequest \<Rightarrow> 'u SubRequest \<Rightarrow> 'u SubRequest \<times> 'u SubRequest" where
  "SubRequest_InternalSwap this other =
     (this\<lparr>subq_unknown := subq_unknown other, subq_has_bits := subq_has_bits other,
           subq_a := subq_a other, subq_b := subq_b other\<rparr>,
      other\<lparr>subq_unknown := subq_unknown this, subq_has_bits := subq_has_bits this,
            subq_a := subq_a this, subq_b := subq_b this\<rparr>)"

definition SubRequest_ParseFromString ::
  "'u pb_runtime \<Rightarrow> 'u SubRequest \<Rightarrow> bytes \<Rightarrow> ('u SubRequest \<times> bool) option" where
  "SubRequest_ParseFromString rt = ParseFromString (SubRequest_Clear rt) (SubRequest_InternalParse rt)"

text \<open>Presence and value agree: an absent field is zero, and only the two declared bits are used.\<close>

definition SubRequest_inv :: "'u SubRequest \<Rightarrow> bool" where
  "SubRequest_inv m \<longleftrightarrow> subq_has_bits m AND 3 = subq_has_bits m
     \<and> (subq_has_a m \<or> subq_a m = 0) \<and> (subq_has_b m \<or> subq_b m = 0)"

section \<open>SubResponse\<close>

record 'u SubResponse =
  subr_has_bits :: uint32
  subr_diff :: int32
  subr_unknown :: 'u

definition SubResponse_default :: "'u pb_runtime \<Rightarrow> 'u SubResponse" where
  "SubResponse_default rt = \<lparr>subr_has_bits = 0, subr_diff = 0, subr_unknown = unknown_default rt\<rparr>"

definition SubResponse_copy :: "'u pb_runtime \<Rightarrow> 'u SubResponse \<Rightarrow> 'u SubResponse" where
  "SubResponse_copy rt from =
     \<lparr>subr_has_bits = subr_has_bits from, subr_diff = subr_diff from,
      subr_unknown = MergeUnknown rt (unknown_default rt) (subr_unknown from)\<rparr>"

definition has_diff :: "'u SubResponse \<Rightarrow> bool" where
  "has_diff m \<longleftrightarrow> subr_has_bits m AND 1 \<noteq> 0"

definition clear_diff :: "'u SubResponse \<Rightarrow> 'u SubResponse" where
  "clear_diff m = m\<lparr>subr_diff := 0, subr_has_bits := subr_has_bits m AND NOT 1\<rparr>"

definition set_diff :: "int32 \<Rightarrow> 'u SubResponse \<Rightarrow> 'u SubResponse" where
  "set_diff v m = m\<lparr>subr_has_bits := subr_has_bits m OR 1, subr_diff := v\<rparr>"

definition SubResponse_Clear :: "'u pb_runtime \<Rightarrow> 'u SubResponse \<Rightarrow> 'u SubResponse" where
  "SubResponse_Clear rt m = m\<lparr>subr_diff := 0, subr_has_bits := 0, subr_unknown := unknown_default rt\<rparr>"

definition SubResponse_switch ::
  "'u pb_runtime \<Rightarrow> 'u SubResponse \<times> uint32 \<Rightarrow> uint32 \<Rightarrow> bytes option \<Rightarrow> ('u SubResponse \<times> uint32) parse_step" where
  "SubResponse_switch rt s tag ptr =
     (case s of (m, has_bits) \<Rightarrow>
        if drop_bit 3 tag = 1 \<and> (ucast tag :: uint8) = 8 then
          (case ptr of
             None \<Rightarrow> Failure (m, has_bits)
           | Some p \<Rightarrow>
               (case ReadVarint32 rt p of (v, q) \<Rightarrow>
                  (let s' = (m\<lparr>subr_diff := v\<rparr>, has_bits OR 1)
                   in case q of None \<Rightarrow> Failure s' | Some q' \<Rightarrow> Continue s' q')))
        else handle_unusual rt (\<lambda>(m, h). subr_unknown m)
               (\<lambda>u (m, h). (m\<lparr>subr_unknown := u\<rparr>, h)) (m, has_bits) tag ptr)"

definition SubResponse_InternalParse ::
  "'u pb_runtime \<Rightarrow> 'u SubResponse \<Rightarrow> bytes \<Rightarrow> ('u SubResponse \<times> bytes option \<times> uint32) option" where
  "SubResponse_InternalParse rt m ptr =
     (case parse_loop rt (SubResponse_switch rt) (m, 0) ptr of
        None \<Rightarrow> None
      | Some ((m', has_bits), r) \<Rightarrow>
          Some (m'\<lparr>subr_has_bits := subr_has_bits m' OR has_bits\<rparr>, r))"

definition SubResponse_InternalSerialize :: "'u pb_runtime \<Rightarrow> 'u SubResponse \<Rightarrow> bytes" where
  "SubResponse_InternalSerialize rt m =
     (if subr_has_bits m AND 1 \<noteq> 0 then WriteInt32ToArray rt 1 (subr_diff m) else [])
     @ (if have_unknown_fields rt (subr_unknown m) then SerializeUnknown rt (subr_unknown m) else [])"

definition SubResponse_ByteSizeLong :: "'u pb_runtime \<Rightarrow> 'u SubResponse \<Rightarrow> nat" where
  "SubResponse_ByteSizeLong rt m =
     (let s = (if subr_has_bits m AND 1 \<noteq> 0 then Int32SizePlusOne rt (subr_diff m) else 0)
      in if have_unknown_fields rt (subr_unknown m)
         then s + UnknownFieldsSize rt (subr_unknown m) else s)"

definition SubResponse_MergeImpl :: "'u pb_runtime \<Rightarrow> 'u SubResponse \<Rightarrow> 'u SubResponse \<Rightarrow> 'u SubResponse" where
  "SubResponse_MergeImpl rt to from =
     (let m = (if has_diff from then set_diff (subr_diff from) to else to)
      in m\<lparr>subr_unknown := MergeUnknown rt (subr_unknown m) (subr_unknown from)\<rparr>)"

definition SubResponse_CopyFrom :: "'u pb_runtime \<Rightarrow> bool \<Rightarrow> 'u SubResponse \<Rightarrow> 'u SubResponse \<Rightarrow> 'u SubResponse" where
  "SubResponse_CopyFrom rt same_object this from =
     (if same_object then this else SubResponse_MergeImpl rt (SubResponse_Clear rt this) from)"

definition SubResponse_InternalSwap :: "'u SubResponse \<Rightarrow> 'u SubResponse \<Rightarrow> 'u SubResponse \<times> 'u SubResponse" where
  "SubResponse_InternalSwap this other =
     (this\<lparr>subr_unknown := subr_unknown other, subr_has_bits := subr_has_bits other, subr_diff := subr_diff other\<rparr>,
      other\<lparr>subr_unknown := subr_unknown this, subr_has_bits := subr_has_bits this, subr_diff := subr_diff this\<rparr>)"

definition SubResponse_ParseFromString ::
  "'u pb_runtime \<Rightarrow> 'u SubResponse \<Rightarrow> bytes \<Rightarrow> ('u SubResponse \<times> bool) option" where
  "SubResponse_ParseFromString rt = ParseFromString (SubResponse_Clear rt) (SubResponse_InternalParse rt)"

definition SubResponse_inv :: "'u SubResponse \<Rightarrow> bool" where
  "SubResponse_inv m \<longleftrightarrow> subr_has_bits m AND 1 = subr_has_bits m \<and> (has_diff m \<or> subr_diff m = 0)"

section \<open>Presence bits\<close>

lemma has_bits_cases:
  assumes "(w :: uint32) AND 3 = w"
  shows "w = 0 \<or> w = 1 \<or> w = 2 \<or> w = 3"
proof -
  have "unat (w AND 3) \<le> unat (3 :: uint32)"
    by (rule word_and_le1 [THEN word_le_nat_alt [THEN iffD1]])
  then have "unat w = 0 \<or> unat w = 1 \<or> unat w = 2 \<or> unat w = 3"
    using assms by auto
  then show ?thesis
    by (auto simp: word_unat_eq_iff)
qed

lemma has_bit_cases:
  assumes "(w :: uint32) AND 1 = w"
  shows "w = 0 \<or> w = 1"
  using assms by (metis and_one_eq mod_2_eq_odd of_bool_def)

lemma has_bits_or: "(v :: uint32) AND k = v \<Longrightarrow> w AND k = w \<Longrightarrow> (v OR w) AND k = v OR w"
  by (simp add: bit.conj_disj_distrib2)

lemma or_zero: "((v :: uint32) OR w) AND k = 0 \<longleftrightarrow> v AND k = 0 \<and> w AND k = 0"
  by (simp add: bit.conj_disj_distrib2 or_eq_0_iff)

context pb_runtime_ok
begin

lemma AddRequest_cleared: "AddRequest_inv m \<Longrightarrow> AddRequest_Clear rt m = AddRequest_default rt"
  using has_bits_cases [of "addq_has_bits m"]
  by (cases m) (auto simp: AddRequest_inv_def AddRequest_Clear_def AddRequest_default_def addq_has_a_def addq_has_b_def Let_def)

lemma AddRequest_parse_fields:
  assumes "addq_unknown m = unknown_default rt"
  shows "parse_loop rt (AddRequest_switch rt) (m0, h) (AddRequest_InternalSerialize rt m @ rest)
       = parse_loop rt (AddRequest_switch rt)
           (m0\<lparr>addq_a := (if addq_has_a m then addq_a m else addq_a m0),
               addq_b := (if addq_has_b m then addq_b m else addq_b m0)\<rparr>,
            (h OR (if addq_has_a m then 1 else 0)) OR (if addq_has_b m then 2 else 0)) rest"
proof -
  let ?loop = "parse_loop rt (AddRequest_switch rt)"
  have a: "?loop (n, k) ((if addq_has_bits m AND 1 \<noteq> 0 then WriteInt32ToArray rt 1 (addq_a m) else []) @ xs)
      = ?loop (n\<lparr>addq_a := (if addq_has_a m then addq_a m else addq_a n)\<rparr>,
               k OR (if addq_has_a m then 1 else 0)) xs" for n k xs
    by (auto intro!: loop_int32 simp: AddRequest_switch_def addq_has_a_def)
  have b: "?loop (n, k) ((if addq_has_bits m AND 2 \<noteq> 0 then WriteInt32ToArray rt 2 (addq_b m) else []) @ xs)
      = ?loop (n\<lparr>addq_b := (if addq_has_b m then addq_b m else addq_b n)\<rparr>,
               k OR (if addq_has_b m then 2 else 0)) xs" for n k xs
    by (auto intro!: loop_int32 simp: AddRequest_switch_def addq_has_b_def)
  show ?thesis
    by (simp only: AddRequest_InternalSerialize_def append_assoc a b assms no_unknown)
      (simp add: no_unknown)
qed

lemma AddRequest_reads_back:
  assumes "AddRequest_inv m0" "AddRequest_inv m" "addq_unknown m = unknown_default rt"
  shows "AddRequest_ParseFromString rt m0 (AddRequest_InternalSerialize rt m) = Some (m, True)"
proof -
  have "parse_loop rt (AddRequest_switch rt) (AddRequest_default rt, 0) (AddRequest_InternalSerialize rt m)
      = Some ((m\<lparr>addq_has_bits := 0\<rparr>, addq_has_bits m), Some [], 0)"
    using AddRequest_parse_fields [OF assms(3), of "AddRequest_default rt" 0 "[]"] assms(2,3)
      has_bits_cases [of "addq_has_bits m"]
    by (cases m) (auto simp: loop_end AddRequest_inv_def AddRequest_default_def addq_has_a_def addq_has_b_def)
  then show ?thesis
    by (simp add: AddRequest_ParseFromString_def ParseFromString_def AddRequest_InternalParse_def
        AddRequest_cleared [OF assms(1)])
qed

lemma AddRequest_size: "length (AddRequest_InternalSerialize rt m) = AddRequest_ByteSizeLong rt m"
proof -
  have "addq_has_bits m AND 3 = (addq_has_bits m AND 1) OR (addq_has_bits m AND 2)"
    using bit.conj_disj_distrib [of "addq_has_bits m" 1 2] by simp
  then show ?thesis
    by (auto simp: AddRequest_InternalSerialize_def AddRequest_ByteSizeLong_def Let_def writer_sizes or_eq_0_iff)
qed

lemma AddRequest_advances:
  "AddRequest_switch rt s t p = Continue s' q \<Longrightarrow> \<exists>p'. p = Some p' \<and> length q \<le> length p'"
  by (auto simp: AddRequest_switch_def Let_def dest: varint32_shrinks unusual_advances
      split: if_splits option.splits prod.splits)

lemma AddRequest_parse_returns: "\<exists>r. AddRequest_ParseFromString rt m0 bs = Some r"
  using loop_returns [OF AddRequest_advances, where m = "(AddRequest_Clear rt m0, 0)" and ptr = bs]
  by (auto simp: AddRequest_ParseFromString_def ParseFromString_def AddRequest_InternalParse_def
      split: option.splits prod.splits)

end

text \<open>The invariant of a parser state: the message once the collected bits are added.\<close>

definition AddRequest_state_inv :: "'u AddRequest \<times> uint32 \<Rightarrow> bool" where
  "AddRequest_state_inv s \<longleftrightarrow> (case s of (m, h) \<Rightarrow> AddRequest_inv (m\<lparr>addq_has_bits := addq_has_bits m OR h\<rparr>))"

lemma AddRequest_set_inv:
  "AddRequest_inv m \<Longrightarrow> AddRequest_inv (m\<lparr>addq_has_bits := addq_has_bits m OR 1, addq_a := v\<rparr>)"
  "AddRequest_inv m \<Longrightarrow> AddRequest_inv (m\<lparr>addq_has_bits := addq_has_bits m OR 2, addq_b := w\<rparr>)"
  by (auto simp: AddRequest_inv_def addq_has_a_def addq_has_b_def or_zero intro!: has_bits_or)

lemma AddRequest_state_inv_field:
  "AddRequest_state_inv (m, h) \<Longrightarrow> AddRequest_state_inv (m\<lparr>addq_a := v\<rparr>, h OR 1)"
  "AddRequest_state_inv (m, h) \<Longrightarrow> AddRequest_state_inv (m\<lparr>addq_b := v\<rparr>, h OR 2)"
  "AddRequest_state_inv (m, h) \<Longrightarrow> AddRequest_state_inv (m\<lparr>addq_unknown := u\<rparr>, h)"
  using AddRequest_set_inv(1) [of "m\<lparr>addq_has_bits := addq_has_bits m OR h\<rparr>" v]
    AddRequest_set_inv(2) [of "m\<lparr>addq_has_bits := addq_has_bits m OR h\<rparr>" v]
  by (auto simp: AddRequest_state_inv_def or.assoc) (auto simp: AddRequest_inv_def addq_has_a_def addq_has_b_def)

lemma AddRequest_parse_inv:
  assumes "AddRequest_inv m" and "AddRequest_InternalParse rt m bs = Some (m', r)"
  shows "AddRequest_inv m'"
proof -
  obtain n h where loop: "parse_loop rt (AddRequest_switch rt) (m, 0) bs = Some ((n, h), r)"
    and m': "m' = n\<lparr>addq_has_bits := addq_has_bits n OR h\<rparr>"
    using assms(2) by (auto simp: AddRequest_InternalParse_def split: option.splits prod.splits)
  have "AddRequest_state_inv (n, h)"
    by (rule parse_loop_inv [where P = AddRequest_state_inv, OF loop])
      (use assms(1) in \<open>auto simp: AddRequest_state_inv_def [of "(m, 0)"] AddRequest_switch_def Let_def handle_unusual_def
        intro: AddRequest_state_inv_field split: if_splits option.splits prod.splits\<close>)
  then show ?thesis by (simp add: AddRequest_state_inv_def m')
qed

context pb_runtime_ok
begin

lemma AddResponse_cleared: "AddResponse_Clear rt m = AddResponse_default rt"
  by (simp add: AddResponse_Clear_def AddResponse_default_def)

lemma AddResponse_parse_fields:
  assumes "addr_unknown m = unknown_default rt"
  shows "parse_loop rt (AddResponse_switch rt) (m0, h) (AddResponse_InternalSerialize rt m @ rest)
       = parse_loop rt (AddResponse_switch rt)
           (m0\<lparr>addr_sum := (if has_sum m then addr_sum m else addr_sum m0)\<rparr>,
            h OR (if has_sum m then 1 else 0)) rest"
proof -
  let ?loop = "parse_loop rt (AddResponse_switch rt)"
  have "?loop (n, k) ((if addr_has_bits m AND 1 \<noteq> 0 then WriteInt32ToArray rt 1 (addr_sum m) else []) @ xs)
      = ?loop (n\<lparr>addr_sum := (if has_sum m then addr_sum m else addr_sum n)\<rparr>,
               k OR (if has_sum m then 1 else 0)) xs" for n k xs
    by (auto intro!: loop_int32 simp: AddResponse_switch_def has_sum_def)
  then show ?thesis
    by (simp only: AddResponse_InternalSerialize_def append_assoc assms no_unknown) (simp add: no_unknown)
qed

lemma AddResponse_reads_back:
  assumes "AddResponse_inv m" "addr_unknown m = unknown_default rt"
  shows "AddResponse_ParseFromString rt m0 (AddResponse_InternalSerialize rt m) = Some (m, True)"
proof -
  have "parse_loop rt (AddResponse_switch rt) (AddResponse_default rt, 0) (AddResponse_InternalSerialize rt m)
      = Some ((m\<lparr>addr_has_bits := 0\<rparr>, addr_has_bits m), Some [], 0)"
    using AddResponse_parse_fields [OF assms(2), of "AddResponse_default rt" 0 "[]"] assms
      has_bit_cases [of "addr_has_bits m"]
    by (cases m) (auto simp: loop_end AddResponse_inv_def AddResponse_default_def has_sum_def)
  then show ?thesis
    by (simp add: AddResponse_ParseFromString_def ParseFromString_def AddResponse_InternalParse_def AddResponse_cleared)
qed

lemma AddResponse_size: "length (AddResponse_InternalSerialize rt m) = AddResponse_ByteSizeLong rt m"
  by (simp add: AddResponse_InternalSerialize_def AddResponse_ByteSizeLong_def Let_def writer_sizes)

lemma AddResponse_advances:
  "AddResponse_switch rt s t p = Continue s' q \<Longrightarrow> \<exists>p'. p = Some p' \<and> length q \<le> length p'"
  by (auto simp: AddResponse_switch_def Let_def dest: varint32_shrinks unusual_advances
      split: if_splits option.splits prod.splits)

lemma AddResponse_parse_returns: "\<exists>r. AddResponse_ParseFromString rt m0 bs = Some r"
  using loop_returns [OF AddResponse_advances, where m = "(AddResponse_Clear rt m0, 0)" and ptr = bs]
  by (auto simp: AddResponse_ParseFromString_def ParseFromString_def AddResponse_InternalParse_def
      split: option.splits prod.splits)

end

context pb_runtime_ok
begin

lemma SubRequest_cleared: "SubRequest_inv m \<Longrightarrow> SubRequest_Clear rt m = SubRequest_default rt"
  using has_bits_cases [of "subq_has_bits m"]
  by (cases m) (auto simp: SubRequest_inv_def SubRequest_Clear_def SubRequest_default_def subq_has_a_def subq_has_b_def Let_def)

lemma SubRequest_parse_fields:
  assumes "subq_unknown m = unknown_default rt"
  shows "parse_loop rt (SubRequest_switch rt) (m0, h) (SubRequest_InternalSerialize rt m @ rest)
       = parse_loop rt (SubRequest_switch rt)
           (m0\<lparr>subq_a := (if subq_has_a m then subq_a m else subq_a m0),
               subq_b := (if subq_has_b m then subq_b m else subq_b m0)\<rparr>,
            (h OR (if subq_has_a m then 1 else 0)) OR (if subq_has_b m then 2 else 0)) rest"
proof -
  let ?loop = "parse_loop rt (SubRequest_switch rt)"
  have a: "?loop (n, k) ((if subq_has_bits m AND 1 \<noteq> 0 then WriteInt32ToArray rt 1 (subq_a m) else []) @ xs)
      = ?loop (n\<lparr>subq_a := (if subq_has_a m then subq_a m else subq_a n)\<rparr>,
               k OR (if subq_has_a m then 1 else 0)) xs" for n k xs
    by (auto intro!: loop_int32 simp: SubRequest_switch_def subq_has_a_def)
  have b: "?loop (n, k) ((if subq_has_bits m AND 2 \<noteq> 0 then WriteInt32ToArray rt 2 (subq_b m) else []) @ xs)
      = ?loop (n\<lparr>subq_b := (if subq_has_b m then subq_b m else subq_b n)\<rparr>,
               k OR (if subq_has_b m then 2 else 0)) xs" for n k xs
    by (auto intro!: loop_int32 simp: SubRequest_switch_def subq_has_b_def)
  show ?thesis
    by (simp only: SubRequest_InternalSerialize_def append_assoc a b assms no_unknown)
      (simp add: no_unknown)
qed

lemma SubRequest_reads_back:
  assumes "SubRequest_inv m0" "SubRequest_inv m" "subq_unknown m = unknown_default rt"
  shows "SubRequest_ParseFromString rt m0 (SubRequest_InternalSerialize rt m) = Some (m, True)"
proof -
  have "parse_loop rt (SubRequest_switch rt) (SubRequest_default rt, 0) (SubRequest_InternalSerialize rt m)
      = Some ((m\<lparr>subq_has_bits := 0\<rparr>, subq_has_bits m), Some [], 0)"
    using SubRequest_parse_fields [OF assms(3), of "SubRequest_default rt" 0 "[]"] assms(2,3)
      has_bits_cases [of "subq_has_bits m"]
    by (cases m) (auto simp: loop_end SubRequest_inv_def SubRequest_default_def subq_has_a_def subq_has_b_def)
  then show ?thesis
    by (simp add: SubRequest_ParseFromString_def ParseFromString_def SubRequest_InternalParse_def
        SubRequest_cleared [OF assms(1)])
qed

lemma SubRequest_size: "length (SubRequest_InternalSerialize rt m) = SubRequest_ByteSizeLong rt m"
proof -
  have "subq_has_bits m AND 3 = (subq_has_bits m AND 1) OR (subq_has_bits m AND 2)"
    using bit.conj_disj_distrib [of "subq_has_bits m" 1 2] by simp
  then show ?thesis
    by (auto simp: SubRequest_InternalSerialize_def SubRequest_ByteSizeLong_def Let_def writer_sizes or_eq_0_iff)
qed

lemma SubRequest_advances:
  "SubRequest_switch rt s t p = Continue s' q \<Longrightarrow> \<exists>p'. p = Some p' \<and> length q \<le> length p'"
  by (auto simp: SubRequest_switch_def Let_def dest: varint32_shrinks unusual_advances
      split: if_splits option.splits prod.splits)

lemma SubRequest_parse_returns: "\<exists>r. SubRequest_ParseFromString rt m0 bs = Some r"
  using loop_returns [OF SubRequest_advances, where m = "(SubRequest_Clear rt m0, 0)" and ptr = bs]
  by (auto simp: SubRequest_ParseFromString_def ParseFromString_def SubRequest_InternalParse_def
      split: option.splits prod.splits)

end

text \<open>The invariant of a parser state: the message once the collected bits are added.\<close>

definition SubRequest_state_inv :: "'u SubRequest \<times> uint32 \<Rightarrow> bool" where
  "SubRequest_state_inv s \<longleftrightarrow> (case s of (m, h) \<Rightarrow> SubRequest_inv (m\<lparr>subq_has_bits := subq_has_bits m OR h\<rparr>))"

lemma SubRequest_set_inv:
  "SubRequest_inv m \<Longrightarrow> SubRequest_inv (m\<lparr>subq_has_bits := subq_has_bits m OR 1, subq_a := v\<rparr>)"
  "SubRequest_inv m \<Longrightarrow> SubRequest_inv (m\<lparr>subq_has_bits := subq_has_bits m OR 2, subq_b := w\<rparr>)"
  by (auto simp: SubRequest_inv_def subq_has_a_def subq_has_b_def or_zero intro!: has_bits_or)

lemma SubRequest_state_inv_field:
  "SubRequest_state_inv (m, h) \<Longrightarrow> SubRequest_state_inv (m\<lparr>subq_a := v\<rparr>, h OR 1)"
  "SubRequest_state_inv (m, h) \<Longrightarrow> SubRequest_state_inv (m\<lparr>subq_b := v\<rparr>, h OR 2)"
  "SubRequest_state_inv (m, h) \<Longrightarrow> SubRequest_state_inv (m\<lparr>subq_unknown := u\<rparr>, h)"
  using SubRequest_set_inv(1) [of "m\<lparr>subq_has_bits := subq_has_bits m OR h\<rparr>" v]
    SubRequest_set_inv(2) [of "m\<lparr>subq_has_bits := subq_has_bits m OR h\<rparr>" v]
  by (auto simp: SubRequest_state_inv_def or.assoc) (auto simp: SubRequest_inv_def subq_has_a_def subq_has_b_def)

lemma SubRequest_parse_inv:
  assumes "SubRequest_inv m" and "SubRequest_InternalParse rt m bs = Some (m', r)"
  shows "SubRequest_inv m'"
proof -
  obtain n h where loop: "parse_loop rt (SubRequest_switch rt) (m, 0) bs = Some ((n, h), r)"
    and m': "m' = n\<lparr>subq_has_bits := subq_has_bits n OR h\<rparr>"
    using assms(2) by (auto simp: SubRequest_InternalParse_def split: option.splits prod.splits)
  have "SubRequest_state_inv (n, h)"
    by (rule parse_loop_inv [where P = SubRequest_state_inv, OF loop])
      (use assms(1) in \<open>auto simp: SubRequest_state_inv_def [of "(m, 0)"] SubRequest_switch_def Let_def handle_unusual_def
        intro: SubRequest_state_inv_field split: if_splits option.splits prod.splits\<close>)
  then show ?thesis by (simp add: SubRequest_state_inv_def m')
qed

context pb_runtime_ok
begin

lemma SubResponse_cleared: "SubResponse_Clear rt m = SubResponse_default rt"
  by (simp add: SubResponse_Clear_def SubResponse_default_def)

lemma SubResponse_parse_fields:
  assumes "subr_unknown m = unknown_default rt"
  shows "parse_loop rt (SubResponse_switch rt) (m0, h) (SubResponse_InternalSerialize rt m @ rest)
       = parse_loop rt (SubResponse_switch rt)
           (m0\<lparr>subr_diff := (if has_diff m then subr_diff m else subr_diff m0)\<rparr>,
            h OR (if has_diff m then 1 else 0)) rest"
proof -
  let ?loop = "parse_loop rt (SubResponse_switch rt)"
  have "?loop (n, k) ((if subr_has_bits m AND 1 \<noteq> 0 then WriteInt32ToArray rt 1 (subr_diff m) else []) @ xs)
      = ?loop (n\<lparr>subr_diff := (if has_diff m then subr_diff m else subr_diff n)\<rparr>,
               k OR (if has_diff m then 1 else 0)) xs" for n k xs
    by (auto intro!: loop_int32 simp: SubResponse_switch_def has_diff_def)
  then show ?thesis
    by (simp only: SubResponse_InternalSerialize_def append_assoc assms no_unknown) (simp add: no_unknown)
qed

lemma SubResponse_reads_back:
  assumes "SubResponse_inv m" "subr_unknown m = unknown_default rt"
  shows "SubResponse_ParseFromString rt m0 (SubResponse_InternalSerialize rt m) = Some (m, True)"
proof -
  have "parse_loop rt (SubResponse_switch rt) (SubResponse_default rt, 0) (SubResponse_InternalSerialize rt m)
      = Some ((m\<lparr>subr_has_bits := 0\<rparr>, subr_has_bits m), Some [], 0)"
    using SubResponse_parse_fields [OF assms(2), of "SubResponse_default rt" 0 "[]"] assms
      has_bit_cases [of "subr_has_bits m"]
    by (cases m) (auto simp: loop_end SubResponse_inv_def SubResponse_default_def has_diff_def)
  then show ?thesis
    by (simp add: SubResponse_ParseFromString_def ParseFromString_def SubResponse_InternalParse_def SubResponse_cleared)
qed

lemma SubResponse_size: "length (SubResponse_InternalSerialize rt m) = SubResponse_ByteSizeLong rt m"
  by (simp add: SubResponse_InternalSerialize_def SubResponse_ByteSizeLong_def Let_def writer_sizes)

lemma SubResponse_advances:
  "SubResponse_switch rt s t p = Continue s' q \<Longrightarrow> \<exists>p'. p = Some p' \<and> length q \<le> length p'"
  by (auto simp: SubResponse_switch_def Let_def dest: varint32_shrinks unusual_advances
      split: if_splits option.splits prod.splits)

lemma SubResponse_parse_returns: "\<exists>r. SubResponse_ParseFromString rt m0 bs = Some r"
  using loop_returns [OF SubResponse_advances, where m = "(SubResponse_Clear rt m0, 0)" and ptr = bs]
  by (auto simp: SubResponse_ParseFromString_def ParseFromString_def SubResponse_InternalParse_def
      split: option.splits prod.splits)

end

lemma AddRequest_clear_field_inv:
  "AddRequest_inv m \<Longrightarrow> AddRequest_inv (addq_clear_a m)"
  "AddRequest_inv m \<Longrightarrow> AddRequest_inv (addq_clear_b m)"
  using has_bits_cases [of "addq_has_bits m"]
  by (auto simp: AddRequest_inv_def addq_clear_a_def addq_clear_b_def addq_has_a_def addq_has_b_def)

lemma AddRequest_merge_inv: "AddRequest_inv to \<Longrightarrow> AddRequest_inv from \<Longrightarrow> AddRequest_inv (AddRequest_MergeImpl rt to from)"
  by (auto simp: AddRequest_inv_def AddRequest_MergeImpl_def Let_def addq_has_a_def addq_has_b_def or_zero
      intro!: has_bits_or)

lemma AddRequest_default_inv: "AddRequest_inv (AddRequest_default rt)"
  by (simp add: AddRequest_inv_def AddRequest_default_def)

context pb_runtime_ok
begin

lemma AddRequest_copied:
  "AddRequest_inv this \<Longrightarrow> AddRequest_inv from \<Longrightarrow> AddRequest_CopyFrom rt False this from = from"
  using has_bits_cases [of "addq_has_bits from"]
  by (cases "from") (auto simp: AddRequest_CopyFrom_def AddRequest_cleared AddRequest_MergeImpl_def AddRequest_default_def AddRequest_inv_def
      addq_has_a_def addq_has_b_def merge_default Let_def)

end

lemma SubRequest_clear_field_inv:
  "SubRequest_inv m \<Longrightarrow> SubRequest_inv (subq_clear_a m)"
  "SubRequest_inv m \<Longrightarrow> SubRequest_inv (subq_clear_b m)"
  using has_bits_cases [of "subq_has_bits m"]
  by (auto simp: SubRequest_inv_def subq_clear_a_def subq_clear_b_def subq_has_a_def subq_has_b_def)

lemma SubRequest_merge_inv: "SubRequest_inv to \<Longrightarrow> SubRequest_inv from \<Longrightarrow> SubRequest_inv (SubRequest_MergeImpl rt to from)"
  by (auto simp: SubRequest_inv_def SubRequest_MergeImpl_def Let_def subq_has_a_def subq_has_b_def or_zero
      intro!: has_bits_or)

lemma SubRequest_default_inv: "SubRequest_inv (SubRequest_default rt)"
  by (simp add: SubRequest_inv_def SubRequest_default_def)

context pb_runtime_ok
begin

lemma SubRequest_copied:
  "SubRequest_inv this \<Longrightarrow> SubRequest_inv from \<Longrightarrow> SubRequest_CopyFrom rt False this from = from"
  using has_bits_cases [of "subq_has_bits from"]
  by (cases "from") (auto simp: SubRequest_CopyFrom_def SubRequest_cleared SubRequest_MergeImpl_def SubRequest_default_def SubRequest_inv_def
      subq_has_a_def subq_has_b_def merge_default Let_def)

end

section \<open>Properties of the messages\<close>

text \<open>
  Arguments and results survive the wire.  For every message of the service that keeps its
  presence invariant, parsing the encoding into an existing message gives back the message, presence
  bits included, so that a field that was set to zero comes back as set.
\<close>

theorem math_roundtrip:
  assumes "pb_runtime_ok rt" and "AddRequest_inv q0" and "AddRequest_inv q"
    and "addq_unknown q = unknown_default rt"
    and "AddResponse_inv r" and "addr_unknown r = unknown_default rt"
    and "SubRequest_inv s0" and "SubRequest_inv s" and "subq_unknown s = unknown_default rt"
    and "SubResponse_inv d" and "subr_unknown d = unknown_default rt"
  shows "AddRequest_ParseFromString rt q0 (AddRequest_InternalSerialize rt q) = Some (q, True)
    \<and> AddResponse_ParseFromString rt r0 (AddResponse_InternalSerialize rt r) = Some (r, True)
    \<and> SubRequest_ParseFromString rt s0 (SubRequest_InternalSerialize rt s) = Some (s, True)
    \<and> SubResponse_ParseFromString rt d0 (SubResponse_InternalSerialize rt d) = Some (d, True)"
  using pb_runtime_ok.AddRequest_reads_back [OF assms(1-4)]
    pb_runtime_ok.AddResponse_reads_back [OF assms(1,5,6)]
    pb_runtime_ok.SubRequest_reads_back [OF assms(1,7-9)]
    pb_runtime_ok.SubResponse_reads_back [OF assms(1,10,11)]
  by blast

definition sample_add :: "bytes AddRequest" where
  "sample_add = addq_set_b 0 (addq_set_a (- 5) (AddRequest_default varint_runtime))"

definition sample_sub :: "bytes SubRequest" where
  "sample_sub = subq_set_a 300 (SubRequest_default varint_runtime)"

lemma math_roundtrip_witness:
  "AddRequest_ParseFromString varint_runtime sample_add
     (AddRequest_InternalSerialize varint_runtime sample_add) = Some (sample_add, True)
   \<and> SubRequest_ParseFromString varint_runtime sample_sub
     (SubRequest_InternalSerialize varint_runtime sample_sub) = Some (sample_sub, True)"
proof -
  let ?rt = "varint_runtime"
  have a: "AddRequest_inv sample_add" "addq_unknown sample_add = unknown_default ?rt"
    by (simp_all add: sample_add_def addq_set_a_def addq_set_b_def AddRequest_default_def
        AddRequest_inv_def addq_has_a_def addq_has_b_def varint_runtime_def)
  have s: "SubRequest_inv sample_sub" "subq_unknown sample_sub = unknown_default ?rt"
    by (simp_all add: sample_sub_def subq_set_a_def SubRequest_default_def
        SubRequest_inv_def subq_has_a_def subq_has_b_def varint_runtime_def)
  have r: "AddResponse_inv (AddResponse_default ?rt)"
      "addr_unknown (AddResponse_default ?rt) = unknown_default ?rt"
    and d: "SubResponse_inv (SubResponse_default ?rt)"
      "subr_unknown (SubResponse_default ?rt) = unknown_default ?rt"
    by (simp_all add: AddResponse_default_def SubResponse_default_def AddResponse_inv_def
        SubResponse_inv_def)
  show ?thesis
    using math_roundtrip [OF vrt.pb_runtime_ok_axioms a(1) a r s(1) s d] by blast
qed

text \<open>
  Presence and value always agree.  Every operation of \<open>AddRequest\<close> (setters, field clears,
  merge, and the parser on arbitrary input, even when it fails) keeps the invariant that an absent
  field is zero; because of it \<open>Clear\<close>, which skips the fields when no presence bit is set, always
  ends in the default message, and \<open>CopyFrom\<close> always ends in a copy.
\<close>

theorem add_request_presence:
  assumes "pb_runtime_ok rt" and "AddRequest_inv m" and "AddRequest_inv m'"
  shows "AddRequest_inv (addq_set_a v m) \<and> AddRequest_inv (addq_set_b v m)
    \<and> AddRequest_inv (addq_clear_a m) \<and> AddRequest_inv (addq_clear_b m)
    \<and> AddRequest_inv (AddRequest_MergeImpl rt m m')
    \<and> (\<forall>n r. AddRequest_InternalParse rt m bs = Some (n, r) \<longrightarrow> AddRequest_inv n)
    \<and> AddRequest_Clear rt m = AddRequest_default rt
    \<and> AddRequest_CopyFrom rt False m m' = m'"
  using assms AddRequest_set_inv AddRequest_clear_field_inv AddRequest_merge_inv AddRequest_parse_inv
    pb_runtime_ok.AddRequest_cleared pb_runtime_ok.AddRequest_copied
  by (metis addq_set_a_def addq_set_b_def)

lemma add_request_presence_witness:
  "AddRequest_inv sample_add
   \<and> AddRequest_Clear varint_runtime sample_add = AddRequest_default varint_runtime"
proof -
  have a: "AddRequest_inv sample_add"
    by (simp add: sample_add_def addq_set_a_def addq_set_b_def AddRequest_default_def
        AddRequest_inv_def addq_has_a_def addq_has_b_def)
  with add_request_presence [OF vrt.pb_runtime_ok_axioms a a] show ?thesis by blast
qed

end
