(* ===== verification/Load_Balancer.thy ===== *)
theory Load_Balancer
  imports Rpc_Prelude "HOL-Library.Multiset"
begin

text \<open>
  The load balancer of \<^verbatim>\<open>src/rpc/load_balancer.h\<close>.  The round-robin counter is a 32-bit atomic that
  wraps; a concurrent use of \<open>select\<close> is some sequence of its atomic \<open>fetch_add\<close> steps.  The random
  generator and its distribution belong to the C++ library: the state of the generator is a type
  parameter, and a draw from \<open>uniform_int_distribution(0, n - 1)\<close> is an argument.
\<close>

datatype LoadBalanceType = ROUND_ROBIN | RANDOM

record 'g LoadBalancer =
  lb_type :: LoadBalanceType
  lb_index :: uint32
  lb_rng :: 'g

definition LoadBalancer_new :: "LoadBalanceType \<Rightarrow> 'g \<Rightarrow> 'g LoadBalancer" where
  "LoadBalancer_new t seed = \<lparr>lb_type = t, lb_index = 0, lb_rng = seed\<rparr>"

definition select ::
  "('g \<Rightarrow> nat \<Rightarrow> nat \<times> 'g) \<Rightarrow> 'g LoadBalancer \<Rightarrow> string list \<Rightarrow> string \<times> 'g LoadBalancer" where
  "select draw lb addresses =
     (if addresses = [] then ('''', lb)
      else if lb_type lb = ROUND_ROBIN
      then (let idx = unat (lb_index lb) mod length addresses
            in (addresses ! idx, lb\<lparr>lb_index := lb_index lb + 1\<rparr>))
      else (case draw (lb_rng lb) (length addresses) of
              (i, g) \<Rightarrow> (addresses ! i, lb\<lparr>lb_rng := g\<rparr>)))"

text \<open>A run of calls with the same address list: the picks in order, and the balancer afterwards.\<close>

fun picks ::
  "('g \<Rightarrow> nat \<Rightarrow> nat \<times> 'g) \<Rightarrow> nat \<Rightarrow> 'g LoadBalancer \<Rightarrow> string list \<Rightarrow> string list" where
  "picks draw 0 lb addresses = []"
| "picks draw (Suc k) lb addresses =
     (case select draw lb addresses of (a, lb') \<Rightarrow> a # picks draw k lb' addresses)"

section \<open>Lemmas\<close>

lemma select_round_robin:
  "addresses \<noteq> [] \<Longrightarrow> lb_type lb = ROUND_ROBIN \<Longrightarrow>
   select draw lb addresses
     = (addresses ! (unat (lb_index lb) mod length addresses), lb\<lparr>lb_index := lb_index lb + 1\<rparr>)"
  by (simp add: select_def Let_def)

lemma length_picks [simp]: "length (picks draw k lb addresses) = k"
  by (induction k arbitrary: lb) (simp_all split: prod.splits)

lemma picks_nth:
  assumes "addresses \<noteq> []" and "lb_type lb = ROUND_ROBIN" and "j < k"
  shows "picks draw k lb addresses ! j
       = addresses ! (unat (lb_index lb + word_of_nat j) mod length addresses)"
  using assms(2,3)
proof (induction k arbitrary: lb j)
  case 0
  then show ?case by simp
next
  case (Suc k)
  show ?case
  proof (cases j)
    case 0
    with Suc.prems assms(1) show ?thesis by (simp add: select_round_robin)
  next
    case (Suc i)
    with Suc.prems assms(1) Suc.IH [of "lb\<lparr>lb_index := lb_index lb + 1\<rparr>" i] show ?thesis
      by (simp add: select_round_robin add.assoc)
  qed
qed

section \<open>Properties of the balancer\<close>

text \<open>
  A selection is one of the given addresses, under both strategies, provided the library draws
  inside the range it is asked for; with no address the result is the empty string and the balancer
  is unchanged.
\<close>

theorem select_member:
  assumes "\<And>g n. 0 < n \<Longrightarrow> fst (draw g n) < n"
  shows "(addresses \<noteq> [] \<longrightarrow> fst (select draw lb addresses) \<in> set addresses)
       \<and> (addresses = [] \<longrightarrow> select draw lb addresses = ('''', lb))"
  using assms [of "length addresses" "lb_rng lb"]
  by (auto simp: select_def Let_def split: prod.splits)

lemma select_member_witness:
  "fst (select (\<lambda>g n. (g mod n, Suc g)) (LoadBalancer_new RANDOM 7) [''a'', ''b'']) \<in> {''a'', ''b''}
   \<and> fst (select (\<lambda>g n. (g mod n, Suc g)) (LoadBalancer_new RANDOM 7) [''a'', ''b'']) = ''b''"
proof -
  have "\<And>g n. 0 < n \<Longrightarrow> fst (g mod n, Suc g) < n" by simp
  then have "fst (select (\<lambda>g n. (g mod n, Suc g)) (LoadBalancer_new RANDOM 7) [''a'', ''b''])
      \<in> {''a'', ''b''}"
    using select_member [where draw = "\<lambda>g n. (g mod n, Suc g)" and addresses = "[''a'', ''b'']"
        and lb = "LoadBalancer_new RANDOM 7"] by simp
  moreover have "fst (select (\<lambda>g n. (g mod n, Suc g)) (LoadBalancer_new RANDOM 7) [''a'', ''b''])
      = ''b''"
    by code_simp
  ultimately show ?thesis by blast
qed

text \<open>
  C32: round robin is fair.  From any counter value that does not wrap meanwhile, the next \<open>n\<close> picks
  among \<open>n\<close> addresses are the address list rotated to the counter, so every address is taken exactly
  once.
\<close>

theorem round_robin_fair:
  assumes "addresses \<noteq> []" and "lb_type lb = ROUND_ROBIN"
    and "unat (lb_index lb) + length addresses \<le> 2 ^ 32"
  shows "picks draw (length addresses) lb addresses = rotate (unat (lb_index lb)) addresses
       \<and> mset (picks draw (length addresses) lb addresses) = mset addresses"
proof -
  let ?n = "length addresses" and ?i = "unat (lb_index lb)"
  have "picks draw ?n lb addresses ! j = rotate ?i addresses ! j" if "j < ?n" for j
  proof -
    have "?i + j < 2 ^ 32" using assms(3) that by simp
    then have "unat (lb_index lb + word_of_nat j) = ?i + j"
      using that by (simp add: unat_word_ariths unat_of_nat)
    then show ?thesis
      using picks_nth [OF assms(1,2) that, of draw] that by (simp add: nth_rotate)
  qed
  then have "picks draw ?n lb addresses = rotate ?i addresses"
    by (intro nth_equalityI) simp_all
  then show ?thesis by (simp add: rotate_drop_take flip: mset_append add.commute)
      (metis append_take_drop_id mset_append add.commute)
qed

lemma round_robin_fair_witness:
  "picks (\<lambda>g n. (0, g)) 3 ((LoadBalancer_new ROUND_ROBIN ())\<lparr>lb_index := 4\<rparr>) [''a'', ''b'', ''c'']
     = [''b'', ''c'', ''a'']"
proof -
  let ?lb = "(LoadBalancer_new ROUND_ROBIN ())\<lparr>lb_index := 4\<rparr>"
  have len: "length [''a'', ''b'', ''c''] = 3" by simp
  have "unat (lb_index ?lb) + 3 \<le> 2 ^ 32" and "lb_type ?lb = ROUND_ROBIN"
    by (simp_all add: LoadBalancer_new_def)
  then have "picks (\<lambda>g n. (0, g)) 3 ?lb [''a'', ''b'', ''c'']
      = rotate (unat (lb_index ?lb)) [''a'', ''b'', ''c'']"
    using round_robin_fair [of "[''a'', ''b'', ''c'']" ?lb "\<lambda>g n. (0, g)"] unfolding len by blast
  then show ?thesis by (simp add: rotate_drop_take)
qed

text \<open>
  The wrap of the 32-bit counter disturbs the rotation exactly when the number of addresses
  does not divide \<open>2 ^ 32\<close>: the pick after the wrap is the first address again, while the rotation
  would continue at \<open>2 ^ 32 mod n\<close>.
\<close>

theorem round_robin_wrap:
  assumes "addresses \<noteq> []" and "distinct addresses" and "lb_type lb = ROUND_ROBIN"
    and "lb_index lb = - 1"
  shows "picks draw 2 lb addresses
         = [addresses ! ((2 ^ 32 - 1) mod length addresses), addresses ! 0]
     \<and> (addresses ! 0 = addresses ! (2 ^ 32 mod length addresses) \<longleftrightarrow> length addresses dvd 2 ^ 32)"
proof -
  let ?n = "length addresses"
  have p: "picks draw 2 lb addresses = [addresses ! ((2 ^ 32 - 1) mod ?n), addresses ! 0]"
  proof -
    have "unat (- 1 :: uint32) = 2 ^ 32 - 1"
      by (simp add: unsigned_minus_1_eq_mask mask_eq_exp_minus_1)
    then have "picks draw (Suc (Suc 0)) lb addresses
        = [addresses ! ((2 ^ 32 - 1) mod ?n), addresses ! 0]"
      using assms(1,3,4) by (simp add: select_round_robin)
    then show ?thesis by (simp only: numeral_2_eq_2 [symmetric])
  qed
  have "addresses ! 0 = addresses ! (2 ^ 32 mod ?n) \<longleftrightarrow> 0 = 2 ^ 32 mod ?n"
    using assms(1,2) by (intro nth_eq_iff_index_eq) simp_all
  with p show ?thesis by (auto simp: dvd_eq_mod_eq_0)
qed

lemma round_robin_wrap_witness:
  "picks (\<lambda>g n. (0, g)) 2 ((LoadBalancer_new ROUND_ROBIN ())\<lparr>lb_index := - 1\<rparr>) [''a'', ''b'', ''c'']
     = [''a'', ''a'']"
proof -
  let ?lb = "(LoadBalancer_new ROUND_ROBIN ())\<lparr>lb_index := - 1\<rparr>"
  have "distinct [''a'', ''b'', ''c'']" "lb_index ?lb = - 1" "lb_type ?lb = ROUND_ROBIN"
    by (simp_all add: LoadBalancer_new_def)
  from round_robin_wrap [OF _ this(1,3,2), of "\<lambda>g n. (0, g)"] show ?thesis by simp
qed

end
