(* ===== verification/Custom_Controller.thy ===== *)
theory Custom_Controller
  imports Rpc_Prelude
begin

text \<open>
  The RPC controller of \<^verbatim>\<open>src/rpc/custom_controller.h\<close>: the failure state and the settings of a call.
\<close>

record CustomController =
  failed :: bool
  errText :: string
  timeoutMs :: int
  maxRetries :: int
  idempotent :: bool

definition CustomController_new :: CustomController where
  "CustomController_new =
     \<lparr>failed = False, errText = [], timeoutMs = 3000, maxRetries = 2, idempotent = True\<rparr>"

definition Reset :: "CustomController \<Rightarrow> CustomController" where
  "Reset c = c\<lparr>failed := False, errText := []\<rparr>"

definition SetFailed :: "string \<Rightarrow> CustomController \<Rightarrow> CustomController" where
  "SetFailed reason c = c\<lparr>failed := True, errText := reason\<rparr>"

definition StartCancel :: "CustomController \<Rightarrow> CustomController" where
  "StartCancel c = c"

definition IsCanceled :: "CustomController \<Rightarrow> bool" where
  "IsCanceled c = False"

definition setTimeoutMs :: "int \<Rightarrow> CustomController \<Rightarrow> CustomController" where
  "setTimeoutMs ms c = c\<lparr>timeoutMs := ms\<rparr>"

definition setMaxRetries :: "int \<Rightarrow> CustomController \<Rightarrow> CustomController" where
  "setMaxRetries n c = c\<lparr>maxRetries := n\<rparr>"

definition setIdempotent :: "bool \<Rightarrow> CustomController \<Rightarrow> CustomController" where
  "setIdempotent v c = c\<lparr>idempotent := v\<rparr>"

lemma controller_simps [simp]:
  "failed (Reset c) = False" "errText (Reset c) = []"
  "failed (SetFailed r c) = True" "errText (SetFailed r c) = r"
  "Reset (SetFailed r c) = Reset c" "Reset (Reset c) = Reset c"
  "SetFailed r (SetFailed r' c) = SetFailed r c" "SetFailed r (Reset c) = SetFailed r c"
  "timeoutMs (Reset c) = timeoutMs c" "timeoutMs (SetFailed r c) = timeoutMs c"
  "maxRetries (Reset c) = maxRetries c" "maxRetries (SetFailed r c) = maxRetries c"
  "idempotent (Reset c) = idempotent c" "idempotent (SetFailed r c) = idempotent c"
  by (simp_all add: Reset_def SetFailed_def)

end
