(* ===== verification/Registry_Center.thy ===== *)
theory Registry_Center
  imports Rpc_Prelude "HOL-Library.List_Lexorder" "HOL-Library.Char_ord"
begin

text \<open>
  The registry: the class \<open>RegistryCenter\<close> of \<^verbatim>\<open>src/rpc/registry_center.cpp\<close> and the two HTTP handlers of
  \<^verbatim>\<open>src/registry_center_main.cpp\<close>.  Every method runs under the mutex, so a concurrent use is some
  sequence of the methods.  The JSON library is a parameter: a parser, whose outcomes are a value and the
  exceptions it documents, and a printer.  The locale \<open>service_directory\<close> is the contract of the registry as a relation
  between service names and addresses.
\<close>

section \<open>RegistryCenter\<close>

type_synonym services = "string \<rightharpoonup> string set"

text \<open>\<open>services_[service].insert(address)\<close>: indexing creates an empty set for a new name.\<close>

definition registerService :: "string \<Rightarrow> string \<Rightarrow> services \<Rightarrow> services" where
  "registerService service address c =
     (let c1 = (case c service of None \<Rightarrow> c(service \<mapsto> {}) | Some _ \<Rightarrow> c)
      in c1(service \<mapsto> insert address (the (c1 service))))"

definition unregisterService :: "string \<Rightarrow> string \<Rightarrow> services \<Rightarrow> services" where
  "unregisterService service address c =
     (case c service of
        None \<Rightarrow> c
      | Some s \<Rightarrow>
          (let s' = s - {address}
           in if s' = {} then c(service := None) else c(service \<mapsto> s')))"

definition discover :: "string \<Rightarrow> services \<Rightarrow> string set" where
  "discover service c = (case c service of Some s \<Rightarrow> s | None \<Rightarrow> {})"

section \<open>The HTTP handlers\<close>

text \<open>
  JSON values as far as the program looks into them; \<open>JOther\<close> is a number, a boolean or null.
\<close>

datatype json = JString string | JArray "json list" | JObject "(string \<times> json) list" | JOther

fun json_contains :: "json \<Rightarrow> string \<Rightarrow> bool" where
  "json_contains (JObject kvs) k = (map_of kvs k \<noteq> None)"
| "json_contains _ k = False"

fun json_at :: "json \<Rightarrow> string \<Rightarrow> json" where
  "json_at (JObject kvs) k = (case map_of kvs k of Some v \<Rightarrow> v | None \<Rightarrow> JOther)"
| "json_at _ k = JOther"

fun is_string :: "json \<Rightarrow> bool" where
  "is_string (JString s) = True"
| "is_string _ = False"

fun the_string :: "json \<Rightarrow> string" where
  "the_string (JString s) = s"
| "the_string _ = []"

text \<open>
  What \<open>json::parse\<close> does: it returns a value, throws \<open>parse_error\<close>, or throws \<open>out_of_range\<close>, for a number
  that overflows.
\<close>

datatype json_parse = JsonValue json | ParseError | OutOfRange

type_synonym json_parser = "string \<Rightarrow> json_parse"

text \<open>A response: the status the handler sets (none means 200 is sent) and the JSON body.\<close>

record http_response =
  status :: "int option"
  content :: string

definition http_reply :: "string \<Rightarrow> http_response" where
  "http_reply body = \<lparr>status = None, content = body\<rparr>"

definition http_error :: "string \<Rightarrow> http_response" where
  "http_error body = \<lparr>status = Some 400, content = body\<rparr>"

definition sent_status :: "http_response \<Rightarrow> int" where
  "sent_status r = (case status r of None \<Rightarrow> 200 | Some s \<Rightarrow> s)"

text \<open>
  A handler whose exception escapes (\<open>None\<close>) leaves the response to the HTTP library, which documents the
  status 500 for it.
\<close>

definition library_reply :: "http_response option \<Rightarrow> http_response" where
  "library_reply r = (case r of Some res \<Rightarrow> res | None \<Rightarrow> \<lparr>status = Some 500, content = []\<rparr>)"

lemma library_reply_simps [simp]: "library_reply (Some res) = res" "sent_status (library_reply None) = 500"
  by (simp_all add: library_reply_def sent_status_def)

text \<open>The handler of \<open>POST /register\<close>; it catches \<open>parse_error\<close> only.\<close>

definition post_register :: "json_parser \<Rightarrow> string \<Rightarrow> services \<Rightarrow> services \<times> http_response option" where
  "post_register parse body center =
     (case parse body of
        OutOfRange \<Rightarrow> (center, None)
      | ParseError \<Rightarrow> (center, Some (http_error ''{\"error\":\"invalid JSON\"}''))
      | JsonValue j \<Rightarrow>
          if \<not> json_contains j ''service'' \<or> \<not> json_contains j ''address''
             \<or> \<not> is_string (json_at j ''service'') \<or> \<not> is_string (json_at j ''address'')
          then (center, Some (http_error ''{\"error\":\"missing fields\"}''))
          else let service = the_string (json_at j ''service'');
                   address = the_string (json_at j ''address'')
               in if service = [] \<or> address = []
                  then (center, Some (http_error ''{\"error\":\"empty values\"}''))
                  else (registerService service address center, Some (http_reply ''{\"status\":\"ok\"}'')))"

text \<open>
  The handler of \<open>GET /discover\<close>; the argument is \<open>req.get_param_value("service")\<close>, empty if the
  parameter is missing.  The set is printed as an array in ascending order.
\<close>

definition get_discover :: "(json \<Rightarrow> string) \<Rightarrow> string \<Rightarrow> services \<Rightarrow> http_response" where
  "get_discover dump service center =
     (if service = [] then http_error ''{\"error\":\"missing service param\"}''
      else let addrs = discover service center
           in http_reply (dump (JArray (map JString (sorted_list_of_set addrs)))))"

section \<open>The contract of a directory\<close>

text \<open>The registry keeps no name without an address, and finitely many addresses per name.\<close>

definition center_inv :: "services \<Rightarrow> bool" where
  "center_inv c \<longleftrightarrow> (\<forall>s A. c s = Some A \<longrightarrow> A \<noteq> {} \<and> finite A)"

text \<open>The operations of a history that concern one pair: registration or deregistration, in order.\<close>

definition ops_about :: "'s \<Rightarrow> 'a \<Rightarrow> ('s \<times> 'a \<times> bool) list \<Rightarrow> bool list" where
  "ops_about s a h = map (\<lambda>(t, b, up). up) (filter (\<lambda>(t, b, up). t = s \<and> b = a) h)"

lemma ops_about_simps [simp]:
  "ops_about s a [] = []"
  "ops_about s a (h @ [(t, b, up)]) = ops_about s a h @ (if t = s \<and> b = a then [up] else [])"
  by (simp_all add: ops_about_def)

locale service_directory =
  fixes inv :: "'c \<Rightarrow> bool"
    and entries :: "'c \<Rightarrow> ('s \<times> 'a) set"
    and reg :: "'s \<Rightarrow> 'a \<Rightarrow> 'c \<Rightarrow> 'c"
    and unreg :: "'s \<Rightarrow> 'a \<Rightarrow> 'c \<Rightarrow> 'c"
    and disc :: "'s \<Rightarrow> 'c \<Rightarrow> 'a set"
    and start :: 'c
  assumes inv_start: "inv start"
    and inv_reg: "inv c \<Longrightarrow> inv (reg s a c)"
    and inv_unreg: "inv c \<Longrightarrow> inv (unreg s a c)"
    and entries_start: "entries start = {}"
    and entries_reg: "entries (reg s a c) = insert (s, a) (entries c)"
    and entries_unreg: "entries (unreg s a c) = entries c - {(s, a)}"
    and disc_entries: "disc s c = {a. (s, a) \<in> entries c}"
begin

lemma disc_reg: "disc s (reg t a c) = (if s = t then insert a (disc s c) else disc s c)"
  by (auto simp: disc_entries entries_reg)

lemma disc_unreg: "disc s (unreg t a c) = (if s = t then disc s c - {a} else disc s c)"
  by (auto simp: disc_entries entries_unreg)

text \<open>Registering and unregistering an absent pair brings the entries back.\<close>

lemma reg_unreg: "(s, a) \<notin> entries c \<Longrightarrow> entries (unreg s a (reg s a c)) = entries c"
  by (simp add: entries_reg entries_unreg)

text \<open>A history of registrations and deregistrations; the last one about a pair counts.\<close>

definition replay :: "('s \<times> 'a \<times> bool) list \<Rightarrow> 'c" where
  "replay h = fold (\<lambda>(s, a, up) c. if up then reg s a c else unreg s a c) h start"

lemma inv_replay: "inv (replay h)"
proof -
  have "inv c \<Longrightarrow> inv (fold (\<lambda>(s, a, up) c. if up then reg s a c else unreg s a c) h c)" for c
    by (induction h arbitrary: c) (auto simp: inv_reg inv_unreg)
  then show ?thesis by (simp add: replay_def inv_start)
qed

lemma entries_replay:
  "(s, a) \<in> entries (replay h)
     \<longleftrightarrow> ops_about s a h \<noteq> [] \<and> last (ops_about s a h)"
proof (induction h rule: rev_induct)
  case Nil
  then show ?case by (simp add: replay_def entries_start)
next
  case (snoc x h)
  obtain t b up where x: "x = (t, b, up)" by (cases x)
  have "replay (h @ [x]) = (if up then reg t b (replay h) else unreg t b (replay h))"
    by (simp add: replay_def x)
  with snoc show ?case
    by (auto simp: entries_reg entries_unreg x Let_def)
qed

end

definition center_entries :: "services \<Rightarrow> (string \<times> string) set" where
  "center_entries c = {(s, a). \<exists>A. c s = Some A \<and> a \<in> A}"

interpretation rcenter: service_directory center_inv center_entries registerService unregisterService
  discover Map.empty
proof
  show "center_inv Map.empty" by (simp add: center_inv_def)
  show "center_entries Map.empty = {}" by (simp add: center_entries_def)
next
  fix c s a
  assume "center_inv c"
  then show "center_inv (registerService s a c)"
    by (auto simp: center_inv_def registerService_def Let_def split: option.splits if_splits)
  from \<open>center_inv c\<close> show "center_inv (unregisterService s a c)"
    by (auto simp: center_inv_def unregisterService_def Let_def split: option.splits if_splits)
next
  fix c s a
  show "center_entries (registerService s a c) = insert (s, a) (center_entries c)"
    by (auto simp: center_entries_def registerService_def Let_def split: option.splits if_splits)
  show "center_entries (unregisterService s a c) = center_entries c - {(s, a)}"
    by (auto simp: center_entries_def unregisterService_def Let_def split: option.splits if_splits)
  show "discover s c = {a. (s, a) \<in> center_entries c}"
    by (auto simp: center_entries_def discover_def split: option.splits)
qed

section \<open>Properties of the registry\<close>

text \<open>
  C29: the registry answers with the live registrations.  After any history of registrations and
  deregistrations, \<open>discover\<close> returns an address for a service exactly if the last operation about
  that pair was a registration, and no name is kept without an address.
\<close>

theorem discover_after_history:
  "let c = fold (\<lambda>(s, a, up) c. if up then registerService s a c else unregisterService s a c) h Map.empty
   in center_inv c
    \<and> (a \<in> discover s c
       \<longleftrightarrow> ops_about s a h \<noteq> [] \<and> last (ops_about s a h))"
  using rcenter.inv_replay [of h] rcenter.entries_replay [of s a h]
  by (simp add: rcenter.replay_def rcenter.disc_entries Let_def)

lemma discover_reg [simp]:
  "discover s (registerService t a c) = (if s = t then insert a (discover s c) else discover s c)"
  by (rule rcenter.disc_reg)

text \<open>
  C33: the register handler accepts exactly the well-formed requests.  It answers 200 and registers
  the pair if the body is an object whose \<open>service\<close> and \<open>address\<close> are non-empty strings; every other
  body leaves the registry as it was.  It gets 400, also if it is not JSON, except for a body with a number
  that overflows: that exception is not caught, and the client sees 500.
\<close>

theorem post_register_spec:
  "let (c', r) = post_register parse body c; code = sent_status (library_reply r);
       ok = (\<exists>kvs svc addr. parse body = JsonValue (JObject kvs)
               \<and> map_of kvs ''service'' = Some (JString svc)
               \<and> map_of kvs ''address'' = Some (JString addr) \<and> svc \<noteq> [] \<and> addr \<noteq> []
               \<and> c' = registerService svc addr c)
   in (code = 200 \<longleftrightarrow> ok) \<and> (code = 500 \<longleftrightarrow> r = None) \<and> (r = None \<longleftrightarrow> parse body = OutOfRange)
      \<and> (code \<noteq> 200 \<longrightarrow> (code = 400 \<or> code = 500) \<and> c' = c)"
proof (cases "parse body")
  case (JsonValue j)
  show ?thesis
  proof (cases j)
    case (JObject kvs)
    with JsonValue show ?thesis
      by (auto simp: post_register_def http_error_def http_reply_def sent_status_def Let_def
          split: option.splits json.splits elim!: is_string.elims)
  qed (simp_all add: JsonValue post_register_def http_error_def sent_status_def)
qed (simp_all add: post_register_def http_error_def library_reply_def sent_status_def)

lemma post_register_spec_witness:
  "sent_status (library_reply (snd (post_register
     (\<lambda>_. JsonValue (JObject [(''service'', JString ''M''), (''address'', JString ''A'')])) [] Map.empty))) = 200
   \<and> sent_status (library_reply (snd (post_register (\<lambda>_. OutOfRange) [] Map.empty))) = 500"
  using post_register_spec [of "\<lambda>_. OutOfRange" "[]" Map.empty] post_register_spec
    [of "\<lambda>_. JsonValue (JObject [(''service'', JString ''M''), (''address'', JString ''A'')])" "[]" Map.empty]
  by (simp add: post_register_def http_reply_def sent_status_def Let_def)

end
