(* ===== verification/Registry_Client.thy ===== *)
theory Registry_Client
  imports Registry_Center
begin

text \<open>
  The discovery client of \<^verbatim>\<open>src/rpc/registry_client.cpp\<close>: an in-memory cache with time stamps, HTTP
  requests with retries, and a cache file per service.  The state is the cache and the file system;
  the answers of the HTTP library, the clock readings and whether a file can be read, written or renamed are
  arguments.  The JSON parser is the parameter of \<open>Registry_Center\<close>.
\<close>

section \<open>The class\<close>

text \<open>Time points of the steady clock, in nanoseconds.\<close>

type_synonym time = int

record CacheItem =
  addrs :: "string list"
  timestamp :: time

record RegistryClient =
  cache :: "string \<rightharpoonup> CacheItem"
  disk :: "string \<rightharpoonup> string"
  registryAddr :: string
  registryPort :: uint16
  cacheExpire :: int
  retryTimes :: int

definition RegistryClient_new ::
  "(string \<rightharpoonup> string) \<Rightarrow> string \<Rightarrow> uint16 \<Rightarrow> int \<Rightarrow> int \<Rightarrow> RegistryClient" where
  "RegistryClient_new files addr port expire retries =
     \<lparr>cache = Map.empty, disk = files, registryAddr = addr, registryPort = port,
      cacheExpire = expire, retryTimes = retries\<rparr>"

text \<open>\<open>duration_cast<seconds>\<close> truncates towards zero.\<close>

definition to_seconds :: "int \<Rightarrow> int" where
  "to_seconds ns = sgn ns * (\<bar>ns\<bar> div 1000000000)"

text \<open>An HTTP attempt: no response, or a status and a body.\<close>

type_synonym http_result = "(int \<times> string) option"

text \<open>\<open>httpClient_->Get(path)\<close>: the answer to the request for a path, per attempt of the retry loop.\<close>

type_synonym http_get = "string \<Rightarrow> int \<Rightarrow> http_result"

text \<open>
  \<open>arr.get<std::vector<std::string>>()\<close>: a \<open>type_error\<close> if an element is not a string.  The handler of
  the caller catches \<open>parse_error\<close> only: this exception and \<open>out_of_range\<close> leave the function.
\<close>

datatype fetch_result = Fetched "string list" | TypeError | NumberOverflow

definition get_strings :: "json list \<Rightarrow> fetch_result" where
  "get_strings js = (if list_all is_string js then Fetched (map the_string js) else TypeError)"

text \<open>
  The retry loop from attempt \<open>i\<close>.  The result carries the number of requests and of pauses of
  100 ms; the \<open>continue\<close> branches skip the pause.
\<close>

function fetch_loop ::
  "json_parser \<Rightarrow> (int \<Rightarrow> http_result) \<Rightarrow> int \<Rightarrow> int \<Rightarrow> nat \<Rightarrow> nat
     \<Rightarrow> fetch_result \<times> nat \<times> nat" where
  "fetch_loop parse http retries i requests sleeps =
     (if i \<le> retries
      then (case http i of
              Some (code, body) \<Rightarrow>
                if code = 200
                then (case parse body of
                        ParseError \<Rightarrow> fetch_loop parse http retries (i + 1) (Suc requests) sleeps
                      | OutOfRange \<Rightarrow> (NumberOverflow, Suc requests, sleeps)
                      | JsonValue (JArray js) \<Rightarrow> (get_strings js, Suc requests, sleeps)
                      | JsonValue _ \<Rightarrow> fetch_loop parse http retries (i + 1) (Suc requests) sleeps)
                else fetch_loop parse http retries (i + 1) (Suc requests) (Suc sleeps)
            | None \<Rightarrow> fetch_loop parse http retries (i + 1) (Suc requests) (Suc sleeps))
      else (Fetched [], requests, sleeps))"
  by pat_completeness auto
termination
  by (relation "measure (\<lambda>(parse, http, retries, i, requests, sleeps). nat (retries + 1 - i))") auto

declare fetch_loop.simps [simp del]

definition discover_path :: "string \<Rightarrow> string" where
  "discover_path service = ''/discover?service='' @ service"

definition fetchFromRegistry ::
  "json_parser \<Rightarrow> http_get \<Rightarrow> string \<Rightarrow> RegistryClient \<Rightarrow> fetch_result \<times> nat \<times> nat" where
  "fetchFromRegistry parse http service rc =
     fetch_loop parse (http (discover_path service)) (retryTimes rc) 0 0 0"

text \<open>\<open>std::getline\<close> in a loop: the lines of a text; a text that ends with a newline has no last line.\<close>

fun getlines :: "string \<Rightarrow> string \<Rightarrow> string list" where
  "getlines line [] = (if line = [] then [] else [line])"
| "getlines line (c # cs) =
     (if c = CHR 0x0A then line # getlines [] cs else getlines (line @ [c]) cs)"

definition cache_file :: "string \<Rightarrow> string" where
  "cache_file service = service @ ''_cache.txt''"

text \<open>\<open>can_read\<close> says whether the file, if it exists, can be opened.\<close>

definition loadFromDisk :: "bool \<Rightarrow> string \<Rightarrow> RegistryClient \<Rightarrow> string list" where
  "loadFromDisk can_read service rc =
     (case disk rc (cache_file service) of
        None \<Rightarrow> []
      | Some text \<Rightarrow> if \<not> can_read then [] else filter (\<lambda>line. line \<noteq> []) (getlines [] text))"

text \<open>
  \<open>saveToDisk\<close> writes a temporary file and renames it; \<open>can_open\<close> and \<open>can_rename\<close> say whether the two
  calls succeed.
\<close>

definition saveToDisk ::
  "bool \<Rightarrow> bool \<Rightarrow> string \<Rightarrow> string list \<Rightarrow> RegistryClient \<Rightarrow> RegistryClient" where
  "saveToDisk can_open can_rename service as rc =
     (let filename = cache_file service;
          tmpFile = filename @ ''.tmp''
      in if \<not> can_open then rc
         else let text = concat (map (\<lambda>addr. addr @ [CHR 0x0A]) as);
                  d1 = (disk rc)(tmpFile \<mapsto> text)
              in if can_rename then rc\<lparr>disk := (d1(filename \<mapsto> text))(tmpFile := None)\<rparr>
                 else rc\<lparr>disk := d1\<rparr>)"

definition put_cache :: "string \<Rightarrow> string list \<Rightarrow> time \<Rightarrow> RegistryClient \<Rightarrow> RegistryClient" where
  "put_cache service as now rc =
     rc\<lparr>cache := (cache rc)(service \<mapsto> \<lparr>addrs = as, timestamp = now\<rparr>)\<rparr>"

text \<open>The outcome of a lookup: addresses, or the escaping exception; and the number of requests sent.\<close>

datatype lookup_result = Addresses "string list" | Threw

definition getAddresses ::
  "json_parser \<Rightarrow> http_get \<Rightarrow> bool \<Rightarrow> bool \<Rightarrow> bool \<Rightarrow> time \<Rightarrow> time \<Rightarrow> string
     \<Rightarrow> RegistryClient \<Rightarrow> lookup_result \<times> nat \<times> RegistryClient" where
  "getAddresses parse http can_read can_open can_rename now now' service rc =
     (let fresh = (case cache rc service of
                     None \<Rightarrow> None
                   | Some item \<Rightarrow>
                       if to_seconds (now - timestamp item) < cacheExpire rc then Some (addrs item)
                       else None)
      in case fresh of
           Some as \<Rightarrow> (Addresses as, 0, rc)
         | None \<Rightarrow>
             (case fetchFromRegistry parse http service rc of
                (TypeError, requests, _) \<Rightarrow> (Threw, requests, rc)
              | (NumberOverflow, requests, _) \<Rightarrow> (Threw, requests, rc)
              | (Fetched as, requests, _) \<Rightarrow>
                  if as \<noteq> []
                  then (Addresses as, requests,
                        put_cache service as now' (saveToDisk can_open can_rename service as rc))
                  else let as' = loadFromDisk can_read service rc
                       in (Addresses as', requests, put_cache service as' now' rc)))"

section \<open>The retry loop\<close>

text \<open>A usable answer: status 200 with a JSON array.\<close>

definition usable :: "json_parser \<Rightarrow> http_result \<Rightarrow> json list option" where
  "usable parse r =
     (case r of
        None \<Rightarrow> None
      | Some (code, body) \<Rightarrow>
          if code = 200 then (case parse body of JsonValue (JArray js) \<Rightarrow> Some js | _ \<Rightarrow> None) else None)"

text \<open>An answer the loop passes over: none, another status, no JSON, or no array.\<close>

definition skipped :: "json_parser \<Rightarrow> http_result \<Rightarrow> bool" where
  "skipped parse r =
     (case r of
        None \<Rightarrow> True
      | Some (code, body) \<Rightarrow>
          code \<noteq> 200 \<or> (case parse body of
            ParseError \<Rightarrow> True | OutOfRange \<Rightarrow> False | JsonValue (JArray js) \<Rightarrow> False | JsonValue _ \<Rightarrow> True))"

lemma fetch_step_skipped:
  assumes "i \<le> n" and "skipped parse (http i)"
  shows "\<exists>s'. fetch_loop parse http n i q s = fetch_loop parse http n (i + 1) (Suc q) s' \<and> s' \<le> Suc s"
  using assms
  by (subst fetch_loop.simps)
    (auto simp: skipped_def split: option.splits if_splits json.splits json_parse.splits
      intro: exI [of _ s] exI [of _ "Suc s"])

lemma fetch_step_usable:
  assumes "i \<le> n" and "usable parse (http i) = Some js"
  shows "fetch_loop parse http n i q s = (get_strings js, Suc q, s)"
  using assms
  by (subst fetch_loop.simps) (auto simp: usable_def split: option.splits if_splits json.splits json_parse.splits)

text \<open>The third outcome: the parser throws an exception the function does not catch.\<close>

lemma fetch_step_throws:
  assumes "i \<le> n" and "\<not> skipped parse (http i)" and "usable parse (http i) = None"
  shows "fetch_loop parse http n i q s = (NumberOverflow, Suc q, s)"
  using assms
  by (subst fetch_loop.simps)
    (auto simp: usable_def skipped_def split: option.splits if_splits json.splits json_parse.splits)

lemma fetch_exhausted:
  assumes "\<forall>j. i \<le> j \<and> j \<le> n \<longrightarrow> skipped parse (http j)" and "i \<le> n + 1"
  shows "\<exists>s'. fetch_loop parse http n i q s = (Fetched [], q + nat (n + 1 - i), s')"
  using assms
proof (induction "nat (n + 1 - i)" arbitrary: i q s)
  case 0
  then show ?case by (subst fetch_loop.simps) simp
next
  case (Suc k)
  then have "i \<le> n" and u: "skipped parse (http i)" by auto
  then obtain s1 where s1: "fetch_loop parse http n i q s = fetch_loop parse http n (i + 1) (Suc q) s1"
    using fetch_step_skipped by blast
  have "\<exists>s'. fetch_loop parse http n (i + 1) (Suc q) s1 = (Fetched [], Suc q + nat (n + 1 - (i + 1)), s')"
    using Suc.hyps(2) Suc.prems \<open>i \<le> n\<close> by (intro Suc.hyps(1)) auto
  moreover have "Suc q + nat (n + 1 - (i + 1)) = q + nat (n + 1 - i)"
    using \<open>i \<le> n\<close> by simp
  ultimately show ?case using s1 by metis
qed

lemma fetch_first_usable:
  assumes "i \<le> k" "k \<le> n" and "usable parse (http k) = Some js"
    and "\<forall>j. i \<le> j \<and> j < k \<longrightarrow> skipped parse (http j)"
  shows "\<exists>s'. fetch_loop parse http n i q s = (get_strings js, q + nat (k - i) + 1, s')"
  using assms
proof (induction "nat (k - i)" arbitrary: i q s)
  case 0
  then show ?case using fetch_step_usable [of i n parse http js q s] by simp
next
  case (Suc m)
  then have "i \<le> n" and "skipped parse (http i)" by auto
  then obtain s1 where s1: "fetch_loop parse http n i q s = fetch_loop parse http n (i + 1) (Suc q) s1"
    using fetch_step_skipped by blast
  have "\<exists>s'. fetch_loop parse http n (i + 1) (Suc q) s1
      = (get_strings js, Suc q + nat (k - (i + 1)) + 1, s')"
    using Suc.hyps(2) Suc.prems by (intro Suc.hyps(1)) auto
  moreover have "Suc q + nat (k - (i + 1)) = q + nat (k - i)"
    using Suc.hyps(2) by linarith
  ultimately show ?case using s1 by metis
qed

section \<open>The cache file\<close>

lemma getlines_line:
  "CHR 0x0A \<notin> set xs \<Longrightarrow> getlines line (xs @ CHR 0x0A # rest) = (line @ xs) # getlines [] rest"
  by (induction xs arbitrary: line) auto

lemma getlines_written:
  "\<forall>a \<in> set as. CHR 0x0A \<notin> set a \<Longrightarrow> getlines [] (concat (map (\<lambda>a. a @ [CHR 0x0A]) as)) = as"
  by (induction as) (simp_all add: getlines_line)

definition proper_addresses :: "string list \<Rightarrow> bool" where
  "proper_addresses as \<longleftrightarrow> (\<forall>a \<in> set as. a \<noteq> [] \<and> CHR 0x0A \<notin> set a)"

lemma load_after_save:
  "proper_addresses as \<Longrightarrow> loadFromDisk True service (saveToDisk True True service as rc) = as"
  by (auto simp: loadFromDisk_def saveToDisk_def Let_def getlines_written proper_addresses_def
      intro!: filter_True)

lemma load_put_cache [simp]: "loadFromDisk rd service (put_cache t as now rc) = loadFromDisk rd service rc"
  by (simp add: loadFromDisk_def put_cache_def)

lemma put_cache_fields [simp]:
  "cache (put_cache service as now rc) service = Some \<lparr>addrs = as, timestamp = now\<rparr>"
  "cacheExpire (put_cache service as now rc) = cacheExpire rc"
  "retryTimes (put_cache service as now rc) = retryTimes rc"
  by (simp_all add: put_cache_def)

lemma save_fields [simp]:
  "cache (saveToDisk co cr service as rc) = cache rc"
  "cacheExpire (saveToDisk co cr service as rc) = cacheExpire rc"
  "retryTimes (saveToDisk co cr service as rc) = retryTimes rc"
  by (simp_all add: saveToDisk_def Let_def)

section \<open>Lookups\<close>

definition cache_fresh :: "time \<Rightarrow> string \<Rightarrow> RegistryClient \<Rightarrow> bool" where
  "cache_fresh now service rc \<longleftrightarrow>
     (\<exists>item. cache rc service = Some item \<and> to_seconds (now - timestamp item) < cacheExpire rc)"

definition registry_down ::
  "json_parser \<Rightarrow> http_get \<Rightarrow> string \<Rightarrow> RegistryClient \<Rightarrow> bool" where
  "registry_down parse http service rc \<longleftrightarrow>
     (\<forall>j. 0 \<le> j \<and> j \<le> retryTimes rc \<longrightarrow> skipped parse (http (discover_path service) j))"

lemma lookup_fresh:
  assumes "cache rc service = Some item" and "to_seconds (now - timestamp item) < cacheExpire rc"
  shows "getAddresses parse http rd co cr now now' service rc = (Addresses (addrs item), 0, rc)"
  using assms by (simp add: getAddresses_def)

lemma lookup_not_fresh:
  "\<not> cache_fresh now service rc \<Longrightarrow>
   getAddresses parse http rd co cr now now' service rc =
     (case fetchFromRegistry parse http service rc of
        (TypeError, requests, _) \<Rightarrow> (Threw, requests, rc)
      | (NumberOverflow, requests, _) \<Rightarrow> (Threw, requests, rc)
      | (Fetched as, requests, _) \<Rightarrow>
          if as \<noteq> [] then (Addresses as, requests, put_cache service as now' (saveToDisk co cr service as rc))
          else let as' = loadFromDisk rd service rc in (Addresses as', requests, put_cache service as' now' rc))"
  by (auto simp: getAddresses_def cache_fresh_def Let_def split: option.splits)

lemma lookup_down:
  assumes "\<not> cache_fresh now service rc" and "registry_down parse http service rc" and "0 \<le> retryTimes rc"
  shows "getAddresses parse http rd co cr now now' service rc
       = (Addresses (loadFromDisk rd service rc), nat (retryTimes rc + 1),
          put_cache service (loadFromDisk rd service rc) now' rc)"
proof -
  obtain s' where "fetchFromRegistry parse http service rc = (Fetched [], nat (retryTimes rc + 1), s')"
    using fetch_exhausted [of 0 "retryTimes rc" parse "http (discover_path service)" 0 0] assms(2,3)
    by (auto simp: fetchFromRegistry_def registry_down_def)
  then show ?thesis by (simp add: lookup_not_fresh [OF assms(1)] Let_def)
qed

lemma lookup_answered:
  assumes "\<not> cache_fresh now service rc" and "0 \<le> k" "k \<le> retryTimes rc"
    and "usable parse (http (discover_path service) k) = Some (map JString as)"
    and "\<forall>j. 0 \<le> j \<and> j < k \<longrightarrow> skipped parse (http (discover_path service) j)"
  shows "getAddresses parse http rd co cr now now' service rc =
     (if as \<noteq> [] then (Addresses as, nat k + 1, put_cache service as now' (saveToDisk co cr service as rc))
      else (Addresses (loadFromDisk rd service rc), nat k + 1,
            put_cache service (loadFromDisk rd service rc) now' rc))"
proof -
  have "get_strings (map JString as) = Fetched as"
    by (simp add: get_strings_def list_all_iff comp_def)
  then obtain s' where "fetchFromRegistry parse http service rc = (Fetched as, nat k + 1, s')"
    using fetch_first_usable [OF assms(2-5), of 0 0] by (auto simp: fetchFromRegistry_def)
  then show ?thesis by (simp add: lookup_not_fresh [OF assms(1)] Let_def)
qed


lemma fetch_requests:
  "fst (snd (fetch_loop parse http n i q s)) \<le> q + nat (n + 1 - i)"
proof (induction "nat (n + 1 - i)" arbitrary: i q s)
  case 0
  then show ?case by (subst fetch_loop.simps) simp
next
  case (Suc k)
  then have le: "i \<le> n" and k: "k = nat (n + 1 - (i + 1))" by auto
  show ?case
  proof (cases "skipped parse (http i)")
    case True
    then obtain s1 where "fetch_loop parse http n i q s = fetch_loop parse http n (i + 1) (Suc q) s1"
      using fetch_step_skipped [OF le] by blast
    with Suc.hyps(1) [OF k, of "Suc q" s1] le show ?thesis by simp
  next
    case False
    with fetch_step_throws [where parse = parse and http = http and q = q and s = s, OF le]
      fetch_step_usable [where parse = parse and http = http and q = q and s = s, OF le] le
    show ?thesis by (cases "usable parse (http i)") simp_all
  qed
qed

lemma lookup_cases:
  assumes "getAddresses parse http rd co cr now now' service rc = (res, q, rc')"
  shows "(\<exists>item. cache rc service = Some item \<and> to_seconds (now - timestamp item) < cacheExpire rc
            \<and> res = Addresses (addrs item) \<and> q = 0 \<and> rc' = rc)
       \<or> (res = Threw \<and> rc' = rc)
       \<or> (\<exists>as. res = Addresses as \<and> cache rc' service = Some \<lparr>addrs = as, timestamp = now'\<rparr>
            \<and> cacheExpire rc' = cacheExpire rc)"
  using assms
  by (auto simp: getAddresses_def Let_def split: option.splits if_splits prod.splits fetch_result.splits)

section \<open>Properties of the discovery client\<close>

text \<open>
  C30: discovery survives an outage of the registry.  Suppose a lookup got a non-empty answer at one of
  its attempts and the cache file could be written, and can be read later.  Then a later lookup, whose cached entry has
  expired, while the registry gives no usable answer any more, still returns the same addresses, after
  exactly \<open>retryTimes + 1\<close> requests.
\<close>

theorem lookup_survives_outage:
  assumes "\<not> cache_fresh now service rc" and "0 \<le> k" "k \<le> retryTimes rc"
    and "usable parse (http (discover_path service) k) = Some (map JString as)"
    and "\<forall>j. 0 \<le> j \<and> j < k \<longrightarrow> skipped parse (http (discover_path service) j)"
    and "as \<noteq> []" and "proper_addresses as"
    and "rc' = snd (snd (getAddresses parse http rd True True now now' service rc))"
    and "\<not> cache_fresh t service rc'" and "registry_down parse http' service rc'"
  shows "\<exists>rc''. getAddresses parse http' True co cr t t' service rc'
           = (Addresses as, nat (retryTimes rc + 1), rc'')"
proof -
  have rc': "rc' = put_cache service as now' (saveToDisk True True service as rc)"
    using lookup_answered [of now service rc k parse http as rd True True now', OF assms(1-5)] assms(6,8) by simp
  then have "loadFromDisk True service rc' = as" and "retryTimes rc' = retryTimes rc"
    using assms(7) by (simp_all add: load_after_save)
  with lookup_down [OF assms(9,10), of True co cr t'] assms(2,3) show ?thesis by simp
qed

text \<open>A registry that answers with one address on the second attempt, and one that is down.\<close>

definition flaky_registry :: http_get where
  "flaky_registry path i = (if i = 1 then Some (200, ''x'') else None)"

definition dead_registry :: http_get where
  "dead_registry path i = Some (503, [])"

definition one_address :: json_parser where
  "one_address body = (if body = ''x'' then JsonValue (JArray [JString ''h:1'']) else ParseError)"

lemma lookup_survives_outage_witness:
  "\<exists>rc''. getAddresses one_address dead_registry True True True 40000000000 41000000000 ''M''
      (snd (snd (getAddresses one_address flaky_registry True True True 1000000000 2000000000 ''M''
                   (RegistryClient_new Map.empty ''r'' 80 30 2))))
     = (Addresses [''h:1''], 3, rc'')"
proof -
  let ?rc = "RegistryClient_new Map.empty ''r'' 80 30 2"
  let ?rc' = "snd (snd (getAddresses one_address flaky_registry True True True 1000000000 2000000000 ''M'' ?rc))"
  have nf: "\<not> cache_fresh 1000000000 ''M'' ?rc"
    by (simp add: cache_fresh_def RegistryClient_new_def)
  have n: "retryTimes ?rc = 2" by (simp add: RegistryClient_new_def)
  have u: "usable one_address (flaky_registry (discover_path ''M'') 1) = Some (map JString [''h:1''])"
    by (simp add: usable_def one_address_def flaky_registry_def)
  have u0: "\<forall>j. 0 \<le> j \<and> j < 1 \<longrightarrow> skipped one_address (flaky_registry (discover_path ''M'') j)"
    by (simp add: skipped_def flaky_registry_def)
  have rc': "?rc' = put_cache ''M'' [''h:1''] 2000000000 (saveToDisk True True ''M'' [''h:1''] ?rc)"
    using lookup_answered [of _ _ ?rc 1 _ flaky_registry, OF nf _ _ u u0, of True True True 2000000000] n by simp
  have "\<not> cache_fresh 40000000000 ''M'' ?rc'"
    by (simp add: rc' cache_fresh_def) (simp add: RegistryClient_new_def to_seconds_def)
  moreover have "registry_down one_address dead_registry ''M'' ?rc'"
    by (simp add: registry_down_def skipped_def dead_registry_def)
  ultimately show ?thesis
    using lookup_survives_outage [of _ _ ?rc 1 _ flaky_registry, OF nf _ _ u u0 _ _ refl, of 40000000000 True 2000000000 dead_registry True True 41000000000] n
    by (simp add: proper_addresses_def)
qed

text \<open>
  A cached answer costs no request.  Whatever a lookup returned, be it from the registry, from the
  cache file or nothing at all, the same lookup within \<open>cacheExpire\<close> seconds returns it again without
  a request and leaves the client unchanged.  In particular a failure is cached like an answer.
\<close>

theorem lookup_cached:
  assumes "\<not> cache_fresh now service rc"
    and "getAddresses parse http rd co cr now now' service rc = (Addresses as, q, rc')"
    and "to_seconds (t - now') < cacheExpire rc"
  shows "getAddresses parse' http' rd' co' cr' t t' service rc' = (Addresses as, 0, rc')"
proof -
  have "cache rc' service = Some \<lparr>addrs = as, timestamp = now'\<rparr> \<and> cacheExpire rc' = cacheExpire rc"
    using lookup_cases [OF assms(2)] assms(1) by (auto simp: cache_fresh_def)
  then show ?thesis using lookup_fresh assms(3) by fastforce
qed

lemma lookup_cached_witness:
  "getAddresses one_address flaky_registry True True True 31000000000 32000000000 ''M''
      (snd (snd (getAddresses one_address dead_registry True True True 1000000000 2000000000 ''M''
                   (RegistryClient_new Map.empty ''r'' 80 30 2))))
   = (Addresses [], 0,
      put_cache ''M'' [] 2000000000 (RegistryClient_new Map.empty ''r'' 80 30 2))"
proof -
  let ?rc = "RegistryClient_new Map.empty ''r'' 80 30 2"
  have nf: "\<not> cache_fresh 1000000000 ''M'' ?rc"
    by (simp add: cache_fresh_def RegistryClient_new_def)
  moreover have "registry_down one_address dead_registry ''M'' ?rc"
    by (simp add: registry_down_def skipped_def dead_registry_def)
  moreover have "loadFromDisk True ''M'' ?rc = []" "retryTimes ?rc = 2" "cacheExpire ?rc = 30"
    by (simp_all add: RegistryClient_new_def loadFromDisk_def)
  ultimately have "getAddresses one_address dead_registry True True True 1000000000 2000000000 ''M'' ?rc
      = (Addresses [], 3, put_cache ''M'' [] 2000000000 ?rc)"
    using lookup_down [of 1000000000 "''M''" ?rc one_address dead_registry True True True 2000000000] by simp
  then show ?thesis
    using lookup_cached [OF nf, of one_address dead_registry True True True 2000000000 "[]"] \<open>cacheExpire ?rc = 30\<close>
    by (simp add: to_seconds_def)
qed

lemma registry_lookup:
  assumes "\<not> cache_fresh now service rc" and "0 \<le> retryTimes rc"
    and "as = sorted_list_of_set (discover service center)"
    and "parse (dump (JArray (map JString as))) = JsonValue (JArray (map JString as))"
    and "param (discover_path service) = service"
    and "http = (\<lambda>path i. let r = get_discover dump (param path) center in Some (sent_status r, content r))"
    and "service \<noteq> []" and "center_inv center" and "discover service center \<noteq> {}"
  shows "\<exists>rc'. getAddresses parse http rd co cr now now' service rc
           = (Addresses as, 1, rc')"
proof -
  have "usable parse (http (discover_path service) 0) = Some (map JString as)"
    using assms(3-7)
    by (simp add: usable_def get_discover_def Let_def http_reply_def sent_status_def)
  moreover have "as \<noteq> []"
    using assms(3,8,9) by (auto simp: center_inv_def discover_def split: option.splits)
  ultimately show ?thesis
    using lookup_answered [OF assms(1), of 0 parse http as rd co cr now'] assms(2) by force
qed

text \<open>
  A printer of arrays of strings that a parser inverts: every character is preceded by a mark, every
  string is followed by another.
\<close>

definition mark_dump :: "json \<Rightarrow> string" where
  "mark_dump j =
     (case j of
        JArray js \<Rightarrow> concat (map (\<lambda>a. concat (map (\<lambda>c. [CHR ''c'', c]) (the_string a)) @ ''e'') js)
      | _ \<Rightarrow> [])"

fun mark_parse :: "string \<Rightarrow> string \<Rightarrow> string list" where
  "mark_parse acc [] = []"
| "mark_parse acc [m] = [acc]"
| "mark_parse acc (m # c # cs) =
     (if m = CHR ''c'' then mark_parse (acc @ [c]) cs else acc # mark_parse [] (c # cs))"

lemma mark_parse_string:
  "mark_parse acc (concat (map (\<lambda>c. [CHR ''c'', c]) a) @ ''e'' @ rest) = (acc @ a) # mark_parse [] rest"
  by (induction a arbitrary: acc) (cases rest; simp)+

lemma mark_inverts:
  "mark_parse [] (mark_dump (JArray (map JString as))) = as"
  using mark_parse_string [of "[]"] by (induction as) (simp_all add: mark_dump_def)

lemma discover_empty: "discover s Map.empty = {}"
  by (simp add: discover_def)

text \<open>
  A lookup sends at most \<open>retryTimes + 1\<close> requests, whatever the registry answers.
\<close>

theorem lookup_requests_bounded:
  "fst (snd (getAddresses parse http rd co cr now now' service rc)) \<le> nat (retryTimes rc + 1)"
  using fetch_requests [of parse "http (discover_path service)" "retryTimes rc" 0 0 0]
  by (auto simp: getAddresses_def fetchFromRegistry_def Let_def
      split: option.splits if_splits prod.splits fetch_result.splits)

end
