(* ===== verification/Rpc_Dispatch.thy ===== *)
theory Rpc_Dispatch
  imports Rpc_Header
begin

text \<open>
  The server-side reflection: services and their registry (\<^verbatim>\<open>src/rpc/rpc_service_registry.h\<close>),
  \<open>RpcServer::dispatchRequest\<close> (\<^verbatim>\<open>src/rpc/rpc_server.cpp\<close>) and the free function
  \<open>dispatchRequest\<close> of \<^verbatim>\<open>src/rpc/rpc_server_handler.cpp\<close>.  A service is a record of the virtual functions
  of \<open>google::protobuf::Service\<close> the code calls; the dynamic type of a message is a parameter, with the
  three virtual functions of \<open>Message\<close> that are called on it.
\<close>

section \<open>Messages, services and calls\<close>

text \<open>
  How a call ends: with a value, with an exception derived from \<open>std::exception\<close> (its \<open>what()\<close>), with
  another exception, with undefined behaviour, or not at all.
\<close>

datatype 'a outcome = Returned 'a | ThrewStd string | ThrewOther | Undefined | Diverges

record 'msg message_ops =
  New :: "'msg \<Rightarrow> 'msg"
  Parse :: "'msg \<Rightarrow> bytes \<Rightarrow> ('msg \<times> bool) option"
  SerializeAsString :: "'msg \<Rightarrow> bytes"

text \<open>
  \<open>CallMethod\<close> gets the method, the request and the response object, and returns the response object.
  The closure the server passes runs \<open>dummyCallback\<close>, which does nothing.
\<close>

record ('mth, 'msg) service =
  full_name :: string
  FindMethodByName :: "string \<Rightarrow> 'mth option"
  GetRequestPrototype :: "'mth \<Rightarrow> 'msg"
  GetResponsePrototype :: "'mth \<Rightarrow> 'msg"
  CallMethod :: "'mth \<Rightarrow> 'msg \<Rightarrow> 'msg \<Rightarrow> 'msg outcome"

type_synonym ('mth, 'msg) service_registry = "string \<rightharpoonup> ('mth, 'msg) service"

definition service_register ::
  "('mth, 'msg) service \<Rightarrow> ('mth, 'msg) service_registry \<Rightarrow> ('mth, 'msg) service_registry" where
  "service_register svc reg = reg(full_name svc \<mapsto> svc)"

definition findService :: "('mth, 'msg) service_registry \<Rightarrow> string \<Rightarrow> ('mth, 'msg) service option" where
  "findService reg name = reg name"

section \<open>The two dispatchers\<close>

definition dispatchRequest ::
  "'u pb_runtime \<Rightarrow> 'msg message_ops \<Rightarrow> ('mth, 'msg) service_registry \<Rightarrow> 'u RpcRequest
     \<Rightarrow> 'u RpcResponse outcome" where
  "dispatchRequest rt ops reg request =
     (let response = RpcResponse_default rt in
      case findService reg (service_name request) of
        None \<Rightarrow> Returned (set_error_code NO_SERVICE response)
      | Some svc \<Rightarrow>
         (case FindMethodByName svc (method_name request) of
            None \<Rightarrow> Returned (set_error_code NO_METHOD response)
          | Some mth \<Rightarrow>
             (case Parse ops (New ops (GetRequestPrototype svc mth)) (args request) of
                None \<Rightarrow> Diverges
              | Some (req_msg, ok) \<Rightarrow>
                  if \<not> ok then Returned (set_error_code INVALID_ARGUMENT response)
                  else (case CallMethod svc mth req_msg (New ops (GetResponsePrototype svc mth)) of
                          ThrewStd what \<Rightarrow>
                            Returned (set_error_msg (''Service exception: '' @ what)
                                       (set_error_code INTERNAL_ERROR response))
                        | ThrewOther \<Rightarrow>
                            Returned (set_error_msg ''Unknown service exception''
                                       (set_error_code INTERNAL_ERROR response))
                        | Undefined \<Rightarrow> Undefined
                        | Diverges \<Rightarrow> Diverges
                        | Returned resp_msg \<Rightarrow>
                            Returned (set_result (SerializeAsString ops resp_msg)
                                       (set_error_code NO_ERROR response))))))"

text \<open>The handler version ignores the result of \<open>ParseFromString\<close> and catches nothing.\<close>

definition handler_dispatchRequest ::
  "'u pb_runtime \<Rightarrow> 'msg message_ops \<Rightarrow> 'u RpcRequest \<Rightarrow> ('mth, 'msg) service_registry
     \<Rightarrow> 'u RpcResponse outcome" where
  "handler_dispatchRequest rt ops request reg =
     (let response = RpcResponse_default rt in
      case findService reg (service_name request) of
        None \<Rightarrow> Returned (set_error_code NO_SERVICE response)
      | Some svc \<Rightarrow>
         (case FindMethodByName svc (method_name request) of
            None \<Rightarrow> Returned (set_error_code NO_METHOD response)
          | Some mth \<Rightarrow>
             (case Parse ops (New ops (GetRequestPrototype svc mth)) (args request) of
                None \<Rightarrow> Diverges
              | Some (request_msg, _) \<Rightarrow>
                  (case CallMethod svc mth request_msg (New ops (GetResponsePrototype svc mth)) of
                     Returned response_msg \<Rightarrow>
                       Returned (set_result (SerializeAsString ops response_msg)
                                  (set_error_code NO_ERROR response))
                   | ThrewStd what \<Rightarrow> ThrewStd what
                   | ThrewOther \<Rightarrow> ThrewOther
                   | Undefined \<Rightarrow> Undefined
                   | Diverges \<Rightarrow> Diverges))))"

lemmas dispatch_defs = dispatchRequest_def handler_dispatchRequest_def findService_def Let_def

lemmas response_setters [simp] = set_error_code_def set_error_msg_def set_result_def

section \<open>What a method promises\<close>

text \<open>
  A method of a registered service that accepts the encoding of every good argument and answers it:
  the interface between the dispatchers and a service implementation.
\<close>

locale service_method =
  fixes ops :: "'msg message_ops"
    and svc :: "('mth, 'msg) service"
    and mname :: string
    and mth :: 'mth
    and enc :: "'q \<Rightarrow> bytes"
    and good :: "'q \<Rightarrow> bool"
    and answer :: "'q \<Rightarrow> bytes"
  assumes found: "FindMethodByName svc mname = Some mth"
    and accepts: "good q \<Longrightarrow>
      \<exists>req. Parse ops (New ops (GetRequestPrototype svc mth)) (enc q) = Some (req, True)
        \<and> (\<exists>rsp. CallMethod svc mth req (New ops (GetResponsePrototype svc mth)) = Returned rsp
               \<and> SerializeAsString ops rsp = answer q)"
begin

lemma dispatched:
  assumes "good q" and "reg (full_name svc) = Some svc"
    and "service_name request = full_name svc" and "method_name request = mname" and "args request = enc q"
  shows "dispatchRequest rt ops reg request
       = Returned (set_result (answer q) (set_error_code NO_ERROR (RpcResponse_default rt)))"
  using assms found accepts [OF assms(1)] by (auto simp: dispatch_defs)

lemma handler_dispatched:
  assumes "good q" and "reg (full_name svc) = Some svc"
    and "service_name request = full_name svc" and "method_name request = mname" and "args request = enc q"
  shows "handler_dispatchRequest rt ops request reg
       = Returned (set_result (answer q) (set_error_code NO_ERROR (RpcResponse_default rt)))"
  using assms found accepts [OF assms(1)] by (auto simp: dispatch_defs)

end

section \<open>Properties of dispatching\<close>

text \<open>
  C19: every failure has its code.  Provided the argument parser returns and the service itself is
  defined and ends, the dispatcher always produces a response; its code is \<open>NO_SERVICE\<close> exactly if the
  name is not registered, \<open>NO_METHOD\<close> exactly if a registered service has no such method,
  \<open>INVALID_ARGUMENT\<close> exactly if the arguments do not parse, \<open>INTERNAL_ERROR\<close> with the reason in the text
  exactly if the method throws, and otherwise \<open>NO_ERROR\<close> with the serialized answer.  No exception
  leaves the dispatcher.
\<close>

theorem dispatch_total:
  assumes parses: "\<forall>m bs. Parse ops m bs \<noteq> None"
    and defined: "\<forall>name svc mth req rsp. reg name = Some svc \<longrightarrow>
      CallMethod svc mth req rsp \<noteq> Undefined \<and> CallMethod svc mth req rsp \<noteq> Diverges"
  shows "\<exists>rsp. dispatchRequest rt ops reg request = Returned rsp
    \<and> (error_code rsp = NO_SERVICE \<longleftrightarrow> reg (service_name request) = None)
    \<and> (error_code rsp = NO_METHOD \<longleftrightarrow>
         (\<exists>svc. reg (service_name request) = Some svc \<and> FindMethodByName svc (method_name request) = None))
    \<and> (error_code rsp = INVALID_ARGUMENT \<longleftrightarrow>
         (\<exists>svc mth req. reg (service_name request) = Some svc
            \<and> FindMethodByName svc (method_name request) = Some mth
            \<and> Parse ops (New ops (GetRequestPrototype svc mth)) (args request) = Some (req, False)))
    \<and> (error_code rsp = INTERNAL_ERROR \<longleftrightarrow> error_msg rsp \<noteq> [])
    \<and> (error_code rsp = NO_ERROR \<longleftrightarrow>
         (\<exists>svc mth req r. reg (service_name request) = Some svc
            \<and> FindMethodByName svc (method_name request) = Some mth
            \<and> Parse ops (New ops (GetRequestPrototype svc mth)) (args request) = Some (req, True)
            \<and> CallMethod svc mth req (New ops (GetResponsePrototype svc mth)) = Returned r
            \<and> result rsp = SerializeAsString ops r))
    \<and> error_code rsp \<in> {NO_ERROR, NO_SERVICE, NO_METHOD, INVALID_ARGUMENT, INTERNAL_ERROR}"
proof (cases "reg (service_name request)")
  case None
  then show ?thesis by (simp add: dispatch_defs error_code_defs RpcResponse_default_def)
next
  case svc: (Some svc)
  show ?thesis
  proof (cases "FindMethodByName svc (method_name request)")
    case None
    with svc show ?thesis by (simp add: dispatch_defs error_code_defs RpcResponse_default_def)
  next
    case mth: (Some mth)
    obtain req ok where p: "Parse ops (New ops (GetRequestPrototype svc mth)) (args request) = Some (req, ok)"
      using parses by (metis not_None_eq prod.exhaust)
    show ?thesis
    proof (cases ok)
      case False
      with svc mth p show ?thesis by (simp add: dispatch_defs error_code_defs RpcResponse_default_def)
    next
      case True
      have "CallMethod svc mth req (New ops (GetResponsePrototype svc mth)) \<noteq> Undefined"
        "CallMethod svc mth req (New ops (GetResponsePrototype svc mth)) \<noteq> Diverges"
        using defined svc by blast+
      with True svc mth p show ?thesis
        by (cases "CallMethod svc mth req (New ops (GetResponsePrototype svc mth))")
          (simp_all add: dispatch_defs error_code_defs RpcResponse_default_def)
    qed
  qed
qed

text \<open>An echo service over byte strings, whose method throws on an empty argument.\<close>

definition echo_ops :: "bytes message_ops" where
  "echo_ops = \<lparr>New = (\<lambda>_. []), Parse = (\<lambda>_ bs. Some (bs, True)), SerializeAsString = (\<lambda>m. m)\<rparr>"

definition echo_service :: "(unit, bytes) service" where
  "echo_service = \<lparr>full_name = ''Echo'', FindMethodByName = (\<lambda>n. if n = ''echo'' then Some () else None),
     GetRequestPrototype = (\<lambda>_. []), GetResponsePrototype = (\<lambda>_. []),
     CallMethod = (\<lambda>_ req rsp. if req = [] then ThrewStd ''empty'' else Returned req)\<rparr>"

lemma dispatch_total_witness:
  "\<exists>rsp. dispatchRequest varint_runtime echo_ops (service_register echo_service Map.empty)
      \<lparr>service_name = ''Echo'', method_name = ''echo'', args = [], req_unknown = []\<rparr> = Returned rsp
    \<and> error_code rsp = INTERNAL_ERROR"
proof -
  let ?reg = "service_register echo_service Map.empty"
  let ?q = "\<lparr>service_name = ''Echo'', method_name = ''echo'', args = [], req_unknown = []\<rparr> :: bytes RpcRequest"
  have "\<forall>m bs. Parse echo_ops m bs \<noteq> None" by (simp add: echo_ops_def)
  moreover have "\<forall>name svc mth req rsp. ?reg name = Some svc \<longrightarrow>
      CallMethod svc mth req rsp \<noteq> Undefined \<and> CallMethod svc mth req rsp \<noteq> Diverges"
    by (auto simp: echo_service_def service_register_def split: if_splits)
  ultimately have "\<exists>rsp. dispatchRequest varint_runtime echo_ops ?reg ?q = Returned rsp
      \<and> (error_code rsp = INTERNAL_ERROR \<longleftrightarrow> error_msg rsp \<noteq> [])"
    using dispatch_total [of echo_ops ?reg varint_runtime ?q] by blast
  moreover have "dispatchRequest varint_runtime echo_ops ?reg ?q
      = Returned (set_error_msg (''Service exception: '' @ ''empty'')
          (set_error_code INTERNAL_ERROR (RpcResponse_default varint_runtime)))"
    by (simp add: dispatch_defs echo_ops_def echo_service_def service_register_def)
  ultimately show ?thesis by auto
qed

text \<open>
  The two dispatchers agree on good requests and differ exactly on the two kinds of failure the
  handler version does not look at.  Whenever the handler version returns a response and the
  arguments did parse, \<open>RpcServer::dispatchRequest\<close> returns the same one; whenever an exception
  escapes from the handler version and the arguments did parse, \<open>RpcServer::dispatchRequest\<close> turns it
  into an \<open>INTERNAL_ERROR\<close> response.
\<close>

theorem dispatchers_agree:
  assumes "\<forall>svc mth req. reg (service_name request) = Some svc
      \<and> FindMethodByName svc (method_name request) = Some mth
      \<longrightarrow> Parse ops (New ops (GetRequestPrototype svc mth)) (args request) \<noteq> Some (req, False)"
  shows "(\<forall>rsp. handler_dispatchRequest rt ops request reg = Returned rsp
            \<longrightarrow> dispatchRequest rt ops reg request = Returned rsp)
    \<and> (\<forall>what. handler_dispatchRequest rt ops request reg = ThrewStd what
            \<longrightarrow> (\<exists>rsp. dispatchRequest rt ops reg request = Returned rsp
                    \<and> error_code rsp = INTERNAL_ERROR \<and> error_msg rsp = ''Service exception: '' @ what))
    \<and> (handler_dispatchRequest rt ops request reg = ThrewOther
            \<longrightarrow> (\<exists>rsp. dispatchRequest rt ops reg request = Returned rsp \<and> error_code rsp = INTERNAL_ERROR))"
  using assms by (auto simp: dispatch_defs split: option.splits outcome.splits)

lemma dispatchers_agree_witness:
  "let reg = service_register echo_service Map.empty;
       q = \<lparr>service_name = ''Echo'', method_name = ''echo'', args = ''hi'', req_unknown = []\<rparr>
   in dispatchRequest varint_runtime echo_ops reg q
      = Returned (set_result ''hi'' (set_error_code NO_ERROR (RpcResponse_default varint_runtime)))"
proof -
  let ?reg = "service_register echo_service Map.empty"
  let ?q = "\<lparr>service_name = ''Echo'', method_name = ''echo'', args = ''hi'', req_unknown = []\<rparr> :: bytes RpcRequest"
  have "handler_dispatchRequest varint_runtime echo_ops ?q ?reg
      = Returned (set_result ''hi'' (set_error_code NO_ERROR (RpcResponse_default varint_runtime)))"
    by (simp add: dispatch_defs echo_ops_def echo_service_def service_register_def)
  then show ?thesis
    using dispatchers_agree [of ?reg ?q echo_ops varint_runtime] by (simp add: echo_ops_def)
qed

text \<open>
  The registry of services finds the service registered last under a name and forgets none of
  the others; so a service is dispatched to under its full name only.
\<close>

theorem service_registry_lookup:
  "findService (fold service_register svcs Map.empty) name
     = find (\<lambda>svc. full_name svc = name) (rev svcs)"
proof -
  have "findService (fold service_register svcs reg) name
      = (case find (\<lambda>svc. full_name svc = name) (rev svcs) of None \<Rightarrow> reg name | Some svc \<Rightarrow> Some svc)" for reg
    by (induction svcs arbitrary: reg rule: rev_induct)
      (auto simp: findService_def service_register_def)
  from this [of Map.empty] show ?thesis by (simp split: option.splits)
qed

end
