(* ===== verification/Math_Service.thy ===== *)
theory Math_Service
  imports Rpc_Dispatch Math_Messages
begin

text \<open>
  The service of \<^verbatim>\<open>src/math_service_impl.h\<close>: its descriptor, prototypes and methods.  Dereferencing the null
  result of a failed \<open>dynamic_cast\<close> and the overflow of a signed addition are undefined behaviour.
\<close>

section \<open>Messages by dynamic type\<close>

datatype 'u math_message =
    MAddRequest "'u AddRequest"
  | MAddResponse "'u AddResponse"
  | MSubRequest "'u SubRequest"
  | MSubResponse "'u SubResponse"

fun math_New :: "'u pb_runtime \<Rightarrow> 'u math_message \<Rightarrow> 'u math_message" where
  "math_New rt (MAddRequest _) = MAddRequest (AddRequest_default rt)"
| "math_New rt (MAddResponse _) = MAddResponse (AddResponse_default rt)"
| "math_New rt (MSubRequest _) = MSubRequest (SubRequest_default rt)"
| "math_New rt (MSubResponse _) = MSubResponse (SubResponse_default rt)"

fun math_Parse :: "'u pb_runtime \<Rightarrow> 'u math_message \<Rightarrow> bytes \<Rightarrow> ('u math_message \<times> bool) option" where
  "math_Parse rt (MAddRequest m) bs = map_option (map_prod MAddRequest (\<lambda>b. b)) (AddRequest_ParseFromString rt m bs)"
| "math_Parse rt (MAddResponse m) bs = map_option (map_prod MAddResponse (\<lambda>b. b)) (AddResponse_ParseFromString rt m bs)"
| "math_Parse rt (MSubRequest m) bs = map_option (map_prod MSubRequest (\<lambda>b. b)) (SubRequest_ParseFromString rt m bs)"
| "math_Parse rt (MSubResponse m) bs = map_option (map_prod MSubResponse (\<lambda>b. b)) (SubResponse_ParseFromString rt m bs)"

fun math_Serialize :: "'u pb_runtime \<Rightarrow> 'u math_message \<Rightarrow> bytes" where
  "math_Serialize rt (MAddRequest m) = AddRequest_InternalSerialize rt m"
| "math_Serialize rt (MAddResponse m) = AddResponse_InternalSerialize rt m"
| "math_Serialize rt (MSubRequest m) = SubRequest_InternalSerialize rt m"
| "math_Serialize rt (MSubResponse m) = SubResponse_InternalSerialize rt m"

definition math_ops :: "'u pb_runtime \<Rightarrow> 'u math_message message_ops" where
  "math_ops rt = \<lparr>New = math_New rt, Parse = math_Parse rt, SerializeAsString = math_Serialize rt\<rparr>"

text \<open>The four \<open>dynamic_cast\<close>s.\<close>

fun as_AddRequest :: "'u math_message \<Rightarrow> 'u AddRequest option" where
  "as_AddRequest (MAddRequest m) = Some m"
| "as_AddRequest _ = None"

fun as_AddResponse :: "'u math_message \<Rightarrow> 'u AddResponse option" where
  "as_AddResponse (MAddResponse m) = Some m"
| "as_AddResponse _ = None"

fun as_SubRequest :: "'u math_message \<Rightarrow> 'u SubRequest option" where
  "as_SubRequest (MSubRequest m) = Some m"
| "as_SubRequest _ = None"

fun as_SubResponse :: "'u math_message \<Rightarrow> 'u SubResponse option" where
  "as_SubResponse (MSubResponse m) = Some m"
| "as_SubResponse _ = None"

section \<open>The implementation\<close>

definition fits_int32 :: "int \<Rightarrow> bool" where
  "fits_int32 i \<longleftrightarrow> - (2 ^ 31) \<le> i \<and> i < 2 ^ 31"

definition Add :: "'u AddRequest option \<Rightarrow> 'u AddResponse option \<Rightarrow> 'u AddResponse outcome" where
  "Add request response =
     (case request of
        None \<Rightarrow> Undefined
      | Some q \<Rightarrow>
          if fits_int32 (sint (addq_a q) + sint (addq_b q))
          then (case response of
                  None \<Rightarrow> Undefined
                | Some r \<Rightarrow> Returned (set_sum (addq_a q + addq_b q) r))
          else Undefined)"

definition Sub :: "'u SubRequest option \<Rightarrow> 'u SubResponse option \<Rightarrow> 'u SubResponse outcome" where
  "Sub request response =
     (case request of
        None \<Rightarrow> Undefined
      | Some q \<Rightarrow>
          if fits_int32 (sint (subq_a q) - sint (subq_b q))
          then (case response of
                  None \<Rightarrow> Undefined
                | Some r \<Rightarrow> Returned (set_diff (subq_a q - subq_b q) r))
          else Undefined)"

text \<open>\<open>CallMethod\<close>: a method of another name leaves the response as it is.\<close>

definition MathServiceImpl_CallMethod ::
  "string \<Rightarrow> 'u math_message \<Rightarrow> 'u math_message \<Rightarrow> 'u math_message outcome" where
  "MathServiceImpl_CallMethod mth request response =
     (if mth = ''Add''
      then map_outcome MAddResponse (Add (as_AddRequest request) (as_AddResponse response))
      else if mth = ''Sub''
      then map_outcome MSubResponse (Sub (as_SubRequest request) (as_SubResponse response))
      else Returned response)"

text \<open>
  \<open>GetDescriptor\<close> looks the service \<open>MathService\<close> up in the file descriptor of package \<open>math\<close>, which declares
  the methods \<open>Add\<close> and \<open>Sub\<close>; a method descriptor is represented by its name.
\<close>

definition MathService_full_name :: string where
  "MathService_full_name = ''math.MathService''"

definition MathService_FindMethodByName :: "string \<Rightarrow> string option" where
  "MathService_FindMethodByName name = (if name = ''Add'' \<or> name = ''Sub'' then Some name else None)"

definition MathServiceImpl_GetRequestPrototype :: "'u pb_runtime \<Rightarrow> string \<Rightarrow> 'u math_message" where
  "MathServiceImpl_GetRequestPrototype rt mth = MAddRequest (AddRequest_default rt)"

definition MathServiceImpl_GetResponsePrototype :: "'u pb_runtime \<Rightarrow> string \<Rightarrow> 'u math_message" where
  "MathServiceImpl_GetResponsePrototype rt mth = MAddResponse (AddResponse_default rt)"

definition MathServiceImpl :: "'u pb_runtime \<Rightarrow> (string, 'u math_message) service" where
  "MathServiceImpl rt =
     \<lparr>full_name = MathService_full_name,
      FindMethodByName = MathService_FindMethodByName,
      GetRequestPrototype = MathServiceImpl_GetRequestPrototype rt,
      GetResponsePrototype = MathServiceImpl_GetResponsePrototype rt,
      CallMethod = MathServiceImpl_CallMethod\<rparr>"

lemmas math_service_defs = MathServiceImpl_def MathService_full_name_def MathService_FindMethodByName_def
  MathServiceImpl_GetRequestPrototype_def MathServiceImpl_GetResponsePrototype_def
  MathServiceImpl_CallMethod_def math_ops_def

section \<open>The service keeps the contract of its method Add\<close>

definition good_add :: "'u pb_runtime \<Rightarrow> 'u AddRequest \<Rightarrow> bool" where
  "good_add rt q \<longleftrightarrow> AddRequest_inv q \<and> addq_unknown q = unknown_default rt
     \<and> fits_int32 (sint (addq_a q) + sint (addq_b q))"

definition add_answer :: "'u pb_runtime \<Rightarrow> 'u AddRequest \<Rightarrow> 'u AddResponse" where
  "add_answer rt q = set_sum (addq_a q + addq_b q) (AddResponse_default rt)"

sublocale pb_runtime_ok \<subseteq> add: service_method "math_ops rt" "MathServiceImpl rt" "''Add''" "''Add''"
  "AddRequest_InternalSerialize rt" "good_add rt" "\<lambda>q. AddResponse_InternalSerialize rt (add_answer rt q)"
proof
  fix q assume "good_add rt q"
  then have q: "AddRequest_inv q" "addq_unknown q = unknown_default rt"
      "fits_int32 (sint (addq_a q) + sint (addq_b q))"
    by (simp_all add: good_add_def)
  show "\<exists>req. Parse (math_ops rt) (New (math_ops rt) (GetRequestPrototype (MathServiceImpl rt) ''Add''))
          (AddRequest_InternalSerialize rt q) = Some (req, True)
      \<and> (\<exists>rsp. CallMethod (MathServiceImpl rt) ''Add'' req
                (New (math_ops rt) (GetResponsePrototype (MathServiceImpl rt) ''Add'')) = Returned rsp
             \<and> SerializeAsString (math_ops rt) rsp = AddResponse_InternalSerialize rt (add_answer rt q))"
    using AddRequest_reads_back [OF AddRequest_default_inv q(1,2)] q(3)
    by (simp add: math_service_defs Add_def add_answer_def)
qed (simp add: math_service_defs)

lemma sint_add_fits: "fits_int32 (sint a + sint b) \<Longrightarrow> sint ((a :: int32) + b) = sint a + sint b"
  by (simp add: fits_int32_def sint_word_ariths signed_take_bit_int_eq_self)

lemma add_answer_wf:
  "AddResponse_inv (add_answer rt q) \<and> addr_unknown (add_answer rt q) = unknown_default rt"
  by (simp add: add_answer_def set_sum_def AddResponse_default_def AddResponse_inv_def has_sum_def)

text \<open>The encodings of the two request types coincide.\<close>

definition sub_as_add :: "'u SubRequest \<Rightarrow> 'u AddRequest" where
  "sub_as_add q = \<lparr>addq_has_bits = subq_has_bits q, addq_a = subq_a q, addq_b = subq_b q,
     addq_unknown = subq_unknown q\<rparr>"

lemma sub_as_add_encoding:
  "AddRequest_InternalSerialize rt (sub_as_add q) = SubRequest_InternalSerialize rt q"
  by (simp add: AddRequest_InternalSerialize_def SubRequest_InternalSerialize_def sub_as_add_def)

lemma sub_as_add_inv: "SubRequest_inv q \<Longrightarrow> AddRequest_inv (sub_as_add q)"
  by (simp add: AddRequest_inv_def SubRequest_inv_def sub_as_add_def addq_has_a_def addq_has_b_def
      subq_has_a_def subq_has_b_def)

context pb_runtime_ok
begin

lemma add_dispatch_sum:
  assumes "good_add rt q"
    and "service_name request = ''math.MathService''" and "method_name request = ''Add''"
    and "args request = AddRequest_InternalSerialize rt q"
  shows "dispatchRequest rt (math_ops rt) (service_register (MathServiceImpl rt) reg) request
      = Returned (set_result (AddResponse_InternalSerialize rt (add_answer rt q))
                   (set_error_code NO_ERROR (RpcResponse_default rt)))"
  using add.dispatched [OF assms(1), of "service_register (MathServiceImpl rt) reg" request rt] assms(2-4)
  by (simp add: service_register_def math_service_defs)

lemma add_answer_parses:
  "AddResponse_ParseFromString rt r0 (AddResponse_InternalSerialize rt (add_answer rt q))
     = Some (add_answer rt q, True)"
  using AddResponse_reads_back add_answer_wf by blast

lemma sub_dispatch_undefined:
  assumes "SubRequest_inv q" and "subq_unknown q = unknown_default rt"
    and "service_name request = ''math.MathService''" and "method_name request = ''Sub''"
    and "args request = SubRequest_InternalSerialize rt q"
  shows "dispatchRequest rt (math_ops rt) (service_register (MathServiceImpl rt) reg) request = Undefined"
proof -
  have "AddRequest_ParseFromString rt (AddRequest_default rt) (args request) = Some (sub_as_add q, True)"
    using AddRequest_reads_back [OF AddRequest_default_inv sub_as_add_inv [OF assms(1)]] assms(2,5)
    by (simp add: sub_as_add_encoding) (simp add: sub_as_add_def)
  with assms(3,4) show ?thesis
    by (simp add: dispatch_defs service_register_def math_service_defs Sub_def)
qed

end

section \<open>Properties of the service\<close>

text \<open>
  Addition works through the dispatcher.  A server that registered the service answers a request
  for \<open>math.MathService.Add\<close> whose arguments encode two numbers with a representable sum by \<open>NO_ERROR\<close>
  and a result that parses, into any response object, to exactly their sum as integers; absent
  operands count as zero.
\<close>

theorem add_through_dispatch:
  assumes "pb_runtime_ok rt" and "AddRequest_inv q" and "addq_unknown q = unknown_default rt"
    and "fits_int32 (sint (addq_a q) + sint (addq_b q))"
    and "service_name request = ''math.MathService''" and "method_name request = ''Add''"
    and "args request = AddRequest_InternalSerialize rt q"
  shows "\<exists>rsp sum. dispatchRequest rt (math_ops rt) (service_register (MathServiceImpl rt) reg) request
             = Returned rsp
           \<and> error_code rsp = NO_ERROR
           \<and> AddResponse_ParseFromString rt r0 (result rsp) = Some (sum, True)
           \<and> has_sum sum \<and> sint (addr_sum sum) = sint (addq_a q) + sint (addq_b q)"
  using pb_runtime_ok.add_dispatch_sum [OF assms(1) _ assms(5-7)]
    pb_runtime_ok.add_answer_parses [OF assms(1)] assms(2-4)
  by (auto simp: good_add_def add_answer_def set_sum_def has_sum_def sint_add_fits AddResponse_default_def)

lemma add_through_dispatch_witness:
  "\<exists>rsp sum. dispatchRequest varint_runtime (math_ops varint_runtime)
       (service_register (MathServiceImpl varint_runtime) Map.empty)
       \<lparr>service_name = ''math.MathService'', method_name = ''Add'',
        args = AddRequest_InternalSerialize varint_runtime sample_add, req_unknown = []\<rparr> = Returned rsp
     \<and> AddResponse_ParseFromString varint_runtime (AddResponse_default varint_runtime) (result rsp)
         = Some (sum, True)
     \<and> sint (addr_sum sum) = -5"
proof -
  have a: "AddRequest_inv sample_add" "addq_unknown sample_add = unknown_default varint_runtime"
      "addq_a sample_add = - 5" "addq_b sample_add = 0"
    by (simp_all add: sample_add_def addq_set_a_def addq_set_b_def AddRequest_default_def
        AddRequest_inv_def addq_has_a_def addq_has_b_def)
  have "sint (- 5 :: int32) = - 5" by simp
  with add_through_dispatch [OF vrt.pb_runtime_ok_axioms a(1,2),
      of "\<lparr>service_name = ''math.MathService'', method_name = ''Add'',
           args = AddRequest_InternalSerialize varint_runtime sample_add, req_unknown = []\<rparr>"
      Map.empty "AddResponse_default varint_runtime"] a(3,4)
  show ?thesis by (auto simp: fits_int32_def)
qed

text \<open>
  C20: subtraction never works.  \<open>GetRequestPrototype\<close> and \<open>GetResponsePrototype\<close> ignore the method and
  hand out the messages of \<open>Add\<close>, so for \<open>Sub\<close> both \<open>dynamic_cast\<close>s in \<open>CallMethod\<close> give null pointers that
  \<open>Sub\<close> dereferences: dispatching any well-formed request for \<open>math.MathService.Sub\<close> is undefined
  behaviour, although \<open>Sub\<close> itself, on messages of the right types, would give the difference.
\<close>

theorem sub_is_undefined:
  assumes "pb_runtime_ok rt" and "SubRequest_inv q" and "subq_unknown q = unknown_default rt"
    and "fits_int32 (sint (subq_a q) - sint (subq_b q))"
    and "service_name request = ''math.MathService''" and "method_name request = ''Sub''"
    and "args request = SubRequest_InternalSerialize rt q"
  shows "dispatchRequest rt (math_ops rt) (service_register (MathServiceImpl rt) reg) request = Undefined
    \<and> MathServiceImpl_CallMethod ''Sub'' (MSubRequest q) (MSubResponse r)
        = Returned (MSubResponse (set_diff (subq_a q - subq_b q) r))"
  using pb_runtime_ok.sub_dispatch_undefined [OF assms(1-3,5-7)] assms(4)
  by (simp add: MathServiceImpl_CallMethod_def Sub_def)

lemma sub_is_undefined_witness:
  "dispatchRequest varint_runtime (math_ops varint_runtime)
     (service_register (MathServiceImpl varint_runtime) Map.empty)
     \<lparr>service_name = ''math.MathService'', method_name = ''Sub'',
      args = SubRequest_InternalSerialize varint_runtime sample_sub, req_unknown = []\<rparr> = Undefined"
proof -
  have s: "SubRequest_inv sample_sub" "subq_unknown sample_sub = unknown_default varint_runtime"
      "fits_int32 (sint (subq_a sample_sub) - sint (subq_b sample_sub))"
    by (simp_all add: sample_sub_def subq_set_a_def SubRequest_default_def
        SubRequest_inv_def subq_has_a_def subq_has_b_def fits_int32_def)
  show ?thesis
    using sub_is_undefined [OF vrt.pb_runtime_ok_axioms s,
        of "\<lparr>service_name = ''math.MathService'', method_name = ''Sub'',
             args = SubRequest_InternalSerialize varint_runtime sample_sub, req_unknown = []\<rparr>" Map.empty]
    by simp
qed

end
