(* ===== verification/Event_Loop.thy ===== *)
theory Event_Loop
  imports Rpc_Prelude
begin

text \<open>
  The reactor: \<open>Channel\<close> (\<^verbatim>\<open>src/Channel.h\<close>, \<^verbatim>\<open>src/Channel.cpp\<close>) and \<open>EventLoop\<close> (\<^verbatim>\<open>src/EventLoop.h\<close>,
  \<^verbatim>\<open>src/EventLoop.cpp\<close>).  Channels live in a heap, and a pointer to a destroyed channel has no entry, so
  that a use after the destruction is a value (\<open>None\<close>) of the model.  Callbacks and functors are names;
  what they do to the state is the argument \<open>run\<close>.  The interest list of the kernel is a parameter with
  the documented laws of \<open>epoll_ctl\<close>.
\<close>

unbundle bit_operations_syntax

section \<open>State\<close>

definition EPOLLIN :: uint32 where "EPOLLIN = 1"
definition EPOLLOUT :: uint32 where "EPOLLOUT = 4"
definition EPOLLERR :: uint32 where "EPOLLERR = 8"
definition EPOLLHUP :: uint32 where "EPOLLHUP = 16"
definition EPOLLRDHUP :: uint32 where "EPOLLRDHUP = 8192"

lemmas epoll_bits = EPOLLIN_def EPOLLOUT_def EPOLLERR_def EPOLLHUP_def EPOLLRDHUP_def

type_synonym ptr = nat

record 'cb Channel =
  ch_fd :: int
  ch_events :: uint32
  ch_revents :: uint32
  readCallback :: "'cb option"
  writeCallback :: "'cb option"
  closeCallback :: "'cb option"
  errorCallback :: "'cb option"

definition Channel_new :: "int \<Rightarrow> 'cb Channel" where
  "Channel_new fd = \<lparr>ch_fd = fd, ch_events = 0, ch_revents = 0, readCallback = None,
     writeCallback = None, closeCallback = None, errorCallback = None\<rparr>"

definition setReadCallback :: "'cb \<Rightarrow> 'cb Channel \<Rightarrow> 'cb Channel" where
  "setReadCallback cb ch = ch\<lparr>readCallback := Some cb\<rparr>"

definition setWriteCallback :: "'cb \<Rightarrow> 'cb Channel \<Rightarrow> 'cb Channel" where
  "setWriteCallback cb ch = ch\<lparr>writeCallback := Some cb\<rparr>"

definition setCloseCallback :: "'cb \<Rightarrow> 'cb Channel \<Rightarrow> 'cb Channel" where
  "setCloseCallback cb ch = ch\<lparr>closeCallback := Some cb\<rparr>"

definition setErrorCallback :: "'cb \<Rightarrow> 'cb Channel \<Rightarrow> 'cb Channel" where
  "setErrorCallback cb ch = ch\<lparr>errorCallback := Some cb\<rparr>"

definition set_revents :: "uint32 \<Rightarrow> 'cb Channel \<Rightarrow> 'cb Channel" where
  "set_revents revt ch = ch\<lparr>ch_revents := revt\<rparr>"

definition isWriting :: "'cb Channel \<Rightarrow> bool" where
  "isWriting ch \<longleftrightarrow> ch_events ch AND EPOLLOUT \<noteq> 0"

record ('cb, 'f, 'k) EventLoop =
  kernel :: 'k
  events_size :: nat
  channels :: "int \<rightharpoonup> ptr"
  heap :: "ptr \<rightharpoonup> 'cb Channel"
  looping :: bool
  quitting :: bool
  threadId :: nat
  pendingFunctors :: "'f list"
  wakeups :: nat

section \<open>Operations\<close>

datatype ctl = CTL_ADD | CTL_MOD | CTL_DEL

type_synonym 'k epoll_ctl = "ctl \<Rightarrow> int \<Rightarrow> uint32 \<times> ptr \<Rightarrow> 'k \<Rightarrow> 'k"

definition updateChannel ::
  "'k epoll_ctl \<Rightarrow> ptr \<Rightarrow> 'cb Channel \<Rightarrow> ('cb, 'f, 'k, 'm) EventLoop_scheme \<Rightarrow> ('cb, 'f, 'k, 'm) EventLoop_scheme" where
  "updateChannel ctl p ch lp =
     (let fd = ch_fd ch; event = (ch_events ch, p)
      in if channels lp fd = None
         then lp\<lparr>channels := (channels lp)(fd \<mapsto> p), kernel := ctl CTL_ADD fd event (kernel lp)\<rparr>
         else lp\<lparr>kernel := ctl CTL_MOD fd event (kernel lp)\<rparr>)"

definition removeChannel ::
  "'k epoll_ctl \<Rightarrow> ptr \<Rightarrow> 'cb Channel \<Rightarrow> ('cb, 'f, 'k, 'm) EventLoop_scheme \<Rightarrow> ('cb, 'f, 'k, 'm) EventLoop_scheme" where
  "removeChannel ctl p ch lp =
     lp\<lparr>channels := (channels lp)(ch_fd ch := None),
        kernel := ctl CTL_DEL (ch_fd ch) (0, p) (kernel lp)\<rparr>"

text \<open>
  The operations of a channel that change its events: the channel in the heap is changed and the loop
  updated.  An operation through a dangling pointer is undefined.
\<close>

definition change_events ::
  "'k epoll_ctl \<Rightarrow> (uint32 \<Rightarrow> uint32) \<Rightarrow> ptr \<Rightarrow> ('cb, 'f, 'k, 'm) EventLoop_scheme
     \<Rightarrow> ('cb, 'f, 'k, 'm) EventLoop_scheme option" where
  "change_events ctl g p lp =
     (case heap lp p of
        None \<Rightarrow> None
      | Some ch \<Rightarrow>
          (let ch' = ch\<lparr>ch_events := g (ch_events ch)\<rparr>
           in Some (updateChannel ctl p ch' (lp\<lparr>heap := (heap lp)(p \<mapsto> ch')\<rparr>))))"

definition enableReading where
  "enableReading ctl = change_events ctl (\<lambda>e. e OR EPOLLIN)"

definition enableWriting where
  "enableWriting ctl = change_events ctl (\<lambda>e. e OR EPOLLOUT)"

definition disableWriting where
  "disableWriting ctl = change_events ctl (\<lambda>e. e AND NOT EPOLLOUT)"

definition channel_remove where
  "channel_remove ctl = change_events ctl (\<lambda>_. 0)"

text \<open>The destructor of a channel runs \<open>remove\<close> and frees the object.\<close>

definition Channel_destroy ::
  "'k epoll_ctl \<Rightarrow> ptr \<Rightarrow> ('cb, 'f, 'k, 'm) EventLoop_scheme \<Rightarrow> ('cb, 'f, 'k, 'm) EventLoop_scheme option" where
  "Channel_destroy ctl p lp =
     map_option (\<lambda>lp'. lp'\<lparr>heap := (heap lp')(p := None)\<rparr>) (channel_remove ctl p lp)"

type_synonym ('cb, 's) runner = "'cb \<Rightarrow> 's \<Rightarrow> 's option"

definition call :: "('cb, 's) runner \<Rightarrow> 'cb option \<Rightarrow> 's \<Rightarrow> 's option" where
  "call run cb s = (case cb of None \<Rightarrow> Some s | Some c \<Rightarrow> run c s)"

text \<open>
  \<open>Channel::handleEvent\<close>.  After the read callback the code reads \<open>revents_\<close> again, through \<open>this\<close>.
\<close>

definition handleEvent ::
  "('cb, ('cb, 'f, 'k, 'm) EventLoop_scheme) runner \<Rightarrow> ptr \<Rightarrow> ('cb, 'f, 'k, 'm) EventLoop_scheme
     \<Rightarrow> ('cb, 'f, 'k, 'm) EventLoop_scheme option" where
  "handleEvent run p lp =
     (case heap lp p of
        None \<Rightarrow> None
      | Some ch \<Rightarrow>
          if ch_revents ch AND EPOLLHUP \<noteq> 0 \<and> ch_revents ch AND EPOLLIN = 0
          then call run (closeCallback ch) lp
          else if ch_revents ch AND (EPOLLERR OR EPOLLRDHUP) \<noteq> 0
          then call run (errorCallback ch) lp
          else Option.bind
                 (if ch_revents ch AND EPOLLIN \<noteq> 0 then call run (readCallback ch) lp else Some lp)
                 (\<lambda>lp1. case heap lp1 p of
                    None \<Rightarrow> None
                  | Some ch1 \<Rightarrow>
                      if ch_revents ch1 AND EPOLLOUT \<noteq> 0
                      then call run (writeCallback ch1) lp1 else Some lp1))"

text \<open>The events of one \<open>epoll_wait\<close>, in the order of the array.\<close>

fun process_events ::
  "('cb, ('cb, 'f, 'k, 'm) EventLoop_scheme) runner \<Rightarrow> (ptr \<times> uint32) list
     \<Rightarrow> ('cb, 'f, 'k, 'm) EventLoop_scheme \<Rightarrow> ('cb, 'f, 'k, 'm) EventLoop_scheme option" where
  "process_events run [] lp = Some lp"
| "process_events run ((p, ev) # evs) lp =
     (case heap lp p of
        None \<Rightarrow> None
      | Some ch \<Rightarrow>
          Option.bind (handleEvent run p (lp\<lparr>heap := (heap lp)(p \<mapsto> set_revents ev ch)\<rparr>))
            (process_events run evs))"

fun run_functors :: "('f, 's) runner \<Rightarrow> 'f list \<Rightarrow> 's \<Rightarrow> 's option" where
  "run_functors run [] s = Some s"
| "run_functors run (f # fs) s = Option.bind (run f s) (run_functors run fs)"

definition doPendingFunctors ::
  "('f, ('cb, 'f, 'k, 'm) EventLoop_scheme) runner \<Rightarrow> ('cb, 'f, 'k, 'm) EventLoop_scheme
     \<Rightarrow> ('cb, 'f, 'k, 'm) EventLoop_scheme option" where
  "doPendingFunctors runf lp = run_functors runf (pendingFunctors lp) (lp\<lparr>pendingFunctors := []\<rparr>)"

definition loop_body ::
  "('cb, ('cb, 'f, 'k, 'm) EventLoop_scheme) runner \<Rightarrow> ('f, ('cb, 'f, 'k, 'm) EventLoop_scheme) runner
     \<Rightarrow> (ptr \<times> uint32) list \<Rightarrow> ('cb, 'f, 'k, 'm) EventLoop_scheme \<Rightarrow> ('cb, 'f, 'k, 'm) EventLoop_scheme option" where
  "loop_body run runf evs lp =
     Option.bind (process_events run evs lp)
       (\<lambda>lp1. doPendingFunctors runf
          (if evs \<noteq> [] \<and> length evs = events_size lp1 then lp1\<lparr>events_size := events_size lp1 * 2\<rparr> else lp1))"

text \<open>
  \<open>EventLoop::loop\<close> over the answers of successive calls of \<open>epoll_wait\<close>; an answer is cut at the size of
  the array.  The run stops at \<open>quit\<close> or with the list of answers.
\<close>

fun loop_while ::
  "('cb, ('cb, 'f, 'k, 'm) EventLoop_scheme) runner \<Rightarrow> ('f, ('cb, 'f, 'k, 'm) EventLoop_scheme) runner
     \<Rightarrow> (ptr \<times> uint32) list list \<Rightarrow> ('cb, 'f, 'k, 'm) EventLoop_scheme \<Rightarrow> ('cb, 'f, 'k, 'm) EventLoop_scheme option" where
  "loop_while run runf [] lp = Some lp"
| "loop_while run runf (evs # polls) lp =
     (if quitting lp then Some lp
      else Option.bind (loop_body run runf (take (events_size lp) evs) lp) (loop_while run runf polls))"

definition loop where
  "loop run runf polls lp =
     (if looping lp then None
      else map_option (\<lambda>lp'. if quitting lp' then lp'\<lparr>looping := False\<rparr> else lp')
             (loop_while run runf polls (lp\<lparr>looping := True\<rparr>)))"

text \<open>Operations other threads may call; \<open>me\<close> is the identity of the calling thread.\<close>

definition isInLoopThread :: "nat \<Rightarrow> ('cb, 'f, 'k, 'm) EventLoop_scheme \<Rightarrow> bool" where
  "isInLoopThread me lp \<longleftrightarrow> threadId lp = me"

definition wakeup :: "('cb, 'f, 'k, 'm) EventLoop_scheme \<Rightarrow> ('cb, 'f, 'k, 'm) EventLoop_scheme" where
  "wakeup lp = lp\<lparr>wakeups := wakeups lp + 1\<rparr>"

definition push_functor :: "'f \<Rightarrow> ('cb, 'f, 'k, 'm) EventLoop_scheme \<Rightarrow> ('cb, 'f, 'k, 'm) EventLoop_scheme" where
  "push_functor f lp = lp\<lparr>pendingFunctors := pendingFunctors lp @ [f]\<rparr>"

definition queueInLoop :: "nat \<Rightarrow> 'f \<Rightarrow> ('cb, 'f, 'k, 'm) EventLoop_scheme \<Rightarrow> ('cb, 'f, 'k, 'm) EventLoop_scheme" where
  "queueInLoop me f lp =
     (let lp' = push_functor f lp in if \<not> isInLoopThread me lp' then wakeup lp' else lp')"

definition runInLoop ::
  "('f, ('cb, 'f, 'k, 'm) EventLoop_scheme) runner \<Rightarrow> nat \<Rightarrow> 'f \<Rightarrow> ('cb, 'f, 'k, 'm) EventLoop_scheme
     \<Rightarrow> ('cb, 'f, 'k, 'm) EventLoop_scheme option" where
  "runInLoop runf me f lp = (if isInLoopThread me lp then runf f lp else Some (queueInLoop me f lp))"

definition quit :: "nat \<Rightarrow> ('cb, 'f, 'k, 'm) EventLoop_scheme \<Rightarrow> ('cb, 'f, 'k, 'm) EventLoop_scheme" where
  "quit me lp =
     (let lp' = lp\<lparr>quitting := True\<rparr> in if \<not> isInLoopThread me lp' then wakeup lp' else lp')"

text \<open>The callback of the wakeup channel reads the event counter, which resets it.\<close>

definition read_wakeup :: "('cb, 'f, 'k, 'm) EventLoop_scheme \<Rightarrow> ('cb, 'f, 'k, 'm) EventLoop_scheme" where
  "read_wakeup lp = lp\<lparr>wakeups := 0\<rparr>"

text \<open>
  The constructor: the wakeup channel at pointer \<open>p\<close>, registered for reading.  \<open>epoll_fd\<close> and \<open>event_fd\<close> are
  the answers of \<open>epoll_create1\<close> and \<open>eventfd\<close>; the loop remembers the thread \<open>me\<close> that constructs it.
\<close>

definition createEventfd :: "int \<Rightarrow> int process" where
  "createEventfd fd = (if fd < 0 then ExitProcess else Proceed fd)"

definition EventLoop_new ::
  "'k epoll_ctl \<Rightarrow> 'k \<Rightarrow> nat \<Rightarrow> ptr \<Rightarrow> int \<Rightarrow> int \<Rightarrow> 'cb \<Rightarrow> ('cb, 'f, 'k) EventLoop option process" where
  "EventLoop_new ctl k me p epoll_fd event_fd cb =
     (case createEventfd event_fd of
        ExitProcess \<Rightarrow> ExitProcess
      | Proceed wakeupFd \<Rightarrow>
          if epoll_fd < 0 then ExitProcess
          else Proceed (enableReading ctl p
                 \<lparr>kernel = k, events_size = 16, channels = Map.empty,
                  heap = [p \<mapsto> setReadCallback cb (Channel_new wakeupFd)],
                  looping = False, quitting = False, threadId = me, pendingFunctors = [], wakeups = 0\<rparr>))"

text \<open>
  The destructor: the wakeup channel is removed, then both descriptors are closed; \<open>ep_close\<close> is what closing
  the epoll descriptor does.  The channel, a member, is destroyed last, when \<open>epoll_ctl\<close> can only fail.
\<close>

definition EventLoop_destroy ::
  "'k epoll_ctl \<Rightarrow> (int \<Rightarrow> 'k \<Rightarrow> 'k) \<Rightarrow> ('k \<Rightarrow> 'k) \<Rightarrow> ptr \<Rightarrow> int \<Rightarrow> ('cb, 'f, 'k, 'm) EventLoop_scheme
     \<Rightarrow> ('cb, 'f, 'k, 'm) EventLoop_scheme option" where
  "EventLoop_destroy ctl closed ep_close p wakeupFd lp =
     Option.bind (channel_remove ctl p lp)
       (\<lambda>lp1. Channel_destroy (\<lambda>_ _ _ k. k) p
          (lp1\<lparr>kernel := ep_close (closed wakeupFd (kernel lp1))\<rparr>))"

lemma loop_destroyed:
  assumes "heap lp p = Some ch"
  shows "\<exists>lp'. EventLoop_destroy ctl closed ep_close p fd lp = Some lp' \<and> heap lp' p = None
    \<and> (\<forall>q. q \<noteq> p \<longrightarrow> heap lp' q = heap lp q)"
  using assms by (simp add: EventLoop_destroy_def Channel_destroy_def channel_remove_def change_events_def
      updateChannel_def Let_def)

section \<open>The interest list of the kernel\<close>

text \<open>
  The documented behaviour of \<open>epoll_ctl\<close>: adding fails for a descriptor that is registered, modifying
  fails for one that is not, and closing a descriptor removes it.
\<close>

locale epoll_set =
  fixes ctl :: "'k epoll_ctl"
    and registered :: "'k \<Rightarrow> int \<rightharpoonup> uint32 \<times> ptr"
    and closed :: "int \<Rightarrow> 'k \<Rightarrow> 'k"
  assumes ctl_add: "registered k fd = None \<Longrightarrow> registered (ctl CTL_ADD fd ev k) = (registered k)(fd \<mapsto> ev)"
    and ctl_add_eexist: "registered k fd \<noteq> None \<Longrightarrow> registered (ctl CTL_ADD fd ev k) = registered k"
    and ctl_mod: "registered k fd \<noteq> None \<Longrightarrow> registered (ctl CTL_MOD fd ev k) = (registered k)(fd \<mapsto> ev)"
    and ctl_mod_enoent: "registered k fd = None \<Longrightarrow> registered (ctl CTL_MOD fd ev k) = registered k"
    and ctl_del: "registered (ctl CTL_DEL fd ev k) = (registered k)(fd := None)"
    and ctl_close: "registered (closed fd k) = (registered k)(fd := None)"
begin

text \<open>A channel the loop knows is watched for exactly its events, and no other descriptor is watched.\<close>

definition loop_inv :: "('cb, 'f, 'k, 'm) EventLoop_scheme \<Rightarrow> bool" where
  "loop_inv lp \<longleftrightarrow>
     (\<forall>fd. channels lp fd = None \<longrightarrow> registered (kernel lp) fd = None)
   \<and> (\<forall>p ch. heap lp p = Some ch \<and> channels lp (ch_fd ch) = Some p
        \<longrightarrow> registered (kernel lp) (ch_fd ch) = Some (ch_events ch, p))
   \<and> (\<forall>p q ch ch'. heap lp p = Some ch \<and> heap lp q = Some ch' \<and> ch_fd ch = ch_fd ch' \<longrightarrow> p = q)"

lemma change_events_known:
  assumes "heap lp p = Some ch" and "channels lp (ch_fd ch) \<noteq> None"
  shows "\<exists>lp'. change_events ctl g p lp = Some lp'
      \<and> heap lp' = (heap lp)(p \<mapsto> ch\<lparr>ch_events := g (ch_events ch)\<rparr>) \<and> channels lp' = channels lp
      \<and> registered (kernel lp') = (if registered (kernel lp) (ch_fd ch) = None then registered (kernel lp)
           else (registered (kernel lp))(ch_fd ch \<mapsto> (g (ch_events ch), p)))"
  using assms ctl_mod [of "kernel lp" "ch_fd ch"] ctl_mod_enoent [of "kernel lp" "ch_fd ch"]
  by (auto simp: change_events_def updateChannel_def Let_def)

lemma change_events_unknown:
  assumes "heap lp p = Some ch" and "channels lp (ch_fd ch) = None"
    and "registered (kernel lp) (ch_fd ch) = None"
  shows "\<exists>lp'. change_events ctl g p lp = Some lp'
      \<and> heap lp' = (heap lp)(p \<mapsto> ch\<lparr>ch_events := g (ch_events ch)\<rparr>)
      \<and> channels lp' = (channels lp)(ch_fd ch \<mapsto> p)
      \<and> registered (kernel lp') = (registered (kernel lp))(ch_fd ch \<mapsto> (g (ch_events ch), p))"
  using assms by (simp add: change_events_def updateChannel_def Let_def ctl_add)

lemma change_events_inv:
  assumes inv: "loop_inv lp" and "change_events ctl g p lp = Some lp'"
  shows "loop_inv lp'"
proof -
  obtain ch where ch: "heap lp p = Some ch"
    using assms(2) by (cases "heap lp p") (auto simp: change_events_def)
  show ?thesis
  proof (cases "channels lp (ch_fd ch)")
    case None
    with inv have "registered (kernel lp) (ch_fd ch) = None" by (simp add: loop_inv_def)
    from change_events_unknown [OF ch None this, of g] assms(2)
    have h: "heap lp' = (heap lp)(p \<mapsto> ch\<lparr>ch_events := g (ch_events ch)\<rparr>)"
      and c: "channels lp' = (channels lp)(ch_fd ch \<mapsto> p)"
      and r: "registered (kernel lp') = (registered (kernel lp))(ch_fd ch \<mapsto> (g (ch_events ch), p))"
      by auto
    show ?thesis
      using inv ch unfolding loop_inv_def h c r
      by (auto split: if_splits)
  next
    case (Some q)
    with change_events_known [OF ch, of g] assms(2)
    have h: "heap lp' = (heap lp)(p \<mapsto> ch\<lparr>ch_events := g (ch_events ch)\<rparr>)"
      and c: "channels lp' = channels lp"
      and r: "registered (kernel lp') = (if registered (kernel lp) (ch_fd ch) = None then registered (kernel lp)
           else (registered (kernel lp))(ch_fd ch \<mapsto> (g (ch_events ch), p)))"
      by auto
    show ?thesis
      using inv ch Some unfolding loop_inv_def h c r
      by (auto split: if_splits)
  qed
qed

text \<open>A sequence of operations on one channel.\<close>

end

datatype chan_op = EnableReading | EnableWriting | DisableWriting

fun chan_bits :: "chan_op \<Rightarrow> uint32 \<Rightarrow> uint32" where
  "chan_bits EnableReading e = e OR EPOLLIN"
| "chan_bits EnableWriting e = e OR EPOLLOUT"
| "chan_bits DisableWriting e = e AND NOT EPOLLOUT"

fun chan_step where
  "chan_step ctl EnableReading p lp = enableReading ctl p lp"
| "chan_step ctl EnableWriting p lp = enableWriting ctl p lp"
| "chan_step ctl DisableWriting p lp = disableWriting ctl p lp"

fun chan_run where
  "chan_run ctl [] p lp = Some lp"
| "chan_run ctl (a # as) p lp = Option.bind (chan_step ctl a p lp) (chan_run ctl as p)"

lemma chan_bits_fun:
  "chan_bits EnableReading = (\<lambda>e. e OR EPOLLIN)"
  "chan_bits EnableWriting = (\<lambda>e. e OR EPOLLOUT)"
  "chan_bits DisableWriting = (\<lambda>e. e AND NOT EPOLLOUT)"
  by (simp_all add: fun_eq_iff)

lemma chan_step_change: "chan_step ctl a p lp = change_events ctl (chan_bits a) p lp"
  by (cases a) (simp_all add: enableReading_def enableWriting_def disableWriting_def chan_bits_fun)

lemma Channel_new_fields [simp]: "ch_fd (Channel_new fd) = fd" "ch_events (Channel_new fd) = 0"
  by (simp_all add: Channel_new_def)

context epoll_set
begin

text \<open>A channel the loop knows under its own pointer stays watched for exactly its events.\<close>

lemma run_watched:
  assumes "heap lp p = Some ch" and "channels lp (ch_fd ch) = Some p"
    and "registered (kernel lp) (ch_fd ch) = Some (ch_events ch, p)"
  shows "\<exists>lp' ch'. chan_run ctl ops p lp = Some lp' \<and> heap lp' p = Some ch'
      \<and> ch_events ch' = fold chan_bits ops (ch_events ch)
      \<and> registered (kernel lp') (ch_fd ch) = Some (ch_events ch', p)"
  using assms
proof (induction ops arbitrary: lp ch)
  case Nil
  then show ?case by simp
next
  case (Cons a ops)
  obtain lp1 where lp1: "change_events ctl (chan_bits a) p lp = Some lp1"
      "heap lp1 p = Some (ch\<lparr>ch_events := chan_bits a (ch_events ch)\<rparr>)" "channels lp1 = channels lp"
      "registered (kernel lp1) (ch_fd ch) = Some (chan_bits a (ch_events ch), p)"
    using change_events_known [OF Cons.prems(1), of "chan_bits a"] Cons.prems(2,3) by auto
  with Cons.IH [OF lp1(2)] Cons.prems(2) show ?case by (simp add: chan_step_change)
qed

text \<open>A channel on a descriptor with a stale entry and no registration is never watched.\<close>

lemma run_deaf:
  assumes "heap lp p = Some ch" and "channels lp (ch_fd ch) \<noteq> None"
    and "registered (kernel lp) (ch_fd ch) = None"
  shows "\<exists>lp'. chan_run ctl ops p lp = Some lp' \<and> registered (kernel lp') (ch_fd ch) = None"
  using assms
proof (induction ops arbitrary: lp ch)
  case Nil
  then show ?case by simp
next
  case (Cons a ops)
  obtain lp1 where lp1: "change_events ctl (chan_bits a) p lp = Some lp1"
      "heap lp1 p = Some (ch\<lparr>ch_events := chan_bits a (ch_events ch)\<rparr>)" "channels lp1 = channels lp"
      "registered (kernel lp1) (ch_fd ch) = None"
    using change_events_known [OF Cons.prems(1,2), of "chan_bits a"] Cons.prems(3) by auto
  with Cons.IH [OF lp1(2)] Cons.prems(2) show ?case by (simp add: chan_step_change)
qed

lemma destroy_effect:
  assumes "heap lp p = Some ch" and "channels lp (ch_fd ch) \<noteq> None"
  shows "\<exists>lp'. Channel_destroy ctl p lp = Some lp' \<and> heap lp' = (heap lp)(p := None)
      \<and> channels lp' = channels lp"
  using change_events_known [OF assms, of "\<lambda>_. 0"]
  by (auto simp: Channel_destroy_def channel_remove_def)

end

text \<open>The interest list as a map.\<close>

fun map_ctl :: "(int \<rightharpoonup> uint32 \<times> ptr) epoll_ctl" where
  "map_ctl CTL_ADD fd ev k = (if k fd = None then k(fd \<mapsto> ev) else k)"
| "map_ctl CTL_MOD fd ev k = (if k fd = None then k else k(fd \<mapsto> ev))"
| "map_ctl CTL_DEL fd ev k = k(fd := None)"

definition map_close :: "int \<Rightarrow> (int \<rightharpoonup> uint32 \<times> ptr) \<Rightarrow> (int \<rightharpoonup> uint32 \<times> ptr)" where
  "map_close fd k = k(fd := None)"

interpretation mapk: epoll_set map_ctl "\<lambda>k. k" map_close
  by unfold_locales (auto simp: map_close_def)

section \<open>Properties of channels\<close>

text \<open>
  C21: the kernel watches a channel for exactly the events it asks for.  A new channel on a descriptor
  the loop has never seen, after its first and any further calls of \<open>enableReading\<close>, \<open>enableWriting\<close>
  and \<open>disableWriting\<close>, is registered under its own pointer with the events the calls amount to; no
  call goes through a dangling pointer.
\<close>

theorem channel_watched:
  assumes "epoll_set ctl registered closed"
    and "heap lp p = Some (Channel_new fd)" and "channels lp fd = None"
    and "registered (kernel lp) fd = None" and "ops \<noteq> []"
  shows "\<exists>lp' ch. chan_run ctl ops p lp = Some lp' \<and> heap lp' p = Some ch
           \<and> ch_events ch = fold chan_bits ops 0
           \<and> registered (kernel lp') fd = Some (ch_events ch, p)"
proof (cases ops)
  case Nil
  with assms(5) show ?thesis by simp
next
  case (Cons a rest)
  obtain lp1 where lp1: "change_events ctl (chan_bits a) p lp = Some lp1"
      "heap lp1 p = Some ((Channel_new fd)\<lparr>ch_events := chan_bits a 0\<rparr>)"
      "channels lp1 fd = Some p" "registered (kernel lp1) fd = Some (chan_bits a 0, p)"
    using epoll_set.change_events_unknown [OF assms(1,2), of "chan_bits a"] assms(3,4) by auto
  show ?thesis
    using epoll_set.run_watched [OF assms(1) lp1(2), of rest] lp1(1,3,4)
    by (simp add: Cons chan_step_change)
qed

definition one_channel :: "(nat, nat, int \<rightharpoonup> uint32 \<times> ptr) EventLoop" where
  "one_channel = \<lparr>kernel = Map.empty, events_size = 16, channels = Map.empty,
     heap = [0 \<mapsto> Channel_new 7], looping = False, quitting = False, threadId = 0,
     pendingFunctors = [], wakeups = 0\<rparr>"

lemma channel_watched_witness:
  "\<exists>lp' ch. chan_run map_ctl [EnableReading, EnableWriting, DisableWriting] 0 one_channel = Some lp'
     \<and> heap lp' 0 = Some ch \<and> kernel lp' 7 = Some (EPOLLIN, 0)"
proof -
  have "fold chan_bits [EnableReading, EnableWriting, DisableWriting] 0 = EPOLLIN"
    by (simp add: epoll_bits)
  with channel_watched [OF mapk.epoll_set_axioms, of one_channel 0 7 "[EnableReading, EnableWriting, DisableWriting]"]
  show ?thesis by (auto simp: one_channel_def)
qed

text \<open>
  C22: a descriptor that is used again is never watched.  \<open>Channel::remove\<close>, which the destructor runs,
  only sets the events to zero: it calls \<open>updateChannel\<close> and not \<open>removeChannel\<close>, so the entry of the
  descriptor in \<open>channels_\<close> stays.  Once the socket is closed and the kernel hands the same number to
  a new connection, \<open>updateChannel\<close> takes the branch \<open>EPOLL_CTL_MOD\<close>, which fails with \<open>ENOENT\<close>, for every
  call: the new channel gets no events.
\<close>

theorem reused_fd_is_deaf:
  assumes "epoll_set ctl registered closed"
    and "heap lp p = Some ch" and "ch_fd ch = fd" and "channels lp fd = Some p"
  shows "\<exists>lp1. Channel_destroy ctl p lp = Some lp1 \<and> heap lp1 p = None
    \<and> (\<exists>lp'. chan_run ctl ops q
           (lp1\<lparr>kernel := closed fd (kernel lp1), heap := (heap lp1)(q \<mapsto> Channel_new fd)\<rparr>) = Some lp'
         \<and> registered (kernel lp') fd = None)"
proof -
  obtain lp1 where lp1: "Channel_destroy ctl p lp = Some lp1" "heap lp1 = (heap lp)(p := None)"
      "channels lp1 = channels lp"
    using epoll_set.destroy_effect [OF assms(1,2)] assms(3,4) by auto
  let ?lp2 = "lp1\<lparr>kernel := closed fd (kernel lp1), heap := (heap lp1)(q \<mapsto> Channel_new fd)\<rparr>"
  have "heap ?lp2 q = Some (Channel_new fd)" "channels ?lp2 (ch_fd (Channel_new fd)) \<noteq> None"
      "registered (kernel ?lp2) (ch_fd (Channel_new fd)) = None"
    using lp1 assms(4) epoll_set.ctl_close [OF assms(1)] by simp_all
  from epoll_set.run_deaf [OF assms(1) this, of ops] lp1 show ?thesis by simp
qed

lemma reused_fd_is_deaf_witness:
  "\<exists>lp1. Channel_destroy map_ctl 0 (one_channel\<lparr>channels := [7 \<mapsto> 0]\<rparr>) = Some lp1
    \<and> (\<exists>lp'. chan_run map_ctl [EnableReading] 1
           (lp1\<lparr>kernel := map_close 7 (kernel lp1), heap := (heap lp1)(1 \<mapsto> Channel_new 7)\<rparr>) = Some lp'
         \<and> kernel lp' 7 = None)"
  using reused_fd_is_deaf [OF mapk.epoll_set_axioms, of "one_channel\<lparr>channels := [7 \<mapsto> 0]\<rparr>" 0 "Channel_new 7" 7
      "[EnableReading]" 1]
  by (auto simp: one_channel_def)

text \<open>
  \<open>handleEvent\<close> after the read callback: if the callback destroyed the channel, the code reads
  \<open>revents_\<close> of the destroyed object.
\<close>

lemma handle_event_read:
  assumes "heap lp p = Some ch" and "ch_revents ch AND (EPOLLERR OR EPOLLRDHUP) = 0"
    and "ch_revents ch AND EPOLLIN \<noteq> 0" and "readCallback ch = Some cb" and "run cb lp = Some lp1"
  shows "handleEvent run p lp =
     (case heap lp1 p of
        None \<Rightarrow> None
      | Some ch1 \<Rightarrow> if ch_revents ch1 AND EPOLLOUT \<noteq> 0 then call run (writeCallback ch1) lp1 else Some lp1)"
  using assms by (simp add: handleEvent_def call_def)

end
