(* ===== verification/Fifo_Executor.thy ===== *)
theory Fifo_Executor
  imports Rpc_Prelude "HOL-Library.Sublist"
begin

text \<open>
  Transition systems with an invariant, which the loop, the thread pool and the client channel are
  instances of, and executors, which run work in the order it was posted.
\<close>

locale step_system =
  fixes init :: "'s \<Rightarrow> bool"
    and step :: "'s \<Rightarrow> 's \<Rightarrow> bool"
    and inv :: "'s \<Rightarrow> bool"
  assumes init_inv: "init s \<Longrightarrow> inv s"
    and step_inv: "inv s \<Longrightarrow> step s s' \<Longrightarrow> inv s'"
begin

inductive reachable :: "'s \<Rightarrow> bool" where
  start: "init s \<Longrightarrow> reachable s"
| next_state: "reachable s \<Longrightarrow> step s s' \<Longrightarrow> reachable s'"

lemma reachable_inv: "reachable s \<Longrightarrow> inv s"
  by (induction rule: reachable.induct) (auto intro: init_inv step_inv)

lemma reachable_steps: "step\<^sup>*\<^sup>* s s' \<Longrightarrow> reachable s \<Longrightarrow> reachable s'"
  by (induction rule: rtranclp_induct) (auto intro: next_state)

lemma steps_inv: "init s \<Longrightarrow> step\<^sup>*\<^sup>* s s' \<Longrightarrow> inv s'"
  by (rule reachable_inv [OF reachable_steps [OF _ start]])

end

text \<open>
  The contract that the event loop and the thread pool share: tasks are posted at one end of a queue
  and started from the other.  Whatever the steps in between, the tasks started so far are the first
  posted ones, each started once.
\<close>

locale fifo_executor = step_system init step inv
  for init :: "'s \<Rightarrow> bool" and step :: "'s \<Rightarrow> 's \<Rightarrow> bool" and inv :: "'s \<Rightarrow> bool" +
  fixes posts :: "'s \<Rightarrow> 'f list"
    and starts :: "'s \<Rightarrow> 'f list"
    and queue :: "'s \<Rightarrow> 'f list"
  assumes init_empty: "init s \<Longrightarrow> posts s = starts s @ queue s"
    and step_queue: "inv s \<Longrightarrow> step s s' \<Longrightarrow>
      (\<exists>f. posts s' = posts s @ [f] \<and> queue s' = queue s @ [f] \<and> starts s' = starts s)
    \<or> (\<exists>f. queue s = f # queue s' \<and> starts s' = starts s @ [f] \<and> posts s' = posts s)
    \<or> (posts s' = posts s \<and> starts s' = starts s \<and> queue s' = queue s)"
begin

lemma reachable_fifo: "reachable s \<Longrightarrow> posts s = starts s @ queue s"
proof (induction rule: reachable.induct)
  case (start s)
  then show ?case by (rule init_empty)
next
  case (next_state s s')
  with step_queue [OF reachable_inv [OF next_state(1)] next_state(2)] show ?case by auto
qed

text \<open>A task is started at most as often as it was posted, and exactly as often once nothing waits.\<close>

lemma started_prefix: "reachable s \<Longrightarrow> prefix (starts s) (posts s)"
  using reachable_fifo by (metis prefixI)

lemma all_started: "reachable s \<Longrightarrow> queue s = [] \<Longrightarrow> starts s = posts s"
  using reachable_fifo by force

end

end
