(* ===== verification/Loop_Steps.thy ===== *)
theory Loop_Steps
  imports Event_Loop Fifo_Executor "HOL-Library.Multiset"
begin

text \<open>
  The loop of \<^verbatim>\<open>src/EventLoop.cpp\<close> and the threads that post functors to it, as a step relation: a post from
  another thread is the push under the lock and, later, the write to the event descriptor; one pass of
  the loop is the return of \<open>epoll_wait\<close>, the handlers, the swap of the pending functors and their
  execution one by one.  Any interleaving of these steps is a run.  The thread that runs the loop need not
  be the one whose identity the constructor stored: both programs construct a loop in one thread and run
  it in another.
\<close>

section \<open>States and steps\<close>

datatype phase = Polling | Handling | Draining

text \<open>
  Besides the loop: the functors the loop has taken and not yet run, the threads that have pushed and
  not yet written, the history of posts and executions, and for every pending functor the thread that
  posted it.
\<close>

record ('cb, 'f, 'k) loop_run = "('cb, 'f, 'k) EventLoop" +
  phase :: phase
  running :: "'f list"
  signalling :: "nat multiset"
  posted :: "'f list"
  executed :: "'f list"
  posters :: "nat list"

definition loop_start :: "('cb, 'f, 'k) loop_run \<Rightarrow> bool" where
  "loop_start s \<longleftrightarrow> phase s = Polling \<and> running s = [] \<and> pendingFunctors s = [] \<and> signalling s = {#}
     \<and> posted s = [] \<and> executed s = [] \<and> posters s = []"

text \<open>
  The steps of a loop that thread \<open>r\<close> runs.  While \<open>r\<close> waits in \<open>epoll_wait\<close> it cannot post; any other thread
  posts at any time, also the one that constructed the loop, and follows its push with a wakeup unless
  it is that thread.
\<close>

inductive loop_step :: "nat \<Rightarrow> ('cb, 'f, 'k) loop_run \<Rightarrow> ('cb, 'f, 'k) loop_run \<Rightarrow> bool" for r where
  push: "t \<noteq> r \<Longrightarrow>
    loop_step r s ((push_functor f s)\<lparr>posted := posted s @ [f], posters := posters s @ [t],
      signalling := (if isInLoopThread t s then signalling s else add_mset t (signalling s))\<rparr>)"
| signal: "t \<in># signalling s \<Longrightarrow> loop_step r s ((wakeup s)\<lparr>signalling := signalling s - {#t#}\<rparr>)"
| wake: "phase s = Polling \<Longrightarrow> loop_step r s (s\<lparr>phase := Handling\<rparr>)"
| drain_eventfd: "phase s = Handling \<Longrightarrow> loop_step r s (read_wakeup s)"
| self_post: "phase s \<noteq> Polling \<Longrightarrow>
    loop_step r s ((queueInLoop r f s)\<lparr>posted := posted s @ [f], posters := posters s @ [r]\<rparr>)"
| swap: "phase s = Handling \<Longrightarrow>
    loop_step r s (s\<lparr>phase := Draining, running := pendingFunctors s, pendingFunctors := [], posters := []\<rparr>)"
| run: "phase s = Draining \<Longrightarrow> running s = f # fs \<Longrightarrow>
    loop_step r s (s\<lparr>running := fs, executed := executed s @ [f]\<rparr>)"
| finish: "phase s = Draining \<Longrightarrow> running s = [] \<Longrightarrow> loop_step r s (s\<lparr>phase := Polling\<rparr>)"

section \<open>Invariants\<close>

text \<open>The steps are those of the code: a post is the push and then, from other threads, the write.\<close>

lemma queueInLoop_split:
  "queueInLoop t f s = (if isInLoopThread t s then push_functor f s else wakeup (push_functor f s))"
  by (simp add: queueInLoop_def isInLoopThread_def push_functor_def Let_def)

lemmas loop_ops = queueInLoop_split push_functor_def wakeup_def read_wakeup_def

text \<open>Outside the execution of functors, none is taken and waiting.\<close>

definition taken_inv :: "('cb, 'f, 'k) loop_run \<Rightarrow> bool" where
  "taken_inv s \<longleftrightarrow> (phase s \<noteq> Draining \<longrightarrow> running s = [])"

interpretation evl: fifo_executor loop_start "loop_step r" taken_inv posted executed
  "\<lambda>s. running s @ pendingFunctors s" for r
proof
  show "taken_inv s" if "loop_start s" for s :: "('cb, 'f, 'k) loop_run"
    using that by (simp add: taken_inv_def loop_start_def)
  show "posted s = executed s @ running s @ pendingFunctors s" if "loop_start s" for s :: "('cb, 'f, 'k) loop_run"
    using that by (simp add: loop_start_def)
  show "taken_inv s'" if "taken_inv s" "loop_step r s s'" for s s' :: "('cb, 'f, 'k) loop_run"
    using that(2,1) by (induction rule: loop_step.induct) (auto simp: taken_inv_def loop_ops)
  show "(\<exists>f. posted s' = posted s @ [f] \<and> running s' @ pendingFunctors s' = (running s @ pendingFunctors s) @ [f]
          \<and> executed s' = executed s)
      \<or> (\<exists>f. running s @ pendingFunctors s = f # running s' @ pendingFunctors s'
          \<and> executed s' = executed s @ [f] \<and> posted s' = posted s)
      \<or> (posted s' = posted s \<and> executed s' = executed s
          \<and> running s' @ pendingFunctors s' = running s @ pendingFunctors s)"
    if "taken_inv s" "loop_step r s s'" for s s' :: "('cb, 'f, 'k) loop_run"
    using that(2,1) by (induction rule: loop_step.induct) (auto simp: taken_inv_def loop_ops)
qed

abbreviation loop_reach :: "nat \<Rightarrow> ('cb, 'f, 'k) loop_run \<Rightarrow> bool" where
  "loop_reach \<equiv> evl.reachable"

text \<open>Outside the handlers, a pending functor of another thread has been announced or is being announced.\<close>

definition wakeup_inv :: "('cb, 'f, 'k) loop_run \<Rightarrow> bool" where
  "wakeup_inv s \<longleftrightarrow> length (posters s) = length (pendingFunctors s)
     \<and> (phase s \<noteq> Handling \<longrightarrow> (\<exists>t \<in> set (posters s). t \<noteq> threadId s) \<longrightarrow> 0 < wakeups s \<or> signalling s \<noteq> {#})"

lemma wakeup_step: "loop_step r s s' \<Longrightarrow> wakeup_inv s \<Longrightarrow> wakeup_inv s'"
  by (induction rule: loop_step.induct)
    (auto simp: wakeup_inv_def queueInLoop_def push_functor_def wakeup_def read_wakeup_def isInLoopThread_def Let_def)

lemma wakeup_reach: "loop_reach r s \<Longrightarrow> wakeup_inv s"
  by (induction rule: evl.reachable.induct) (auto simp: wakeup_step, simp add: wakeup_inv_def loop_start_def)

text \<open>The loop's own steps: from the handlers, a swap and as many runs as there are functors.\<close>

lemma drain_runs:
  assumes "phase s = Draining"
  shows "(loop_step r)\<^sup>*\<^sup>* s (s\<lparr>executed := executed s @ running s, running := [], phase := Polling\<rparr>)"
  using assms
proof (induction "running s" arbitrary: s)
  case Nil
  then have "loop_step r s (s\<lparr>phase := Polling\<rparr>)" by (auto intro: loop_step.finish)
  with Nil show ?case by (cases s) (auto simp: loop_run.defs)
next
  case (Cons f fs)
  let ?s = "s\<lparr>running := fs, executed := executed s @ [f]\<rparr>"
  have "loop_step r s ?s" using Cons.prems Cons.hyps(2) by (intro loop_step.run) auto
  moreover have "(loop_step r)\<^sup>*\<^sup>* ?s (?s\<lparr>executed := executed ?s @ running ?s, running := [], phase := Polling\<rparr>)"
    using Cons.hyps(1) [of ?s] Cons.prems by simp
  ultimately show ?case using Cons.hyps(2) [symmetric] by (auto intro: converse_rtranclp_into_rtranclp)
qed

section \<open>Properties of the loop\<close>

text \<open>
  C16: functors run exactly once and in the order they were posted.  In every reachable state, under
  any interleaving of the posting threads with the loop, the sequence of all posts is the executed
  functors, then those taken and waiting, then those pending.
\<close>

theorem functors_run_in_order:
  assumes "loop_reach r s"
  shows "posted s = executed s @ running s @ pendingFunctors s"
  by (rule evl.reachable_fifo [OF assms])

definition idle_loop :: "(unit, nat, unit) loop_run" where
  "idle_loop = \<lparr>kernel = (), events_size = 16, channels = Map.empty, heap = Map.empty, looping = True,
     quitting = False, threadId = 0, pendingFunctors = [], wakeups = 0, phase = Polling, running = [],
     signalling = {#}, posted = [], executed = [], posters = []\<rparr>"

lemma idle_start: "loop_start idle_loop"
  by (simp add: loop_start_def idle_loop_def)

definition posted_loop :: "(unit, nat, unit) loop_run" where
  "posted_loop = (push_functor 5 idle_loop)\<lparr>posted := posted idle_loop @ [5], posters := [1],
     signalling := add_mset 1 (signalling idle_loop)\<rparr>"

lemma posted_reach: "loop_reach 0 posted_loop"
proof -
  have "loop_step 0 idle_loop posted_loop"
    using loop_step.push [of 1 0 idle_loop 5] by (simp add: posted_loop_def idle_loop_def isInLoopThread_def)
  then show ?thesis by (rule evl.next_state [OF evl.start [OF idle_start]])
qed

lemma functors_run_in_order_witness:
  "posted posted_loop = executed posted_loop @ running posted_loop @ pendingFunctors posted_loop
   \<and> posted posted_loop = [5]"
  using functors_run_in_order [OF posted_reach] by (simp add: posted_loop_def idle_loop_def)

text \<open>
  C27: no wakeup for another thread is lost.  Whichever thread runs the loop, whenever it waits in
  \<open>epoll_wait\<close> while a functor is pending that was posted by another thread than the one that constructed the
  loop, the event descriptor is readable or a posting thread has yet to write to it; and for every
  pending functor the thread that posted it is known.
\<close>

theorem no_lost_wakeup:
  assumes "loop_reach r s" and "phase s = Polling" and "t \<in> set (posters s)" and "t \<noteq> threadId s"
  shows "(0 < wakeups s \<or> (\<exists>u. u \<in># signalling s)) \<and> length (posters s) = length (pendingFunctors s)"
  using wakeup_reach [OF assms(1)] assms(2-4) by (auto simp: wakeup_inv_def)

lemma no_lost_wakeup_witness:
  "(0 < wakeups posted_loop \<or> (\<exists>u. u \<in># signalling posted_loop)) \<and> length (pendingFunctors posted_loop) = 1"
  using no_lost_wakeup [OF posted_reach, of 1]
  by (simp add: posted_loop_def idle_loop_def push_functor_def)

text \<open>
  The constructing thread is never taken for another thread.  When another thread runs the loop, as in
  both programs, a functor that the constructing thread posts while the loop waits in \<open>epoll_wait\<close> is not
  announced: it waits for the timeout of one second.
\<close>

theorem constructor_post_not_woken:
  "\<exists>s :: (unit, nat, unit) loop_run. loop_reach 1 s \<and> threadId s = 0 \<and> phase s = Polling
     \<and> pendingFunctors s = [5] \<and> wakeups s = 0 \<and> signalling s = {#}"
proof -
  let ?s = "(push_functor 5 idle_loop)\<lparr>posted := [5], posters := [0]\<rparr>"
  have "loop_step 1 idle_loop ?s"
    using loop_step.push [of 0 1 idle_loop 5] by (simp add: idle_loop_def isInLoopThread_def push_functor_def)
  then have "loop_reach 1 ?s" by (rule evl.next_state [OF evl.start [OF idle_start]])
  then show ?thesis by (intro exI [of _ ?s]) (simp add: idle_loop_def push_functor_def)
qed

text \<open>
  A functor that a functor queues waits for the timeout.  There is a run in which the thread that
  constructed the loop and runs it calls \<open>queueInLoop\<close> while it executes the pending functors, and the loop
  then goes back to \<open>epoll_wait\<close> with that functor pending, an unreadable event descriptor and no thread
  about to write: the comment in \<open>queueInLoop\<close> announces a wakeup for this case, the code has none.
\<close>

theorem self_post_not_woken:
  "\<exists>s :: (unit, nat, unit) loop_run. loop_reach 0 s \<and> phase s = Polling \<and> pendingFunctors s \<noteq> []
     \<and> wakeups s = 0 \<and> signalling s = {#}"
proof -
  let ?h = "idle_loop\<lparr>phase := Handling\<rparr>"
  let ?d = "?h\<lparr>phase := Draining, running := pendingFunctors ?h, pendingFunctors := [], posters := []\<rparr>"
  let ?q = "(queueInLoop 0 5 ?d)\<lparr>posted := posted ?d @ [5], posters := posters ?d @ [0]\<rparr>"
  have "loop_reach 0 ?h"
    by (intro evl.next_state [OF evl.start [OF idle_start]] loop_step.wake) (simp add: idle_loop_def)
  then have "loop_reach 0 ?d" by (rule evl.next_state) (rule loop_step.swap, simp)
  then have "loop_reach 0 ?q" by (rule evl.next_state) (rule loop_step.self_post, simp)
  then have "loop_reach 0 (?q\<lparr>phase := Polling\<rparr>)"
    by (rule evl.next_state) (rule loop_step.finish; simp add: queueInLoop_def isInLoopThread_def push_functor_def idle_loop_def Let_def)
  moreover have "phase (?q\<lparr>phase := Polling\<rparr>) = Polling" "pendingFunctors (?q\<lparr>phase := Polling\<rparr>) \<noteq> []"
      "wakeups (?q\<lparr>phase := Polling\<rparr>) = 0" "signalling (?q\<lparr>phase := Polling\<rparr>) = {#}"
    by (simp_all add: queueInLoop_def isInLoopThread_def push_functor_def idle_loop_def Let_def)
  ultimately show ?thesis by blast
qed

text \<open>
  One pass of the loop runs everything posted before it.  From any reachable state in which the
  loop has returned from \<open>epoll_wait\<close>, its own next steps execute all functors posted so far and bring it
  back to \<open>epoll_wait\<close> with nothing pending.
\<close>

theorem pass_runs_posted:
  assumes "loop_reach r s" and "phase s = Handling"
  shows "\<exists>s'. (loop_step r)\<^sup>*\<^sup>* s s' \<and> phase s' = Polling \<and> executed s' = posted s \<and> pendingFunctors s' = []"
proof -
  let ?d = "s\<lparr>phase := Draining, running := pendingFunctors s, pendingFunctors := [], posters := []\<rparr>"
  let ?e = "?d\<lparr>executed := executed ?d @ running ?d, running := [], phase := Polling\<rparr>"
  have "loop_step r s ?d" using assms(2) by (rule loop_step.swap)
  moreover have "(loop_step r)\<^sup>*\<^sup>* ?d ?e"
    by (rule drain_runs) simp
  moreover have "posted s = executed s @ pendingFunctors s"
    using evl.reachable_fifo [OF assms(1)] evl.reachable_inv [OF assms(1)] assms(2) by (simp add: taken_inv_def)
  ultimately have "(loop_step r)\<^sup>*\<^sup>* s ?e \<and> phase ?e = Polling \<and> executed ?e = posted s \<and> pendingFunctors ?e = []"
    by (simp add: converse_rtranclp_into_rtranclp)
  then show ?thesis by blast
qed

lemma pass_runs_posted_witness:
  "\<exists>s'. (loop_step 0)\<^sup>*\<^sup>* (posted_loop\<lparr>phase := Handling\<rparr>) s' \<and> phase s' = Polling \<and> executed s' = [5]"
proof -
  have "loop_reach 0 (posted_loop\<lparr>phase := Handling\<rparr>)"
    by (intro evl.next_state [OF posted_reach] loop_step.wake)
      (simp add: posted_loop_def idle_loop_def push_functor_def)
  from pass_runs_posted [OF this] show ?thesis
    by (auto simp: posted_loop_def idle_loop_def push_functor_def)
qed

end
