(* ===== verification/Thread_Pool.thy ===== *)
theory Thread_Pool
  imports Fifo_Executor "HOL-Library.Multiset"
begin

text \<open>
  The worker pool of \<^verbatim>\<open>src/ThreadPool.h\<close> and \<^verbatim>\<open>src/ThreadPool.cpp\<close>.  The critical sections under \<open>mutex_\<close> are
  functions on the pool; their interleaving, the waiting on the condition variable and its
  notifications are a step relation.
\<close>

section \<open>The pool\<close>

record 'f ThreadPool =
  tasks :: "'f list"
  stop :: bool

definition ThreadPool_new :: "'f ThreadPool" where
  "ThreadPool_new = \<lparr>tasks = [], stop = False\<rparr>"

text \<open>The critical section of \<open>enqueue\<close>.\<close>

definition enqueue :: "'f \<Rightarrow> 'f ThreadPool \<Rightarrow> 'f ThreadPool" where
  "enqueue task p = p\<lparr>tasks := tasks p @ [task]\<rparr>"

text \<open>The critical section of a worker: wait, return, or take the front task.\<close>

datatype 'f decision = Wait | Exit | Take 'f

definition worker_section :: "'f ThreadPool \<Rightarrow> 'f decision \<times> 'f ThreadPool" where
  "worker_section p =
     (if \<not> (stop p \<or> tasks p \<noteq> []) then (Wait, p)
      else if stop p \<and> tasks p = [] then (Exit, p)
      else (Take (hd (tasks p)), p\<lparr>tasks := tl (tasks p)\<rparr>))"

text \<open>The critical section of the destructor.\<close>

definition request_stop :: "'f ThreadPool \<Rightarrow> 'f ThreadPool" where
  "request_stop p = p\<lparr>stop := True\<rparr>"

section \<open>Threads\<close>

text \<open>
  A worker is about to enter its critical section, blocked in \<open>cond_.wait\<close>, running a task outside
  the lock, or has returned.
\<close>

datatype 'f worker = Ready | Blocked | Running 'f | Exited

text \<open>
  The pool with its workers; the calls of \<open>notify_one\<close> that are due, whether \<open>notify_all\<close> is due, and
  the history of posts, starts and completions.
\<close>

record 'f pool_run = "'f ThreadPool" +
  workers :: "'f worker list"
  notifies :: nat
  notify_all_due :: bool
  posted_tasks :: "'f list"
  started_tasks :: "'f list"
  finished_tasks :: "'f list"

definition pool_start :: "'f pool_run \<Rightarrow> bool" where
  "pool_start s \<longleftrightarrow> ThreadPool.truncate s = ThreadPool_new \<and> set (workers s) \<subseteq> {Ready}
     \<and> notifies s = 0 \<and> \<not> notify_all_due s
     \<and> posted_tasks s = [] \<and> started_tasks s = [] \<and> finished_tasks s = []"

text \<open>The effect of a critical section on the pool inside the larger state.\<close>

definition with_pool :: "('f ThreadPool \<Rightarrow> 'f ThreadPool) \<Rightarrow> 'f pool_run \<Rightarrow> 'f pool_run" where
  "with_pool g s =
     (let p = g (ThreadPool.truncate s) in s\<lparr>tasks := tasks p, stop := stop p\<rparr>)"

definition unblock :: "'f worker \<Rightarrow> 'f worker" where
  "unblock w = (if w = Blocked then Ready else w)"

text \<open>
  Posting ends when the destructor begins: the pool is not used during its destruction.
\<close>

inductive pool_step :: "'f pool_run \<Rightarrow> 'f pool_run \<Rightarrow> bool" where
  post: "\<not> stop s \<Longrightarrow>
    pool_step s ((with_pool (enqueue f) s)\<lparr>posted_tasks := posted_tasks s @ [f], notifies := Suc (notifies s)\<rparr>)"
| notify_one: "notifies s = Suc n \<Longrightarrow> i < length (workers s) \<Longrightarrow> workers s ! i = Blocked \<Longrightarrow>
    pool_step s (s\<lparr>notifies := n, workers := (workers s)[i := Ready]\<rparr>)"
| notify_nobody: "notifies s = Suc n \<Longrightarrow> Blocked \<notin> set (workers s) \<Longrightarrow> pool_step s (s\<lparr>notifies := n\<rparr>)"
| spurious: "i < length (workers s) \<Longrightarrow> workers s ! i = Blocked \<Longrightarrow>
    pool_step s (s\<lparr>workers := (workers s)[i := Ready]\<rparr>)"
| block: "i < length (workers s) \<Longrightarrow> workers s ! i = Ready \<Longrightarrow>
    worker_section (ThreadPool.truncate s) = (Wait, p) \<Longrightarrow> pool_step s (s\<lparr>workers := (workers s)[i := Blocked]\<rparr>)"
| take: "i < length (workers s) \<Longrightarrow> workers s ! i = Ready \<Longrightarrow>
    worker_section (ThreadPool.truncate s) = (Take f, p) \<Longrightarrow>
    pool_step s ((with_pool (\<lambda>_. p) s)\<lparr>workers := (workers s)[i := Running f],
                                       started_tasks := started_tasks s @ [f]\<rparr>)"
| leave: "i < length (workers s) \<Longrightarrow> workers s ! i = Ready \<Longrightarrow>
    worker_section (ThreadPool.truncate s) = (Exit, p) \<Longrightarrow> pool_step s (s\<lparr>workers := (workers s)[i := Exited]\<rparr>)"
| complete: "i < length (workers s) \<Longrightarrow> workers s ! i = Running f \<Longrightarrow>
    pool_step s (s\<lparr>workers := (workers s)[i := Ready], finished_tasks := finished_tasks s @ [f]\<rparr>)"
| destroy: "\<not> stop s \<Longrightarrow> pool_step s ((with_pool request_stop s)\<lparr>notify_all_due := True\<rparr>)"
| notify_all: "notify_all_due s \<Longrightarrow>
    pool_step s (s\<lparr>notify_all_due := False, workers := map unblock (workers s)\<rparr>)"

lemmas pool_defs = with_pool_def ThreadPool.defs enqueue_def request_stop_def Let_def

lemma section_simps [simp]:
  "worker_section \<lparr>tasks = ts, stop = b\<rparr> = (Wait, p) \<longleftrightarrow> \<not> b \<and> ts = [] \<and> p = \<lparr>tasks = [], stop = False\<rparr>"
  "worker_section \<lparr>tasks = ts, stop = b\<rparr> = (Exit, p) \<longleftrightarrow> b \<and> ts = [] \<and> p = \<lparr>tasks = [], stop = True\<rparr>"
  "worker_section \<lparr>tasks = ts, stop = b\<rparr> = (Take f, p) \<longleftrightarrow> (\<exists>fs. ts = f # fs \<and> p = \<lparr>tasks = fs, stop = b\<rparr>)"
  by (auto simp: worker_section_def neq_Nil_conv)

section \<open>Tasks are started in order\<close>

interpretation pool: fifo_executor pool_start pool_step "\<lambda>_. True" posted_tasks started_tasks
  "tasks :: 'f pool_run \<Rightarrow> 'f list"
proof
  show "posted_tasks s = started_tasks s @ tasks s" if "pool_start s" for s :: "'f pool_run"
    using that by (simp add: pool_start_def ThreadPool_new_def ThreadPool.defs)
  show "(\<exists>f. posted_tasks s' = posted_tasks s @ [f] \<and> tasks s' = tasks s @ [f]
          \<and> started_tasks s' = started_tasks s)
      \<or> (\<exists>f. tasks s = f # tasks s' \<and> started_tasks s' = started_tasks s @ [f]
          \<and> posted_tasks s' = posted_tasks s)
      \<or> (posted_tasks s' = posted_tasks s \<and> started_tasks s' = started_tasks s \<and> tasks s' = tasks s)"
    if "pool_step s s'" for s s' :: "'f pool_run"
    using that by (induction rule: pool_step.induct) (auto simp: pool_defs)
qed simp_all

abbreviation pool_reach :: "'f pool_run \<Rightarrow> bool" where
  "pool_reach \<equiv> pool.reachable"

section \<open>Invariants\<close>

fun task_of :: "'f worker \<Rightarrow> 'f multiset" where
  "task_of (Running f) = {#f#}"
| "task_of _ = {#}"

definition running_tasks :: "'f worker list \<Rightarrow> 'f multiset" where
  "running_tasks ws = sum_list (map task_of ws)"

lemma running_update:
  "i < length ws \<Longrightarrow> running_tasks (ws[i := w]) + task_of (ws ! i) = running_tasks ws + task_of w"
  by (induction ws arbitrary: i) (auto simp: running_tasks_def nth_Cons split: nat.splits)

lemma running_unblock [simp]: "running_tasks (map unblock ws) = running_tasks ws"
  by (induction ws) (auto simp: running_tasks_def unblock_def)

lemma running_none: "\<forall>w \<in> set ws. task_of w = {#} \<Longrightarrow> running_tasks ws = {#}"
  by (induction ws) (auto simp: running_tasks_def)

text \<open>Every started task is finished or held by exactly one worker.\<close>

definition once_inv :: "'f pool_run \<Rightarrow> bool" where
  "once_inv s \<longleftrightarrow> mset (started_tasks s) = mset (finished_tasks s) + running_tasks (workers s)"

lemma once_step: "pool_step s s' \<Longrightarrow> once_inv s \<Longrightarrow> once_inv s'"
proof (induction rule: pool_step.induct)
  case (notify_one s n i)
  then show ?case using running_update [of i "workers s" Ready] by (simp add: once_inv_def)
next
  case (spurious i s)
  then show ?case using running_update [of i "workers s" Ready] by (simp add: once_inv_def)
next
  case (block i s p)
  then show ?case using running_update [of i "workers s" Blocked] by (simp add: once_inv_def)
next
  case (take i s f p)
  then show ?case using running_update [of i "workers s" "Running f"] by (simp add: once_inv_def pool_defs)
next
  case (leave i s p)
  then show ?case using running_update [of i "workers s" Exited] by (simp add: once_inv_def)
next
  case (complete i s f)
  then show ?case using running_update [of i "workers s" Ready] by (simp add: once_inv_def)
qed (simp_all add: once_inv_def pool_defs)

lemma once_reach: "pool_reach s \<Longrightarrow> once_inv s"
proof (induction rule: pool.reachable.induct)
  case (start s)
  then have "\<forall>w \<in> set (workers s). task_of w = {#}" by (auto simp: pool_start_def)
  then have "running_tasks (workers s) = {#}" by (rule running_none)
  with start show ?case by (simp add: once_inv_def pool_start_def)
qed (rule once_step)

text \<open>
  Workers return only when the pool stops with an empty queue; while the destructor has yet to notify,
  workers may be blocked, afterwards none is.
\<close>

definition life_inv :: "'f pool_run \<Rightarrow> bool" where
  "life_inv s \<longleftrightarrow> (Exited \<in> set (workers s) \<longrightarrow> stop s \<and> tasks s = [])
     \<and> (notify_all_due s \<longrightarrow> stop s) \<and> (stop s \<and> \<not> notify_all_due s \<longrightarrow> Blocked \<notin> set (workers s))"

lemma update_other: "x \<in> set (ws[i := w]) \<Longrightarrow> x \<noteq> w \<Longrightarrow> x \<in> set ws"
  using set_update_subset_insert by fastforce

lemma life_step: "pool_step s s' \<Longrightarrow> life_inv s \<Longrightarrow> life_inv s'"
  by (induction rule: pool_step.induct)
    (auto simp: life_inv_def pool_defs unblock_def dest: update_other split: if_splits)

lemma life_reach: "pool_reach s \<Longrightarrow> life_inv s"
  by (induction rule: pool.reachable.induct)
    (auto simp: life_step, auto simp: life_inv_def pool_start_def ThreadPool_new_def ThreadPool.defs)

text \<open>A waiting task has a notification due or a worker that will look at the queue.\<close>

fun awake :: "'f worker \<Rightarrow> bool" where
  "awake Ready = True"
| "awake (Running _) = True"
| "awake _ = False"

definition wake_inv :: "'f pool_run \<Rightarrow> bool" where
  "wake_inv s \<longleftrightarrow> (\<not> stop s \<and> workers s \<noteq> [] \<and> tasks s \<noteq> [] \<longrightarrow>
     0 < notifies s \<or> (\<exists>w \<in> set (workers s). awake w))"

lemma awake_update: "i < length ws \<Longrightarrow> awake w \<Longrightarrow> \<exists>x \<in> set (ws[i := w]). awake x"
  using set_update_memI by metis

lemma awake_all: "ws \<noteq> [] \<Longrightarrow> Blocked \<notin> set ws \<Longrightarrow> Exited \<notin> set ws \<Longrightarrow> \<exists>w \<in> set ws. awake w"
  by (metis awake.simps(1,2) hd_in_set worker.exhaust)

lemma wake_step: "pool_step s s' \<Longrightarrow> life_inv s \<Longrightarrow> wake_inv s \<Longrightarrow> wake_inv s'"
proof (induction rule: pool_step.induct)
  case (notify_nobody s n)
  then show ?case using awake_all [of "workers s"] by (auto simp: wake_inv_def life_inv_def)
next
  case (notify_all s)
  then show ?case by (auto simp: wake_inv_def life_inv_def)
qed (auto simp: wake_inv_def pool_defs intro: awake_update)

lemma wake_reach: "pool_reach s \<Longrightarrow> wake_inv s"
  by (induction rule: pool.reachable.induct)
    (auto simp: wake_step life_reach, auto simp: wake_inv_def pool_start_def ThreadPool_new_def ThreadPool.defs)

text \<open>What is left to do after the destructor began.\<close>

fun work :: "'f worker \<Rightarrow> nat" where
  "work Ready = 1"
| "work Blocked = 2"
| "work (Running _) = 2"
| "work Exited = 0"

definition shutdown_work :: "'f pool_run \<Rightarrow> nat" where
  "shutdown_work s = 3 * length (tasks s) + notifies s + sum_list (map work (workers s))
     + (if notify_all_due s then 1 else 0)"

lemma work_update:
  "i < length ws \<Longrightarrow> sum_list (map work (ws[i := w])) + work (ws ! i) = sum_list (map work ws) + work w"
  by (induction ws arbitrary: i) (auto simp: nth_Cons split: nat.splits)

lemma work_unblock: "sum_list (map work (map unblock ws)) \<le> sum_list (map work ws)"
  by (induction ws) (auto simp: unblock_def)

lemma shutdown_decreases: "pool_step s s' \<Longrightarrow> stop s \<Longrightarrow> shutdown_work s' < shutdown_work s"
proof (induction rule: pool_step.induct)
  case (notify_one s n i)
  then show ?case using work_update [of i "workers s" Ready] by (simp add: shutdown_work_def)
next
  case (spurious i s)
  then show ?case using work_update [of i "workers s" Ready] by (simp add: shutdown_work_def)
next
  case (take i s f p)
  then show ?case using work_update [of i "workers s" "Running f"] by (auto simp: shutdown_work_def pool_defs)
next
  case (leave i s p)
  then show ?case using work_update [of i "workers s" Exited] by (simp add: shutdown_work_def)
next
  case (complete i s f)
  then show ?case using work_update [of i "workers s" Ready] by (simp add: shutdown_work_def)
next
  case (notify_all s)
  then show ?case using work_unblock [of "workers s"] by (simp add: shutdown_work_def)
qed (simp_all add: shutdown_work_def pool_defs)

inductive_cases pool_stepE: "pool_step s s'"

text \<open>When every worker has returned and the destructor has notified, nothing happens but notifications.\<close>

lemma pool_final:
  assumes "stop s" and "\<not> notify_all_due s" and ended: "\<forall>w \<in> set (workers s). w = Exited"
    and "pool_step s s'"
  shows "s' = s\<lparr>notifies := notifies s - 1\<rparr>"
proof -
  have exited: "workers s ! i = Exited" if "i < length (workers s)" for i
    using ended that nth_mem by blast
  show ?thesis
    using assms(4) by (rule pool_stepE) (use assms(1,2) exited in \<open>force+\<close>)
qed

lemma ready_steps:
  assumes "i < length (workers s)" and "workers s ! i = Ready" and "stop s"
  shows "\<exists>s'. pool_step s s'"
proof (cases "tasks s")
  case Nil
  then show ?thesis
    using pool_step.leave [OF assms(1,2), of "\<lparr>tasks = [], stop = True\<rparr>"] assms(3)
    by (auto simp: ThreadPool.defs)
next
  case (Cons f fs)
  then show ?thesis
    using pool_step.take [OF assms(1,2), of f "\<lparr>tasks = fs, stop = True\<rparr>"] assms(3)
    by (auto simp: ThreadPool.defs)
qed

lemma shutdown_progress:
  assumes "life_inv s" and "stop s" and "w \<in> set (workers s)" and "w \<noteq> Exited"
  shows "\<exists>s'. pool_step s s'"
proof (cases "notify_all_due s")
  case True
  then show ?thesis using pool_step.notify_all by blast
next
  case False
  with assms have "w \<noteq> Blocked" by (auto simp: life_inv_def)
  obtain i where i: "i < length (workers s)" "workers s ! i = w"
    using assms(3) by (auto simp: in_set_conv_nth)
  show ?thesis
  proof (cases w)
    case Ready
    with i assms(2) show ?thesis by (intro ready_steps) auto
  next
    case (Running f)
    with i have "workers s ! i = Running f" by simp
    from pool_step.complete [OF i(1) this] show ?thesis by (rule exI)
  qed (use assms(4) \<open>w \<noteq> Blocked\<close> in simp_all)
qed

section \<open>Properties of the pool\<close>

text \<open>
  C14: every task is executed exactly once, and tasks start in the order they were posted.  In every
  reachable state, under any interleaving of the posting thread and the workers, the started tasks
  are the first posted ones, and each of them is either finished or held by exactly one worker.
\<close>

theorem tasks_run_once:
  assumes "pool_reach s"
  shows "posted_tasks s = started_tasks s @ tasks s
       \<and> mset (started_tasks s) = mset (finished_tasks s) + running_tasks (workers s)"
  using pool.reachable_fifo [OF assms] once_reach [OF assms] by (simp add: once_inv_def)

definition pool_of :: "nat \<Rightarrow> nat pool_run" where
  "pool_of n = \<lparr>tasks = [], stop = False, workers = replicate n Ready, notifies = 0,
     notify_all_due = False, posted_tasks = [], started_tasks = [], finished_tasks = []\<rparr>"

definition pool_posted :: "nat pool_run" where
  "pool_posted = (with_pool (enqueue 7) (pool_of 2))\<lparr>posted_tasks := [7], notifies := 1\<rparr>"

lemma pool_of_start: "pool_start (pool_of n)"
  by (auto simp: pool_start_def pool_of_def ThreadPool_new_def ThreadPool.defs)

lemma pool_posted_reach: "pool_reach pool_posted"
  using pool.next_state [OF pool.start [OF pool_of_start [of 2]] pool_step.post [of "pool_of 2" 7]]
  by (simp add: pool_posted_def pool_of_def pool_defs)

lemma tasks_run_once_witness:
  "posted_tasks pool_posted = started_tasks pool_posted @ tasks pool_posted \<and> tasks pool_posted = [7]"
  using tasks_run_once [OF pool_posted_reach] by (simp add: pool_posted_def pool_of_def pool_defs)

text \<open>
  C28: no task is forgotten.  While the pool with at least one worker runs, a task in the queue always
  has a notification that is still due or a worker that is not blocked on the condition variable and
  will look at the queue again.
\<close>

theorem no_task_forgotten:
  assumes "pool_reach s" and "\<not> stop s" and "workers s \<noteq> []" and "tasks s \<noteq> []"
  shows "0 < notifies s \<or> (\<exists>w \<in> set (workers s). w = Ready \<or> (\<exists>f. w = Running f))"
  using wake_reach [OF assms(1)] assms(2-4) by (auto simp: wake_inv_def elim!: awake.elims)

lemma no_task_forgotten_witness:
  "0 < notifies pool_posted \<or> (\<exists>w \<in> set (workers pool_posted). w = Ready \<or> (\<exists>f. w = Running f))"
  using no_task_forgotten [OF pool_posted_reach] by (simp add: pool_posted_def pool_of_def pool_defs)

text \<open>
  C15: the destructor runs everything that was posted.  Once it began, every run of the pool is finite
  and a worker that has not returned never leaves the pool stuck, so that the destructor's joins
  return; and when all workers of a non-empty pool have returned, exactly the posted tasks are
  finished.
\<close>

theorem shutdown_completes:
  assumes "pool_reach s"
  shows "(stop s \<longrightarrow> (\<forall>s'. pool_step s s' \<longrightarrow> shutdown_work s' < shutdown_work s))
    \<and> (stop s \<and> (\<exists>w \<in> set (workers s). w \<noteq> Exited) \<longrightarrow> (\<exists>s'. pool_step s s'))
    \<and> (workers s \<noteq> [] \<and> (\<forall>w \<in> set (workers s). w = Exited) \<longrightarrow>
         mset (finished_tasks s) = mset (posted_tasks s))"
proof (intro conjI impI)
  assume all: "workers s \<noteq> [] \<and> (\<forall>w \<in> set (workers s). w = Exited)"
  then have "hd (workers s) \<in> set (workers s)" by simp
  with all have w: "Exited \<in> set (workers s)" by metis
  from all have r: "running_tasks (workers s) = {#}" by (intro running_none) auto
  from w have "tasks s = []" using life_reach [OF assms] by (simp add: life_inv_def)
  then show "mset (finished_tasks s) = mset (posted_tasks s)"
    using r pool.reachable_fifo [OF assms] once_reach [OF assms] by (simp add: once_inv_def)
qed (use shutdown_decreases shutdown_progress life_reach [OF assms] in blast)+

lemma shutdown_completes_witness:
  "\<not> (\<exists>s'. pool_step ((with_pool request_stop pool_posted)\<lparr>notify_all_due := True\<rparr>) s' \<and> 9 \<le> shutdown_work s')
   \<and> (\<exists>s'. pool_step ((with_pool request_stop pool_posted)\<lparr>notify_all_due := True\<rparr>) s')"
proof -
  let ?s = "(with_pool request_stop pool_posted)\<lparr>notify_all_due := True\<rparr>"
  have "pool_reach ?s"
    by (intro pool.next_state [OF pool_posted_reach] pool_step.destroy)
      (simp add: pool_posted_def pool_of_def pool_defs)
  moreover have "stop ?s" "shutdown_work ?s \<le> 9" "Ready \<in> set (workers ?s)"
    by (simp_all add: pool_posted_def pool_of_def pool_defs shutdown_work_def numeral_2_eq_2)
  ultimately show ?thesis
    using shutdown_completes [of ?s] by (meson leD less_le_trans worker.distinct)
qed

end
