(* ===== verification/Net_Address.thy ===== *)
theory Net_Address
  imports Rpc_Prelude
begin

text \<open>
  Addresses and sockets: \<^verbatim>\<open>src/InetAddress.cpp\<close>, \<^verbatim>\<open>src/Socket.cpp\<close> and the connection function of
  \<^verbatim>\<open>src/rpc/rpc_channel.cpp\<close>, with the text of addresses: how it is printed and how a client reads it.  The
  answers of the system calls and the address conversions of the C library are arguments.
\<close>

section \<open>Ports and addresses\<close>

definition bswap16 :: "uint16 \<Rightarrow> uint16" where
  "bswap16 w = word_of_nat (256 * (unat w mod 256) + unat w div 256)"

definition htons :: "byte_order \<Rightarrow> uint16 \<Rightarrow> uint16" where
  "htons e w = (case e of LittleEndian \<Rightarrow> bswap16 w | BigEndian \<Rightarrow> w)"

definition ntohs :: "byte_order \<Rightarrow> uint16 \<Rightarrow> uint16" where
  "ntohs = htons"

definition AF_INET :: nat where "AF_INET = 2"

record sockaddr_in =
  sin_family :: nat
  sin_port :: uint16
  sin_addr :: uint32

definition InetAddress_default :: sockaddr_in where
  "InetAddress_default = \<lparr>sin_family = AF_INET, sin_port = 0, sin_addr = 0\<rparr>"

text \<open>
  The constructor ignores the result of \<open>inet_pton\<close>: a text that is no address leaves the zero address.
\<close>

definition InetAddress_new ::
  "byte_order \<Rightarrow> (string \<Rightarrow> uint32 option) \<Rightarrow> uint16 \<Rightarrow> string \<Rightarrow> sockaddr_in" where
  "InetAddress_new e pton port ip =
     \<lparr>sin_family = AF_INET, sin_port = htons e port,
      sin_addr = (case pton ip of None \<Rightarrow> 0 | Some a \<Rightarrow> a)\<rparr>"

text \<open>\<open>operator<<\<close> for an unsigned number.\<close>

fun show_nat :: "nat \<Rightarrow> string" where
  "show_nat n = (if n < 10 then [char_of (48 + n)] else show_nat (n div 10) @ [char_of (48 + n mod 10)])"

declare show_nat.simps [simp del]

definition toIpPort :: "byte_order \<Rightarrow> (uint32 \<Rightarrow> string) \<Rightarrow> sockaddr_in \<Rightarrow> string" where
  "toIpPort e ntop a = ntop (sin_addr a) @ '':'' @ show_nat (unat (ntohs e (sin_port a)))"

section \<open>Sockets\<close>

definition Socket_new :: "int \<Rightarrow> int process" where
  "Socket_new fd = (if fd < 0 then ExitProcess else Proceed fd)"

definition Socket_destroy :: "(int \<Rightarrow> 'k \<Rightarrow> 'k) \<Rightarrow> int \<Rightarrow> 'k \<Rightarrow> 'k" where
  "Socket_destroy closed sockfd k = (if sockfd \<ge> 0 then closed sockfd k else k)"

definition Socket_bind :: "(int \<Rightarrow> sockaddr_in \<Rightarrow> int) \<Rightarrow> int \<Rightarrow> sockaddr_in \<Rightarrow> unit process" where
  "Socket_bind sys_bind sockfd addr = (if sys_bind sockfd addr < 0 then ExitProcess else Proceed ())"

definition Socket_listen :: "(int \<Rightarrow> int) \<Rightarrow> int \<Rightarrow> unit process" where
  "Socket_listen sys_listen sockfd = (if sys_listen sockfd < 0 then ExitProcess else Proceed ())"

text \<open>\<open>accept\<close>: the descriptor and the peer's address, which is changed only on success.\<close>

definition Socket_accept :: "int \<times> sockaddr_in \<Rightarrow> sockaddr_in \<Rightarrow> int \<times> sockaddr_in" where
  "Socket_accept answer peerAddr =
     (case answer of (connfd, addr) \<Rightarrow> (connfd, if connfd \<ge> 0 then addr else peerAddr))"

text \<open>
  \<open>createNonBlockingConnection\<close>; \<open>connect\<close> answers with its result and \<open>errno\<close>.
\<close>

record net_sys =
  ns_order :: byte_order
  ns_pton :: "string \<Rightarrow> uint32 option"
  ns_socket :: int
  ns_connect :: "int \<Rightarrow> sockaddr_in \<Rightarrow> int \<times> int"

definition EINPROGRESS :: int where "EINPROGRESS = 115"

definition createNonBlockingConnection :: "net_sys \<Rightarrow> string \<Rightarrow> uint16 \<Rightarrow> int" where
  "createNonBlockingConnection ns ip port =
     (let sockfd = ns_socket ns in
      if sockfd < 0 then - 1
      else (let addr = \<lparr>sin_family = AF_INET, sin_port = htons (ns_order ns) port,
                        sin_addr = (case ns_pton ns ip of None \<Rightarrow> 0 | Some a \<Rightarrow> a)\<rparr>
            in case ns_connect ns sockfd addr of (ret, errno) \<Rightarrow>
                 if ret < 0 \<and> errno \<noteq> EINPROGRESS then - 1 else sockfd))"

section \<open>Reading numbers\<close>

text \<open>
  \<open>std::stoi\<close>: leading white space, a sign, digits; \<open>invalid_argument\<close> without digits, \<open>out_of_range\<close>
  outside \<open>int\<close>.
\<close>

datatype stoi_result = StoiValue int | InvalidArgument | OutOfRange

definition is_space :: "char \<Rightarrow> bool" where
  "is_space c \<longleftrightarrow> c = CHR '' '' \<or> (9 \<le> (of_char c :: nat) \<and> (of_char c :: nat) \<le> 13)"

definition is_digit :: "char \<Rightarrow> bool" where
  "is_digit c \<longleftrightarrow> 48 \<le> (of_char c :: nat) \<and> (of_char c :: nat) \<le> 57"

definition decimal :: "string \<Rightarrow> nat" where
  "decimal ds = foldl (\<lambda>n c. 10 * n + (of_char c - 48)) 0 ds"

text \<open>The number \<open>strtol\<close> scans, before it is fitted into a type.\<close>

definition scan_int :: "string \<Rightarrow> int option" where
  "scan_int text =
     (let t = dropWhile is_space text;
          negative = (t \<noteq> [] \<and> hd t = CHR ''-'');
          u = (if t \<noteq> [] \<and> (hd t = CHR ''-'' \<or> hd t = CHR ''+'') then tl t else t);
          ds = takeWhile is_digit u
      in if ds = [] then None
         else Some (if negative then - int (decimal ds) else int (decimal ds)))"

definition stoi :: "string \<Rightarrow> stoi_result" where
  "stoi text =
     (case scan_int text of
        None \<Rightarrow> InvalidArgument
      | Some v \<Rightarrow> if v < - (2 ^ 31) \<or> 2 ^ 31 \<le> v then OutOfRange else StoiValue v)"

text \<open>\<open>atoi\<close> of the C library: \<open>strtol\<close>, which saturates at \<open>long\<close>, converted to \<open>int\<close>; 0 without digits.\<close>

definition atoi :: "string \<Rightarrow> int" where
  "atoi text =
     (case scan_int text of
        None \<Rightarrow> 0
      | Some v \<Rightarrow> sint (word_of_int (max (- (2 ^ 63)) (min (2 ^ 63 - 1) v)) :: int32))"

section \<open>Lemmas\<close>

lemma unat_port: "n < 65536 \<Longrightarrow> unat (word_of_nat n :: uint16) = n"
  by (simp add: unsigned_of_nat take_bit_eq_mod)

lemma bswap16_bswap16 [simp]: "bswap16 (bswap16 w) = w"
proof -
  have w: "unat w < 65536" using unat_bound [of w] by simp
  have "256 * (unat w mod 256) + unat w div 256 < 65536"
    using w by (simp add: less_mult_imp_div_less)
  then have "unat (bswap16 w) = 256 * (unat w mod 256) + unat w div 256"
    unfolding bswap16_def by (rule unat_port)
  moreover have "unat w div 256 < 256" using w by (simp add: less_mult_imp_div_less)
  ultimately have "256 * (unat (bswap16 w) mod 256) + unat (bswap16 w) div 256 = unat w" by simp
  then show ?thesis by (simp add: bswap16_def [of "bswap16 w"])
qed

lemma ntohs_htons [simp]: "ntohs e (htons e w) = w"
  by (simp add: ntohs_def htons_def split: byte_order.splits)

lemma digit_char: "d < 10 \<Longrightarrow> is_digit (char_of (48 + d :: nat)) \<and> of_char (char_of (48 + d :: nat)) - 48 = d"
  by (simp add: is_digit_def)

lemma show_nat_digits: "\<forall>c \<in> set (show_nat n). is_digit c"
proof (induction n rule: show_nat.induct)
  case (1 n)
  show ?case
  proof (cases "n < 10")
    case True
    then show ?thesis using digit_char [of n] by (simp add: show_nat.simps)
  next
    case False
    with 1 digit_char [of "n mod 10"] show ?thesis by (subst show_nat.simps) auto
  qed
qed

lemma show_nat_nonempty [simp]: "show_nat n \<noteq> []"
  by (subst show_nat.simps) simp

lemma decimal_snoc: "decimal (ds @ [c]) = 10 * decimal ds + (of_char c - 48)"
  by (simp add: decimal_def)

lemma decimal_show: "decimal (show_nat n) = n"
proof (induction n rule: show_nat.induct)
  case (1 n)
  show ?case
  proof (cases "n < 10")
    case True
    then show ?thesis using digit_char [of n] by (simp add: show_nat.simps decimal_def)
  next
    case False
    with 1 digit_char [of "n mod 10"] show ?thesis by (subst show_nat.simps) (simp add: decimal_snoc)
  qed
qed

lemma digit_no_space: "is_digit c \<Longrightarrow> \<not> is_space c \<and> c \<noteq> CHR ''-'' \<and> c \<noteq> CHR ''+'' \<and> c \<noteq> CHR '':''"
  by (auto simp: is_digit_def is_space_def)

lemma stoi_show: "n < 2 ^ 31 \<Longrightarrow> stoi (show_nat n) = StoiValue (int n)"
proof -
  assume n: "n < 2 ^ 31"
  obtain c cs where s: "show_nat n = c # cs" by (cases "show_nat n") simp_all
  then have "is_digit c" using show_nat_digits [of n] by auto
  moreover from s have "takeWhile is_digit cs = cs"
    using show_nat_digits [of n] by (simp add: takeWhile_eq_all_conv)
  ultimately have d: "takeWhile is_digit (c # cs) = c # cs" "dropWhile is_space (c # cs) = c # cs"
      "c \<noteq> CHR ''-''" "c \<noteq> CHR ''+''"
    using digit_no_space [of c] by simp_all
  have "decimal (c # cs) = n" using decimal_show [of n] s by simp
  with d(3,4) have "scan_int (show_nat n) = Some (int n)"
    unfolding scan_int_def s Let_def d(2) by (simp add: d(1) del: takeWhile.simps)
  with n show ?thesis by (simp add: stoi_def)
qed

end
