(* ===== verification/Tcp_Connection.thy ===== *)
theory Tcp_Connection
  imports Net_Buffer Net_Address Event_Loop
begin

text \<open>
  Connections (\<^verbatim>\<open>src/TcpConnection.h\<close>, \<^verbatim>\<open>src/TcpConnection.cpp\<close>), their sockets (\<^verbatim>\<open>src/Socket.cpp\<close>) and
  addresses (\<^verbatim>\<open>src/InetAddress.cpp\<close>).  Connection objects live in a store of the loop's state; the
  answers of \<open>read\<close> and \<open>write\<close> are arguments, and the bytes the kernel accepted from a connection are
  recorded.
\<close>

section \<open>State\<close>

record TcpConnection =
  conn_name :: string
  conn_fd :: int
  conn_channel :: ptr
  inputBuffer :: buffer
  outputBuffer :: buffer

text \<open>The callbacks of channels: the four functions of a connection, the wakeup and the acceptor.\<close>

datatype callback = HandleRead nat | HandleWrite nat | HandleClose nat | WakeupRead | AcceptRead

text \<open>The answer of \<open>write\<close>: an error, or the number of bytes taken.\<close>

datatype write_result = WriteErr int | Wrote nat

record ('f, 'k) reactor = "(callback, 'f, 'k) EventLoop" +
  conns :: "nat \<rightharpoonup> TcpConnection"
  sent :: "nat \<Rightarrow> bytes"

definition set_conn :: "nat \<Rightarrow> TcpConnection \<Rightarrow> ('f, 'k, 'm) reactor_scheme \<Rightarrow> ('f, 'k, 'm) reactor_scheme" where
  "set_conn i c s = s\<lparr>conns := (conns s)(i \<mapsto> c)\<rparr>"

definition record_sent :: "nat \<Rightarrow> bytes \<Rightarrow> ('f, 'k, 'm) reactor_scheme \<Rightarrow> ('f, 'k, 'm) reactor_scheme" where
  "record_sent i bs s = s\<lparr>sent := (sent s)(i := sent s i @ bs)\<rparr>"

section \<open>Operations\<close>

text \<open>The constructor: the channel at \<open>p\<close> with the four callbacks.\<close>

definition TcpConnection_new ::
  "nat \<Rightarrow> ptr \<Rightarrow> int \<Rightarrow> string \<Rightarrow> ('f, 'k, 'm) reactor_scheme \<Rightarrow> ('f, 'k, 'm) reactor_scheme" where
  "TcpConnection_new i p fd name s =
     set_conn i \<lparr>conn_name = name, conn_fd = fd, conn_channel = p,
                 inputBuffer = Buffer_new kInitialSize, outputBuffer = Buffer_new kInitialSize\<rparr>
       (s\<lparr>heap := (heap s)(p \<mapsto>
            setErrorCallback (HandleClose i) (setCloseCallback (HandleClose i)
              (setWriteCallback (HandleWrite i) (setReadCallback (HandleRead i) (Channel_new fd)))))\<rparr>)"

text \<open>
  The destructor: the members go in reverse order, so the channel first (it still tells the loop) and
  the socket, which closes the descriptor, last.
\<close>

definition TcpConnection_destroy ::
  "'k epoll_ctl \<Rightarrow> (int \<Rightarrow> 'k \<Rightarrow> 'k) \<Rightarrow> nat \<Rightarrow> ('f, 'k, 'm) reactor_scheme \<Rightarrow> ('f, 'k, 'm) reactor_scheme option" where
  "TcpConnection_destroy ctl closed i s =
     (case conns s i of
        None \<Rightarrow> None
      | Some c \<Rightarrow>
          map_option (\<lambda>s'. s'\<lparr>kernel := Socket_destroy closed (conn_fd c) (kernel s'),
                             conns := (conns s')(i := None)\<rparr>)
            (Channel_destroy ctl (conn_channel c) s))"

definition connectEstablished ::
  "'k epoll_ctl \<Rightarrow> nat \<Rightarrow> ('f, 'k, 'm) reactor_scheme \<Rightarrow> ('f, 'k, 'm) reactor_scheme option" where
  "connectEstablished ctl i s =
     (case conns s i of None \<Rightarrow> None | Some c \<Rightarrow> enableReading ctl (conn_channel c) s)"

definition send ::
  "'k epoll_ctl \<Rightarrow> write_result \<Rightarrow> nat \<Rightarrow> bytes \<Rightarrow> ('f, 'k, 'm) reactor_scheme
     \<Rightarrow> ('f, 'k, 'm) reactor_scheme option" where
  "send ctl w i msg s =
     (case conns s i of
        None \<Rightarrow> None
      | Some c \<Rightarrow>
          (let buffered = (\<lambda>s rest. enableWriting ctl (conn_channel c)
                 (set_conn i (c\<lparr>outputBuffer := append_buf rest (outputBuffer c)\<rparr>) s))
           in if readableBytes (outputBuffer c) = 0 \<and> length msg > 0
              then (case w of
                      Wrote n \<Rightarrow>
                        if n < length msg then buffered (record_sent i (take n msg) s) (drop n msg)
                        else Some (record_sent i msg s)
                    | WriteErr e \<Rightarrow> buffered s msg)
              else buffered s msg))"

definition handleWrite ::
  "'k epoll_ctl \<Rightarrow> write_result \<Rightarrow> nat \<Rightarrow> ('f, 'k, 'm) reactor_scheme \<Rightarrow> ('f, 'k, 'm) reactor_scheme option" where
  "handleWrite ctl w i s =
     (case conns s i of
        None \<Rightarrow> None
      | Some c \<Rightarrow>
          if readableBytes (outputBuffer c) > 0
          then (case w of
                  Wrote n \<Rightarrow>
                    if n > 0
                    then (let ob = retrieve n (outputBuffer c);
                              s' = set_conn i (c\<lparr>outputBuffer := ob\<rparr>)
                                     (record_sent i (take n (contents (outputBuffer c))) s)
                          in if readableBytes ob = 0 then disableWriting ctl (conn_channel c) s' else Some s')
                    else Some s
                | WriteErr e \<Rightarrow> Some s)
          else disableWriting ctl (conn_channel c) s)"

text \<open>
  The callbacks of the owner: \<open>None\<close> if not set.  The message callback finds the input buffer in the
  connection.
\<close>

type_synonym 's conn_callback = "(nat \<Rightarrow> 's \<Rightarrow> 's option) option"

definition handleClose :: "'s conn_callback \<Rightarrow> nat \<Rightarrow> 's \<Rightarrow> 's option" where
  "handleClose closeCb i s = (case closeCb of None \<Rightarrow> Some s | Some cb \<Rightarrow> cb i s)"

definition EAGAIN :: int where "EAGAIN = 11"
definition EWOULDBLOCK :: int where "EWOULDBLOCK = 11"

definition handleRead ::
  "('f, 'k, 'm) reactor_scheme conn_callback \<Rightarrow> ('f, 'k, 'm) reactor_scheme conn_callback \<Rightarrow> read_result \<Rightarrow> nat
     \<Rightarrow> ('f, 'k, 'm) reactor_scheme \<Rightarrow> ('f, 'k, 'm) reactor_scheme option" where
  "handleRead messageCb closeCb r i s =
     (case conns s i of
        None \<Rightarrow> None
      | Some c \<Rightarrow>
          (case readFd r 0 (inputBuffer c) of (n, savedErrno, ib) \<Rightarrow>
             (let s' = set_conn i (c\<lparr>inputBuffer := ib\<rparr>) s
              in if n > 0 then (case messageCb of None \<Rightarrow> Some s' | Some cb \<Rightarrow> cb i s')
                 else if n = 0 then handleClose closeCb i s'
                 else if savedErrno \<noteq> EAGAIN \<and> savedErrno \<noteq> EWOULDBLOCK then handleClose closeCb i s'
                 else Some s')))"

text \<open>\<open>shutdown\<close> closes the sending side of the socket in the kernel and changes nothing else.\<close>

definition shutdown ::
  "(int \<Rightarrow> 'k \<Rightarrow> 'k) \<Rightarrow> nat \<Rightarrow> ('f, 'k, 'm) reactor_scheme \<Rightarrow> ('f, 'k, 'm) reactor_scheme option" where
  "shutdown shut_wr i s =
     (case conns s i of None \<Rightarrow> None | Some c \<Rightarrow> Some (s\<lparr>kernel := shut_wr (conn_fd c) (kernel s)\<rparr>))"

section \<open>The output side of a connection\<close>

text \<open>A live connection: its channel is alive, and an unsent rest is watched for.\<close>

definition conn_ok :: "nat \<Rightarrow> ('f, 'k, 'm) reactor_scheme \<Rightarrow> bool" where
  "conn_ok i s \<longleftrightarrow> (\<exists>c ch. conns s i = Some c \<and> heap s (conn_channel c) = Some ch
     \<and> buf_inv (outputBuffer c) \<and> buf_inv (inputBuffer c)
     \<and> (contents (outputBuffer c) \<noteq> [] \<longrightarrow> isWriting ch))"

definition unsent :: "nat \<Rightarrow> ('f, 'k, 'm) reactor_scheme \<Rightarrow> bytes" where
  "unsent i s = (case conns s i of None \<Rightarrow> [] | Some c \<Rightarrow> contents (outputBuffer c))"

lemma or_out: "(e OR EPOLLOUT) AND EPOLLOUT \<noteq> 0"
  by (simp add: epoll_bits bit_eq_iff bit_simps) (auto intro!: exI [of _ 2] simp: bit_simps)

lemma updateChannel_more [simp]:
  "heap (updateChannel ctl p ch s) = heap s" "conns (updateChannel ctl p ch s) = conns s"
  "sent (updateChannel ctl p ch s) = sent s"
  by (simp_all add: updateChannel_def Let_def)

lemma change_events_live:
  assumes "heap s p = Some ch"
  shows "\<exists>s'. change_events ctl g p s = Some s' \<and> conns s' = conns s \<and> sent s' = sent s
      \<and> heap s' = (heap s)(p \<mapsto> ch\<lparr>ch_events := g (ch_events ch)\<rparr>)"
  using assms by (simp add: change_events_def Let_def)

lemma set_conn_simps [simp]:
  "conns (set_conn i c s) = (conns s)(i \<mapsto> c)" "heap (set_conn i c s) = heap s"
  "sent (set_conn i c s) = sent s"
  by (simp_all add: set_conn_def)

lemma record_sent_simps [simp]:
  "conns (record_sent i bs s) = conns s" "heap (record_sent i bs s) = heap s"
  "sent (record_sent i bs s) = (sent s)(i := sent s i @ bs)"
  by (simp_all add: record_sent_def)

lemma empty_output: "buf_inv b \<Longrightarrow> readableBytes b = 0 \<longleftrightarrow> contents b = []"
  using length_contents [of b] by auto

text \<open>Buffering the rest of a message and asking for writability.\<close>

lemma buffer_rest:
  assumes c: "conns s i = Some c" and ch: "heap s (conn_channel c) = Some ch"
    and inv: "buf_inv (outputBuffer c)" "buf_inv (inputBuffer c)"
  shows "\<exists>s'. enableWriting ctl (conn_channel c)
                (set_conn i (c\<lparr>outputBuffer := append_buf rest (outputBuffer c)\<rparr>) s) = Some s'
      \<and> conn_ok i s' \<and> unsent i s' = contents (outputBuffer c) @ rest \<and> sent s' i = sent s i"
proof -
  let ?s = "set_conn i (c\<lparr>outputBuffer := append_buf rest (outputBuffer c)\<rparr>) s"
  have "heap ?s (conn_channel c) = Some ch" using ch by simp
  from change_events_live [OF this, of ctl "\<lambda>e. e OR EPOLLOUT"]
  show ?thesis
    using c inv or_out
    by (auto simp: enableWriting_def conn_ok_def unsent_def isWriting_def buf_simps inv_intros)
qed

lemma send_effect:
  assumes "conn_ok i s"
  shows "\<exists>s'. send ctl w i msg s = Some s' \<and> conn_ok i s'
      \<and> sent s' i @ unsent i s' = sent s i @ unsent i s @ msg"
proof -
  obtain c ch where c: "conns s i = Some c" "heap s (conn_channel c) = Some ch"
      "buf_inv (outputBuffer c)" "buf_inv (inputBuffer c)"
      "contents (outputBuffer c) \<noteq> [] \<longrightarrow> isWriting ch"
    using assms by (auto simp: conn_ok_def)
  note buffered = buffer_rest [of _ i c ch ctl, OF _ _ c(3,4)]
  have u: "unsent i s = contents (outputBuffer c)" using c(1) by (simp add: unsent_def)
  show ?thesis
  proof (cases "readableBytes (outputBuffer c) = 0 \<and> length msg > 0 \<and> (\<exists>n. w = Wrote n)")
    case False
    then have "send ctl w i msg s = enableWriting ctl (conn_channel c)
        (set_conn i (c\<lparr>outputBuffer := append_buf msg (outputBuffer c)\<rparr>) s)"
      using c(1) by (auto simp: send_def Let_def split: write_result.splits)
    with buffered [of s msg] c(1,2) u show ?thesis by auto
  next
    case True
    then obtain n where n: "w = Wrote n" and e: "contents (outputBuffer c) = []"
      using empty_output [OF c(3)] by auto
    show ?thesis
    proof (cases "n < length msg")
      case True
      let ?s = "record_sent i (take n msg) s"
      have "send ctl w i msg s = enableWriting ctl (conn_channel c)
          (set_conn i (c\<lparr>outputBuffer := append_buf (drop n msg) (outputBuffer c)\<rparr>) ?s)"
        using c(1) n True e empty_output [OF c(3)] by (auto simp: send_def Let_def)
      with buffered [of ?s "drop n msg"] c(1,2) u e show ?thesis by auto
    next
      case False
      then have "send ctl w i msg s = Some (record_sent i msg s)"
        using \<open>readableBytes (outputBuffer c) = 0 \<and> length msg > 0 \<and> (\<exists>n. w = Wrote n)\<close> c(1) n
        by (simp add: send_def Let_def)
      then show ?thesis using assms u e by (auto simp: conn_ok_def unsent_def)
    qed
  qed
qed

lemma stop_writing:
  assumes "conns s i = Some c" "heap s (conn_channel c) = Some ch"
    and "buf_inv (outputBuffer c)" "buf_inv (inputBuffer c)" "contents (outputBuffer c) = []"
  shows "\<exists>s'. disableWriting ctl (conn_channel c) s = Some s' \<and> conn_ok i s' \<and> unsent i s' = [] \<and> sent s' = sent s"
  using change_events_live [OF assms(2), of ctl "\<lambda>e. e AND NOT EPOLLOUT"] assms
  by (auto simp: disableWriting_def conn_ok_def unsent_def)

text \<open>A write event on a non-empty output buffer, of which the kernel takes something.\<close>

lemma write_some:
  assumes c: "conns s i = Some c" "heap s (conn_channel c) = Some ch" "isWriting ch"
    and inv: "buf_inv (outputBuffer c)" "buf_inv (inputBuffer c)"
    and ne: "contents (outputBuffer c) \<noteq> []" and n: "0 < n"
  shows "\<exists>s'. handleWrite ctl (Wrote n) i s = Some s' \<and> conn_ok i s'
      \<and> unsent i s' = drop n (contents (outputBuffer c))
      \<and> sent s' i = sent s i @ take n (contents (outputBuffer c))"
proof -
  let ?ob = "retrieve n (outputBuffer c)"
  let ?s = "set_conn i (c\<lparr>outputBuffer := ?ob\<rparr>) (record_sent i (take n (contents (outputBuffer c))) s)"
  have ob: "buf_inv ?ob" "contents ?ob = drop n (contents (outputBuffer c))"
    using inv by (simp_all add: inv_intros buf_simps)
  have hw: "handleWrite ctl (Wrote n) i s =
      (if contents ?ob = [] then disableWriting ctl (conn_channel c) ?s else Some ?s)"
    using c(1) n ne empty_output [OF inv(1)] empty_output [OF ob(1)] by (auto simp: handleWrite_def Let_def)
  show ?thesis
  proof (cases "contents ?ob = []")
    case True
    with stop_writing [of ?s i "c\<lparr>outputBuffer := ?ob\<rparr>" ch ctl] c(2) inv ob hw show ?thesis by auto
  next
    case False
    with c inv ob hw show ?thesis by (auto simp: conn_ok_def unsent_def)
  qed
qed

lemma write_effect:
  assumes "conn_ok i s"
  shows "\<exists>s'. handleWrite ctl w i s = Some s' \<and> conn_ok i s'
      \<and> sent s' i @ unsent i s' = sent s i @ unsent i s
      \<and> length (unsent i s') = length (unsent i s) - (case w of Wrote n \<Rightarrow> n | WriteErr _ \<Rightarrow> 0)"
proof -
  obtain c ch where c: "conns s i = Some c" "heap s (conn_channel c) = Some ch"
      "buf_inv (outputBuffer c)" "buf_inv (inputBuffer c)"
      "contents (outputBuffer c) \<noteq> [] \<longrightarrow> isWriting ch"
    using assms by (auto simp: conn_ok_def)
  have u: "unsent i s = contents (outputBuffer c)" using c(1) by (simp add: unsent_def)
  consider "contents (outputBuffer c) = []"
    | "contents (outputBuffer c) \<noteq> []" "\<not> (\<exists>n. w = Wrote n \<and> 0 < n)"
    | n where "contents (outputBuffer c) \<noteq> []" "w = Wrote n" "0 < n" by blast
  then show ?thesis
  proof cases
    case 1
    then have "handleWrite ctl w i s = disableWriting ctl (conn_channel c) s"
      using c(1) empty_output [OF c(3)] by (simp add: handleWrite_def)
    with stop_writing [OF c(1-4) 1, of ctl] u 1 show ?thesis by auto
  next
    case 2
    then have "handleWrite ctl w i s = Some s"
      using c(1) empty_output [OF c(3)] by (auto simp: handleWrite_def split: write_result.splits)
    with assms 2 show ?thesis by (auto split: write_result.splits)
  next
    case 3
    with write_some [OF c(1,2) _ c(3,4), of n ctl] c(5) u show ?thesis by auto
  qed
qed

text \<open>Sends and write events in any order.\<close>

datatype out_op = Send write_result bytes | Writable write_result

fun out_step where
  "out_step ctl i (Send w msg) s = send ctl w i msg s"
| "out_step ctl i (Writable w) s = handleWrite ctl w i s"

fun out_run where
  "out_run ctl i [] s = Some s"
| "out_run ctl i (a # as) s = Option.bind (out_step ctl i a s) (out_run ctl i as)"

fun sends :: "out_op \<Rightarrow> bytes" where
  "sends (Send w msg) = msg"
| "sends (Writable w) = []"

lemma out_run_effect:
  "conn_ok i s \<Longrightarrow> \<exists>s'. out_run ctl i as s = Some s' \<and> conn_ok i s'
     \<and> sent s' i @ unsent i s' = sent s i @ unsent i s @ concat (map sends as)"
proof (induction as arbitrary: s)
  case Nil
  then show ?case by simp
next
  case (Cons a as)
  have "\<exists>s1. out_step ctl i a s = Some s1 \<and> conn_ok i s1
      \<and> sent s1 i @ unsent i s1 = sent s i @ unsent i s @ sends a"
    using send_effect [OF Cons.prems] write_effect [OF Cons.prems] by (cases a) fastforce+
  then obtain s1 where "out_step ctl i a s = Some s1" "conn_ok i s1"
      "sent s1 i @ unsent i s1 = sent s i @ unsent i s @ sends a" by blast
  with Cons.IH [of s1] show ?case by (auto simp flip: append_assoc)
qed

lemma writable_drains:
  "conn_ok i s \<Longrightarrow> \<forall>w \<in> set ws. \<exists>n. w = Wrote (Suc n) \<Longrightarrow> length (unsent i s) \<le> length ws \<Longrightarrow>
   \<exists>s'. out_run ctl i (map Writable ws) s = Some s' \<and> unsent i s' = []"
proof (induction ws arbitrary: s)
  case Nil
  then show ?case by simp
next
  case (Cons w ws)
  obtain n where n: "w = Wrote (Suc n)" using Cons.prems(2) by auto
  obtain s1 where "handleWrite ctl w i s = Some s1" "conn_ok i s1"
      "length (unsent i s1) = length (unsent i s) - Suc n"
    using write_effect [OF Cons.prems(1), of ctl w] n by auto
  with Cons.IH [of s1] Cons.prems show ?case by auto
qed

section \<open>Properties of connections\<close>

text \<open>
  C8: the stream of a connection.  For every sequence of calls of \<open>send\<close> and of write events, whatever
  part of each write the kernel accepts or refuses, no operation touches a destroyed object, and the
  bytes the kernel accepted followed by the bytes in the output buffer are exactly the messages in the
  order they were sent: nothing is lost, repeated or reordered.  As long as something is unsent, the
  channel asks for write events.
\<close>

theorem output_stream_order:
  assumes "conn_ok i s" and "unsent i s = []" and "sent s i = []"
  shows "\<exists>s'. out_run ctl i ops s = Some s'
    \<and> sent s' i @ unsent i s' = concat (map sends ops)
    \<and> (\<exists>c ch. conns s' i = Some c \<and> heap s' (conn_channel c) = Some ch
         \<and> (unsent i s' \<noteq> [] \<longrightarrow> isWriting ch))"
  using out_run_effect [OF assms(1), of ctl ops] assms(2,3)
  by (fastforce simp: conn_ok_def unsent_def)

definition fresh_reactor :: "(nat, int \<rightharpoonup> uint32 \<times> ptr) reactor" where
  "fresh_reactor = TcpConnection_new 1 2 9 ''peer''
     \<lparr>kernel = Map.empty, events_size = 16, channels = Map.empty, heap = Map.empty, looping = True,
      quitting = False, threadId = 0, pendingFunctors = [], wakeups = 0, conns = Map.empty,
      sent = (\<lambda>_. [])\<rparr>"

lemma fresh_reactor_ok:
  "conn_ok 1 fresh_reactor" "unsent 1 fresh_reactor = []" "sent fresh_reactor 1 = []"
  by (simp_all add: conn_ok_def unsent_def fresh_reactor_def TcpConnection_new_def)

lemma output_stream_order_witness:
  "\<exists>s'. out_run map_ctl 1 [Send (Wrote 2) ''hello'', Send (Wrote 9) ''!'', Writable (Wrote 1)] fresh_reactor
       = Some s' \<and> sent s' 1 @ unsent 1 s' = ''hello!''"
  using output_stream_order [OF fresh_reactor_ok, of map_ctl
      "[Send (Wrote 2) ''hello'', Send (Wrote 9) ''!'', Writable (Wrote 1)]"] by auto

text \<open>
  C37: buffered output drains.  If the kernel takes at least one byte at each write event, as many write
  events as there are unsent bytes empty the output buffer, and everything sent has reached the kernel.
\<close>

theorem output_drains:
  assumes "conn_ok i s" and "\<forall>w \<in> set ws. \<exists>n. w = Wrote (Suc n)" and "length (unsent i s) \<le> length ws"
  shows "\<exists>s'. out_run ctl i (map Writable ws) s = Some s' \<and> unsent i s' = []
           \<and> sent s' i = sent s i @ unsent i s"
proof -
  have "concat (map sends (map Writable ws)) = []" by (induction ws) simp_all
  then show ?thesis
    using writable_drains [OF assms, of ctl] out_run_effect [OF assms(1), of ctl "map Writable ws"]
    by fastforce
qed

lemma output_drains_witness:
  "\<exists>s1 s'. send map_ctl (WriteErr 11) 1 ''abc'' fresh_reactor = Some s1
     \<and> out_run map_ctl 1 (map Writable [Wrote 1, Wrote 1, Wrote 5]) s1 = Some s' \<and> unsent 1 s' = []"
proof -
  obtain s1 where s1: "send map_ctl (WriteErr 11) 1 ''abc'' fresh_reactor = Some s1" "conn_ok 1 s1"
      "sent s1 1 @ unsent 1 s1 = sent fresh_reactor 1 @ unsent 1 fresh_reactor @ ''abc''"
    using send_effect [OF fresh_reactor_ok(1)] by blast
  have "length (sent s1 1 @ unsent 1 s1) = 3" using s1(3) fresh_reactor_ok by simp
  then have "length (unsent 1 s1) \<le> 3" by simp
  with output_drains [OF s1(2), of "[Wrote 1, Wrote 1, Wrote 5]" map_ctl] s1(1) show ?thesis
    by (auto simp: numeral_eq_Suc)
qed

end
