(* ===== verification/Rpc_Server.thy ===== *)
theory Rpc_Server
  imports Rpc_Codec Rpc_Dispatch Tcp_Connection Net_Address
begin

text \<open>
  The server (\<^verbatim>\<open>src/rpc/rpc_server.h\<close>, \<^verbatim>\<open>src/rpc/rpc_server.cpp\<close>) with its acceptor (\<^verbatim>\<open>src/Acceptor.cpp\<close>) on
  top of the reactor: new connections, the loop that takes frames off a connection, the tasks handed
  to the pool and the functors that bring the answers back to the I/O thread.  A result \<open>None\<close> is
  undefined behaviour or a call that never returns.
\<close>

section \<open>State\<close>

text \<open>The lambda \<open>onMessage\<close> gives to the pool, and the one the task gives to the loop.\<close>

record 'u task =
  task_conn :: nat
  task_request :: "'u RpcRequest"
  task_id :: uint64

datatype loop_functor = SendResponse nat uint64 bytes

fun functor_conn :: "loop_functor \<Rightarrow> nat" where
  "functor_conn (SendResponse i reqId payload) = i"

record ('u, 'k) server = "(loop_functor, 'k) reactor" +
  acceptor :: ptr
  connections :: "nat set"
  pool_tasks :: "'u task list"
  fresh_conn :: nat
  fresh_ptr :: ptr

text \<open>
  What the server runs on: the protobuf runtime, the byte order, the kernel's interest list and the
  answers of \<open>write\<close> for a connection, given what it has accepted before.
\<close>

record ('u, 'k) platform =
  pf_rt :: "'u pb_runtime"
  pf_order :: byte_order
  pf_ctl :: "'k epoll_ctl"
  pf_close :: "int \<Rightarrow> 'k \<Rightarrow> 'k"
  pf_write :: "nat \<Rightarrow> bytes \<Rightarrow> bytes \<Rightarrow> write_result"

definition conn_send ::
  "('u, 'k) platform \<Rightarrow> nat \<Rightarrow> bytes \<Rightarrow> ('f, 'k, 'm) reactor_scheme \<Rightarrow> ('f, 'k, 'm) reactor_scheme option" where
  "conn_send pf i msg s = send (pf_ctl pf) (pf_write pf i (sent s i) msg) i msg s"

section \<open>Reading requests\<close>

text \<open>The loop of \<open>onMessage\<close>, over the body applied to a complete frame.\<close>

function read_frames ::
  "byte_order \<Rightarrow> (uint64 \<Rightarrow> bytes \<Rightarrow> 's \<Rightarrow> 's) \<Rightarrow> buffer \<Rightarrow> 's \<Rightarrow> 's \<times> buffer" where
  "read_frames e handle b s =
     (case tryUnpackWithId e b 0 of (msgData, reqId, b') \<Rightarrow>
        if msgData = [] then (s, b') else read_frames e handle b' (handle reqId msgData s))"
  by pat_completeness auto
termination
  by (relation "measure (\<lambda>(e, handle, b, s). readableBytes b)")
    (auto dest: sym intro: tryUnpackWithId_consumes)

declare read_frames.simps [simp del]

definition handle_frame ::
  "('u, 'k) platform \<Rightarrow> nat \<Rightarrow> uint64 \<Rightarrow> bytes \<Rightarrow> ('u, 'k) server \<Rightarrow> ('u, 'k) server option" where
  "handle_frame pf i reqId msgData s =
     (case RpcRequest_ParseFromString (pf_rt pf) (RpcRequest_default (pf_rt pf)) msgData of
        None \<Rightarrow> None
      | Some (request, ok) \<Rightarrow>
          if \<not> ok
          then conn_send pf i
                 (packWithId (pf_order pf) reqId
                   (RpcResponse_InternalSerialize (pf_rt pf)
                     (set_error_code WRONG_PROTO (RpcResponse_default (pf_rt pf))))) s
          else Some (s\<lparr>pool_tasks := pool_tasks s
                         @ [\<lparr>task_conn = i, task_request = request, task_id = reqId\<rparr>]\<rparr>))"

definition onMessage ::
  "('u, 'k) platform \<Rightarrow> nat \<Rightarrow> ('u, 'k) server \<Rightarrow> ('u, 'k) server option" where
  "onMessage pf i s =
     (case conns s i of
        None \<Rightarrow> None
      | Some c \<Rightarrow>
          (case read_frames (pf_order pf) (\<lambda>reqId d r. Option.bind r (handle_frame pf i reqId d))
                  (inputBuffer c) (Some s) of
             (None, _) \<Rightarrow> None
           | (Some s', b') \<Rightarrow>
               (case conns s' i of
                  None \<Rightarrow> None
                | Some c' \<Rightarrow> Some (set_conn i (c'\<lparr>inputBuffer := b'\<rparr>) s'))))"

section \<open>Answering\<close>

definition run_functor :: "('u, 'k) platform \<Rightarrow> loop_functor \<Rightarrow> ('u, 'k) server \<Rightarrow> ('u, 'k) server option" where
  "run_functor pf f s =
     (case f of SendResponse i reqId payload \<Rightarrow>
        conn_send pf i (packWithId (pf_order pf) reqId payload) s)"

text \<open>A pool thread \<open>me\<close> runs a task: dispatch, serialize, and send from the loop's thread.\<close>

definition run_task ::
  "('u, 'k) platform \<Rightarrow> 'msg message_ops \<Rightarrow> ('mth, 'msg) service_registry \<Rightarrow> nat \<Rightarrow> 'u task
     \<Rightarrow> ('u, 'k) server \<Rightarrow> ('u, 'k) server option" where
  "run_task pf ops reg me t s =
     (case dispatchRequest (pf_rt pf) ops reg (task_request t) of
        Returned response \<Rightarrow>
          runInLoop (run_functor pf) me
            (SendResponse (task_conn t) (task_id t) (RpcResponse_InternalSerialize (pf_rt pf) response)) s
      | _ \<Rightarrow> None)"

section \<open>Connections\<close>

text \<open>
  A connection object lives as long as something refers to it: the set of the server, a task or a
  functor.  A shared pointer that goes away destroys the object it was the last to refer to.
\<close>

definition referenced :: "nat \<Rightarrow> ('u, 'k) server \<Rightarrow> bool" where
  "referenced i s \<longleftrightarrow> i \<in> connections s \<or> i \<in> task_conn ` set (pool_tasks s)
     \<or> i \<in> functor_conn ` set (pendingFunctors s)"

definition release :: "('u, 'k) platform \<Rightarrow> nat \<Rightarrow> ('u, 'k) server \<Rightarrow> ('u, 'k) server option" where
  "release pf i s =
     (if referenced i s then Some s else TcpConnection_destroy (pf_ctl pf) (pf_close pf) i s)"

text \<open>
  The vector of functors \<open>doPendingFunctors\<close> has run is destroyed with the references its functors hold, and
  a task with its reference once it has run.
\<close>

fun drop_functors :: "('u, 'k) platform \<Rightarrow> loop_functor list \<Rightarrow> ('u, 'k) server \<Rightarrow> ('u, 'k) server option" where
  "drop_functors pf [] s = Some s"
| "drop_functors pf (f # fs) s =
     Option.bind (if functor_conn f \<in> functor_conn ` set fs then Some s else release pf (functor_conn f) s)
       (drop_functors pf fs)"

definition run_pending :: "('u, 'k) platform \<Rightarrow> ('u, 'k) server \<Rightarrow> ('u, 'k) server option" where
  "run_pending pf s =
     Option.bind (doPendingFunctors (run_functor pf) s) (drop_functors pf (pendingFunctors s))"

definition complete_task ::
  "('u, 'k) platform \<Rightarrow> 'msg message_ops \<Rightarrow> ('mth, 'msg) service_registry \<Rightarrow> nat \<Rightarrow> 'u task
     \<Rightarrow> ('u, 'k) server \<Rightarrow> ('u, 'k) server option" where
  "complete_task pf ops reg me t s = Option.bind (run_task pf ops reg me t s) (release pf (task_conn t))"

text \<open>The close callback erases the connection; the argument of the callback goes away after it.\<close>

definition server_close :: "('u, 'k) platform \<Rightarrow> nat \<Rightarrow> ('u, 'k) server \<Rightarrow> ('u, 'k) server option" where
  "server_close pf i s = release pf i (s\<lparr>connections := connections s - {i}\<rparr>)"

text \<open>The callback for new connections.\<close>

definition newConnection ::
  "('u, 'k) platform \<Rightarrow> int \<Rightarrow> string \<Rightarrow> ('u, 'k) server \<Rightarrow> ('u, 'k) server option" where
  "newConnection pf sockfd peer s =
     (let i = fresh_conn s; p = fresh_ptr s;
          s1 = TcpConnection_new i p sockfd peer (s\<lparr>fresh_conn := Suc i, fresh_ptr := Suc p\<rparr>)
      in connectEstablished (pf_ctl pf) i (s1\<lparr>connections := insert i (connections s1)\<rparr>))"

text \<open>\<open>Acceptor::handleRead\<close>: the answer of \<open>accept4\<close> is a descriptor and the address of the peer.\<close>

definition Acceptor_handleRead ::
  "('u, 'k) platform \<Rightarrow> (int \<Rightarrow> string \<Rightarrow> ('u, 'k) server \<Rightarrow> ('u, 'k) server option) option \<Rightarrow> int \<times> string
     \<Rightarrow> ('u, 'k) server \<Rightarrow> ('u, 'k) server option" where
  "Acceptor_handleRead pf newConnectionCb answer s =
     (case answer of (connfd, peer) \<Rightarrow>
        if connfd \<ge> 0
        then (case newConnectionCb of
                Some cb \<Rightarrow> cb connfd peer s
              | None \<Rightarrow> Some (s\<lparr>kernel := pf_close pf connfd (kernel s)\<rparr>))
        else Some s)"

text \<open>
  The constructor of the acceptor binds the socket and creates the channel at \<open>p\<close>, which lives as long
  as the server; \<open>listen\<close> registers it with the loop.
\<close>

definition Acceptor_new ::
  "(int \<Rightarrow> sockaddr_in \<Rightarrow> int) \<Rightarrow> int \<Rightarrow> sockaddr_in \<Rightarrow> ptr \<Rightarrow> ('u, 'k) server \<Rightarrow> ('u, 'k) server process" where
  "Acceptor_new sys_bind sockfd listenAddr p s =
     (case Socket_new sockfd of
        ExitProcess \<Rightarrow> ExitProcess
      | Proceed fd \<Rightarrow>
          (case Socket_bind sys_bind fd listenAddr of
             ExitProcess \<Rightarrow> ExitProcess
           | Proceed _ \<Rightarrow> Proceed (s\<lparr>heap := (heap s)(p \<mapsto> setReadCallback AcceptRead (Channel_new fd))\<rparr>)))"

definition Acceptor_listen ::
  "(int \<Rightarrow> int) \<Rightarrow> 'k epoll_ctl \<Rightarrow> ptr \<Rightarrow> ('u, 'k) server \<Rightarrow> ('u, 'k) server option process" where
  "Acceptor_listen sys_listen ctl p s =
     (case heap s p of
        None \<Rightarrow> Proceed None
      | Some ch \<Rightarrow>
          (case Socket_listen sys_listen (ch_fd ch) of
             ExitProcess \<Rightarrow> ExitProcess
           | Proceed _ \<Rightarrow> Proceed (enableReading ctl p s)))"

text \<open>
  The constructor of the server on a loop: no connections, no tasks, the acceptor with its channel at
  \<open>p\<close>.  \<open>start\<close> listens.
\<close>

definition RpcServer_new ::
  "(int \<Rightarrow> sockaddr_in \<Rightarrow> int) \<Rightarrow> int \<Rightarrow> sockaddr_in \<Rightarrow> ptr \<Rightarrow> (callback, loop_functor, 'k) EventLoop
     \<Rightarrow> ('u, 'k) server process" where
  "RpcServer_new sys_bind sockfd listenAddr p lp =
     Acceptor_new sys_bind sockfd listenAddr p
       \<lparr>kernel = kernel lp, events_size = events_size lp, channels = channels lp, heap = heap lp,
        looping = looping lp, quitting = quitting lp, threadId = threadId lp,
        pendingFunctors = pendingFunctors lp, wakeups = wakeups lp, conns = Map.empty, sent = (\<lambda>_. []),
        acceptor = p, connections = {}, pool_tasks = [], fresh_conn = 0, fresh_ptr = Suc p\<rparr>"

definition RpcServer_start ::
  "(int \<Rightarrow> int) \<Rightarrow> 'k epoll_ctl \<Rightarrow> ptr \<Rightarrow> ('u, 'k) server \<Rightarrow> ('u, 'k) server option process" where
  "RpcServer_start sys_listen ctl p s = Acceptor_listen sys_listen ctl p s"

text \<open>The callbacks of the channels of a server; \<open>reads\<close> and \<open>accepted\<close> are the kernel's answers.\<close>

definition server_callback ::
  "('u, 'k) platform \<Rightarrow> (nat \<Rightarrow> read_result) \<Rightarrow> int \<times> string \<Rightarrow> (callback, ('u, 'k) server) runner" where
  "server_callback pf reads accepted cb s =
     (case cb of
        HandleRead i \<Rightarrow> handleRead (Some (onMessage pf)) (Some (server_close pf)) (reads i) i s
      | HandleWrite i \<Rightarrow> handleWrite (pf_ctl pf) (pf_write pf i (sent s i) (unsent i s)) i s
      | HandleClose i \<Rightarrow> handleClose (Some (server_close pf)) i s
      | WakeupRead \<Rightarrow> Some (read_wakeup s)
      | AcceptRead \<Rightarrow> Acceptor_handleRead pf (Some (newConnection pf)) accepted s)"

section \<open>The loop is a reader of frames\<close>

definition fill_input :: "bytes \<Rightarrow> buffer \<Rightarrow> buffer" where
  "fill_input data b = snd (snd (readFd (ReadOk data) 0 b))"

lemma fill_input_readFd: "buf_inv b \<Longrightarrow> readFd (ReadOk data) 0 b = (int (length data), 0, fill_input data b)"
  using readFd_Ok [of b data 0] by (auto simp: fill_input_def)

interpretation srv: chunked_reader buf_inv contents "\<lambda>b. tryUnpackWithId e b 0" "packWithId e'" fits
  "read_frames e handle" handle fill_input for e e' handle
proof
  show "read_frames e handle b s = (s, snd (snd (tryUnpackWithId e b 0)))"
    if "fst (tryUnpackWithId e b 0) = []" for b s
    using that by (subst read_frames.simps) (auto split: prod.splits)
  show "read_frames e handle b s = read_frames e handle b' (handle i d s)"
    if "tryUnpackWithId e b 0 = (d, i, b')" "d \<noteq> []" for b d i b' s
    using that by (subst read_frames.simps) simp
  show "buf_inv (fill_input xs b)" if "buf_inv b" for b xs
    using readFd_Ok [OF that, of xs 0] by (auto simp: fill_input_def)
  show "contents (fill_input xs b) = contents b @ xs" if "buf_inv b" for b xs
    using readFd_Ok [OF that, of xs 0] by (auto simp: fill_input_def)
qed

section \<open>From bytes to tasks\<close>

text \<open>The frame a client on a host of order \<open>e\<close> sends for a request.\<close>

definition request_frame :: "byte_order \<Rightarrow> 'u pb_runtime \<Rightarrow> uint64 \<times> 'u RpcRequest \<Rightarrow> bytes" where
  "request_frame e rt q = packWithId e (fst q) (RpcRequest_InternalSerialize rt (snd q))"

definition proper_request :: "'u pb_runtime \<Rightarrow> 'u RpcRequest \<Rightarrow> bool" where
  "proper_request rt req \<longleftrightarrow> RpcRequest_wf rt req \<and> fits (RpcRequest_InternalSerialize rt req)
     \<and> RpcRequest_InternalSerialize rt req \<noteq> []"

definition task_of_request :: "nat \<Rightarrow> uint64 \<times> 'u RpcRequest \<Rightarrow> 'u task" where
  "task_of_request i q = \<lparr>task_conn = i, task_request = snd q, task_id = fst q\<rparr>"

definition encode_requests :: "'u pb_runtime \<Rightarrow> (uint64 \<times> 'u RpcRequest) list \<Rightarrow> (uint64 \<times> bytes) list" where
  "encode_requests rt qs = map (\<lambda>(reqId, req). (reqId, RpcRequest_InternalSerialize rt req)) qs"

lemma encode_frames: "rc.frames e (encode_requests rt qs) = concat (map (request_frame e rt) qs)"
  by (induction qs) (auto simp: encode_requests_def request_frame_def)

lemma encode_split:
  "encode_requests rt qs = ms1 @ ms2 \<Longrightarrow>
   ms1 = encode_requests rt (take (length ms1) qs) \<and> ms2 = encode_requests rt (drop (length ms1) qs)"
  by (simp add: encode_requests_def map_eq_append_conv) (auto simp: take_map drop_map)

text \<open>Handling frames that hold proper requests only adds tasks.\<close>

lemma handle_requests:
  assumes "pb_runtime_ok (pf_rt pf)" and "\<forall>(reqId, req) \<in> set qs. proper_request (pf_rt pf) req"
  shows "fold (\<lambda>(reqId, d). (\<lambda>r. Option.bind r (handle_frame pf i reqId d))) (encode_requests (pf_rt pf) qs) (Some s)
       = Some (s\<lparr>pool_tasks := pool_tasks s @ map (task_of_request i) qs\<rparr>)"
  using assms(2)
proof (induction qs arbitrary: s)
  case Nil
  then show ?case by (simp add: encode_requests_def)
next
  case (Cons q qs)
  obtain reqId req where q: "q = (reqId, req)" by (cases q)
  have "RpcRequest_wf (pf_rt pf) req" using Cons.prems q by (simp add: proper_request_def)
  from pb_runtime_ok.request_reads_back [OF assms(1) this]
  have "handle_frame pf i reqId (RpcRequest_InternalSerialize (pf_rt pf) req) s
      = Some (s\<lparr>pool_tasks := pool_tasks s @ [task_of_request i q]\<rparr>)"
    by (simp add: handle_frame_def task_of_request_def q)
  with Cons.IH [of "s\<lparr>pool_tasks := pool_tasks s @ [task_of_request i q]\<rparr>"] Cons.prems q
  show ?case by (simp add: encode_requests_def)
qed

text \<open>The read events of one connection, each delivering a non-empty piece of the stream.\<close>

fun read_events ::
  "('u, 'k) platform \<Rightarrow> nat \<Rightarrow> bytes list \<Rightarrow> ('u, 'k) server \<Rightarrow> ('u, 'k) server option" where
  "read_events pf i [] s = Some s"
| "read_events pf i (chunk # chunks) s =
     Option.bind (handleRead (Some (onMessage pf)) (Some (server_close pf)) (ReadOk chunk) i s)
       (read_events pf i chunks)"

lemma set_conn_task [simp]:
  "set_conn i c' ((set_conn i c s)\<lparr>pool_tasks := ts\<rparr>) = set_conn i c' (s\<lparr>pool_tasks := ts\<rparr>)"
  by (simp add: set_conn_def)

lemma read_event_tasks:
  assumes rt: "pb_runtime_ok (pf_rt pf)" and c: "conns s i = Some c" and inv: "buf_inv (inputBuffer c)"
    and proper: "\<forall>(reqId, req) \<in> set qs. proper_request (pf_rt pf) req" and ne: "chunk \<noteq> []"
    and cut: "rc.cut e' (encode_requests (pf_rt pf) qs) (contents (inputBuffer c))"
    and pre: "prefix (contents (inputBuffer c) @ chunk) (rc.frames e' (encode_requests (pf_rt pf) qs))"
  shows "\<exists>qs1 qs2 b'. qs = qs1 @ qs2
      \<and> handleRead (Some (onMessage pf)) (Some (server_close pf)) (ReadOk chunk) i s
        = Some (set_conn i (c\<lparr>inputBuffer := b'\<rparr>) (s\<lparr>pool_tasks := pool_tasks s @ map (task_of_request i) qs1\<rparr>))
      \<and> buf_inv b' \<and> contents (inputBuffer c) @ chunk = rc.frames e' (encode_requests (pf_rt pf) qs1) @ contents b'
      \<and> rc.cut e' (encode_requests (pf_rt pf) qs2) (contents b')"
proof -
  let ?rt = "pf_rt pf"
  let ?handle = "\<lambda>reqId d r. Option.bind r (handle_frame pf i reqId d)"
  let ?s = "set_conn i (c\<lparr>inputBuffer := fill_input chunk (inputBuffer c)\<rparr>) s"
  have "\<forall>(reqId, d) \<in> set (encode_requests ?rt qs). fits d \<and> d \<noteq> []"
    using proper by (auto simp: encode_requests_def proper_request_def)
  then obtain ms1 ms2 b' where r: "encode_requests ?rt qs = ms1 @ ms2"
      "read_frames (pf_order pf) ?handle (fill_input chunk (inputBuffer c)) (Some ?s)
         = (fold (\<lambda>(i, d). ?handle i d) ms1 (Some ?s), b')"
      "buf_inv b'" "contents (inputBuffer c) @ chunk = rc.frames e' ms1 @ contents b'"
      "rc.cut e' ms2 (contents b')"
    using srv.feed_step [OF inv cut pre, of "pf_order pf" ?handle "Some ?s"] by blast
  let ?qs1 = "take (length ms1) qs" let ?qs2 = "drop (length ms1) qs"
  have ms: "ms1 = encode_requests ?rt ?qs1" "ms2 = encode_requests ?rt ?qs2"
    using encode_split [OF r(1)] by blast+
  have "\<forall>(reqId, req) \<in> set ?qs1. proper_request ?rt req" using proper by (auto dest: in_set_takeD)
  from handle_requests [OF rt this, of i ?s] r(2) ms(1)
  have "onMessage pf i ?s = Some (set_conn i (c\<lparr>inputBuffer := b'\<rparr>)
      (s\<lparr>pool_tasks := pool_tasks s @ map (task_of_request i) ?qs1\<rparr>))"
    by (simp add: onMessage_def) (simp add: set_conn_def)
  then have "handleRead (Some (onMessage pf)) (Some (server_close pf)) (ReadOk chunk) i s
        = Some (set_conn i (c\<lparr>inputBuffer := b'\<rparr>) (s\<lparr>pool_tasks := pool_tasks s @ map (task_of_request i) ?qs1\<rparr>))"
    using c ne by (simp add: handleRead_def fill_input_readFd [OF inv] Let_def)
  then show ?thesis
    using r(3-5) ms by (intro exI [of _ ?qs1] exI [of _ ?qs2] exI [of _ b']) simp
qed

lemma read_events_tasks:
  assumes rt: "pb_runtime_ok (pf_rt pf)" and "\<forall>chunk \<in> set chunks. chunk \<noteq> []"
    and "\<forall>(reqId, req) \<in> set qs. proper_request (pf_rt pf) req"
    and "conns s i = Some c" and "buf_inv (inputBuffer c)"
    and "rc.cut e' (encode_requests (pf_rt pf) qs) (contents (inputBuffer c))"
    and "contents (inputBuffer c) @ concat chunks = rc.frames e' (encode_requests (pf_rt pf) qs)"
  shows "\<exists>b'. read_events pf i chunks s
      = Some (set_conn i (c\<lparr>inputBuffer := b'\<rparr>) (s\<lparr>pool_tasks := pool_tasks s @ map (task_of_request i) qs\<rparr>))
      \<and> buf_inv b' \<and> contents b' = []"
  using assms(2-)
proof (induction chunks arbitrary: s c qs)
  case Nil
  then have "encode_requests (pf_rt pf) qs = []" using rc.cut_all by simp
  with Nil have "qs = []" "contents (inputBuffer c) = []" by (simp_all add: encode_requests_def)
  moreover have "set_conn i (c\<lparr>inputBuffer := inputBuffer c\<rparr>) (s\<lparr>pool_tasks := pool_tasks s\<rparr>) = s"
    using Nil.prems(3) by (simp add: set_conn_def fun_upd_idem)
  ultimately show ?case using Nil.prems(4) by (intro exI [of _ "inputBuffer c"]) simp
next
  case (Cons chunk chunks)
  let ?rt = "pf_rt pf"
  have "prefix (contents (inputBuffer c) @ chunk) (rc.frames e' (encode_requests ?rt qs))"
    using Cons.prems(6) [symmetric] by simp
  from read_event_tasks [OF rt Cons.prems(3,4,2) _ Cons.prems(5) this] Cons.prems(1)
  obtain qs1 qs2 b where 1: "qs = qs1 @ qs2" "buf_inv b"
      "handleRead (Some (onMessage pf)) (Some (server_close pf)) (ReadOk chunk) i s
        = Some (set_conn i (c\<lparr>inputBuffer := b\<rparr>) (s\<lparr>pool_tasks := pool_tasks s @ map (task_of_request i) qs1\<rparr>))"
      "contents (inputBuffer c) @ chunk = rc.frames e' (encode_requests ?rt qs1) @ contents b"
      "rc.cut e' (encode_requests ?rt qs2) (contents b)" by (auto simp del: append_assoc)
  let ?s = "set_conn i (c\<lparr>inputBuffer := b\<rparr>) (s\<lparr>pool_tasks := pool_tasks s @ map (task_of_request i) qs1\<rparr>)"
  have "contents b @ concat chunks = rc.frames e' (encode_requests ?rt qs2)"
    using Cons.prems(6) 1(1,4) by (simp add: encode_requests_def flip: append_assoc) (simp add: append_assoc)
  with Cons.IH [of qs2 ?s "c\<lparr>inputBuffer := b\<rparr>"] Cons.prems(1,2) 1
  show ?case by (auto simp: set_conn_def)
qed

section \<open>Properties of the server\<close>

text \<open>
  Requests become tasks, however the stream is cut.  A client sends proper requests one after the
  other; the network delivers the bytes in arbitrary non-empty pieces.  After the read events the pool
  has received exactly these requests, in order and with their ids, the input buffer is empty again,
  and nothing was sent.
\<close>

theorem requests_reach_the_pool:
  assumes "pb_runtime_ok (pf_rt pf)" and "\<forall>chunk \<in> set chunks. chunk \<noteq> []"
    and "\<forall>(reqId, req) \<in> set qs. proper_request (pf_rt pf) req"
    and "conns s i = Some c" and "buf_inv (inputBuffer c)" and "contents (inputBuffer c) = []"
    and "concat chunks = concat (map (request_frame e' (pf_rt pf)) qs)"
  shows "\<exists>s' c'. read_events pf i chunks s = Some s'
      \<and> pool_tasks s' = pool_tasks s @ map (\<lambda>(reqId, req). \<lparr>task_conn = i, task_request = req, task_id = reqId\<rparr>) qs
      \<and> conns s' i = Some c' \<and> contents (inputBuffer c') = [] \<and> sent s' = sent s"
proof -
  have "rc.cut e' (encode_requests (pf_rt pf) qs) (contents (inputBuffer c))"
    using assms(6) by (simp add: rc.cut_def)
  from read_events_tasks [OF assms(1-5) this] assms(6,7)
  obtain b' where "read_events pf i chunks s = Some (set_conn i (c\<lparr>inputBuffer := b'\<rparr>)
      (s\<lparr>pool_tasks := pool_tasks s @ map (task_of_request i) qs\<rparr>))" "contents b' = []"
    by (auto simp: encode_frames)
  then show ?thesis by (auto simp: set_conn_def task_of_request_def)
qed

definition sample_platform :: "(bytes, int \<rightharpoonup> uint32 \<times> ptr) platform" where
  "sample_platform = \<lparr>pf_rt = varint_runtime, pf_order = LittleEndian, pf_ctl = map_ctl,
     pf_close = map_close, pf_write = (\<lambda>_ _ bs. Wrote (length bs))\<rparr>"

definition sample_server :: "(bytes, int \<rightharpoonup> uint32 \<times> ptr) server" where
  "sample_server = TcpConnection_new 1 2 9 ''peer''
     \<lparr>kernel = Map.empty, events_size = 16, channels = Map.empty,
      heap = [0 \<mapsto> setReadCallback AcceptRead (Channel_new 3)], looping = True,
      quitting = False, threadId = 0, pendingFunctors = [], wakeups = 0, conns = Map.empty,
      sent = (\<lambda>_. []), acceptor = 0, connections = {1}, pool_tasks = [], fresh_conn = 2, fresh_ptr = 3\<rparr>"

lemma sample_server_conn:
  "conns sample_server 1 = Some \<lparr>conn_name = ''peer'', conn_fd = 9, conn_channel = 2,
     inputBuffer = Buffer_new kInitialSize, outputBuffer = Buffer_new kInitialSize\<rparr>"
  and sample_server_tasks: "pool_tasks sample_server = []"
  by (simp_all add: sample_server_def TcpConnection_new_def set_conn_def)

lemma sample_server_ok: "conn_ok 1 sample_server" "unsent 1 sample_server = []" "sent sample_server 1 = []"
  by (simp_all add: conn_ok_def unsent_def sample_server_def TcpConnection_new_def set_conn_def)

lemma sample_server_thread [simp]: "threadId sample_server = 0" "pendingFunctors sample_server = []"
  by (simp_all add: sample_server_def TcpConnection_new_def set_conn_def)

lemma sample_request_proper: "proper_request varint_runtime sample_request"
proof -
  have n: "length (RpcRequest_InternalSerialize varint_runtime sample_request) = 27"
    using vrt.request_size [of sample_request]
    by (simp add: RpcRequest_ByteSizeLong_def sample_request_def varint_runtime_def varint.simps)
  then have "RpcRequest_InternalSerialize varint_runtime sample_request \<noteq> []" by force
  with n show ?thesis
    using sample_request_wf by (simp add: proper_request_def fits_def kMaxLen_def)
qed

lemma requests_reach_the_pool_witness:
  "\<exists>s'. read_events sample_platform 1
       [take 5 (request_frame BigEndian varint_runtime (3, sample_request)),
        drop 5 (request_frame BigEndian varint_runtime (3, sample_request))] sample_server = Some s'
     \<and> pool_tasks s' = [\<lparr>task_conn = 1, task_request = sample_request, task_id = 3\<rparr>]"
proof -
  let ?f = "request_frame BigEndian varint_runtime (3, sample_request)"
  have "length ?f \<ge> 12" by (simp add: request_frame_def)
  then have "take 5 ?f \<noteq> []" "drop 5 ?f \<noteq> []" by (auto simp: take_eq_Nil)
  moreover have "concat [take 5 ?f, drop 5 ?f] = concat (map (request_frame BigEndian varint_runtime) [(3, sample_request)])"
    by simp
  ultimately show ?thesis
    using requests_reach_the_pool [OF _ _ _ sample_server_conn, of sample_platform "[take 5 ?f, drop 5 ?f]"
        "[(3, sample_request)]" BigEndian] vrt.pb_runtime_ok_axioms sample_request_proper sample_server_tasks
    by (simp add: sample_platform_def) metis
qed

text \<open>Sending on a live connection, as the functor of a response does.\<close>

lemma conn_send_effect:
  "conn_ok i s \<Longrightarrow> \<exists>s'. conn_send pf i msg s = Some s' \<and> conn_ok i s'
     \<and> sent s' i @ unsent i s' = sent s i @ unsent i s @ msg"
  unfolding conn_send_def by (rule send_effect)

lemma updateChannel_server [simp]:
  "pool_tasks (updateChannel ctl p ch s) = pool_tasks s"
  "pendingFunctors (updateChannel ctl p ch s) = pendingFunctors s"
  "threadId (updateChannel ctl p ch s) = threadId s"
  "connections (updateChannel ctl p ch s) = connections s" "acceptor (updateChannel ctl p ch s) = acceptor s"
  "fresh_conn (updateChannel ctl p ch s) = fresh_conn s" "fresh_ptr (updateChannel ctl p ch s) = fresh_ptr s"
  by (simp_all add: updateChannel_def Let_def)

lemma change_events_tasks: "change_events ctl g p s = Some s' \<Longrightarrow> pool_tasks s' = pool_tasks s"
  by (auto simp: change_events_def updateChannel_def Let_def split: option.splits if_splits)

lemma conn_send_tasks: "conn_send pf i msg s = Some s' \<Longrightarrow> pool_tasks s' = pool_tasks s"
  by (auto simp: conn_send_def send_def enableWriting_def set_conn_def record_sent_def Let_def
      dest!: change_events_tasks split: option.splits if_splits write_result.splits)

lemma run_functors_effect:
  assumes "conn_ok i s"
  shows "\<exists>s'. run_functors (run_functor pf) (map (\<lambda>(reqId, payload). SendResponse i reqId payload) rs) s = Some s'
      \<and> conn_ok i s' \<and> sent s' i @ unsent i s'
          = sent s i @ unsent i s @ concat (map (\<lambda>(reqId, payload). packWithId (pf_order pf) reqId payload) rs)"
  using assms
proof (induction rs arbitrary: s)
  case Nil
  then show ?case by simp
next
  case (Cons r rs)
  obtain reqId payload where r: "r = (reqId, payload)" by (cases r)
  obtain s1 where "conn_send pf i (packWithId (pf_order pf) reqId payload) s = Some s1" "conn_ok i s1"
      "sent s1 i @ unsent i s1 = sent s i @ unsent i s @ packWithId (pf_order pf) reqId payload"
    using conn_send_effect [OF Cons.prems] by blast
  with Cons.IH [of s1] r show ?case by (auto simp: run_functor_def simp flip: append_assoc)
qed

text \<open>Pool threads run tasks of one connection, in the order of the list.\<close>

fun run_tasks where
  "run_tasks pf ops reg [] s = Some s"
| "run_tasks pf ops reg ((me, t) # ts) s = Option.bind (run_task pf ops reg me t s) (run_tasks pf ops reg ts)"

text \<open>The payload of the answer to a task.\<close>

definition answers :: "('u, 'k) platform \<Rightarrow> 'msg message_ops \<Rightarrow> ('mth, 'msg) service_registry \<Rightarrow> 'u task \<Rightarrow> bytes \<Rightarrow> bool" where
  "answers pf ops reg t payload \<longleftrightarrow>
     (\<exists>rsp. dispatchRequest (pf_rt pf) ops reg (task_request t) = Returned rsp
        \<and> payload = RpcResponse_InternalSerialize (pf_rt pf) rsp)"

lemma run_tasks_queue:
  assumes "\<forall>(me, t) \<in> set mts. me \<noteq> threadId s \<and> task_conn t = i"
    and "list_all2 (\<lambda>(me, t) payload. answers pf ops reg t payload) mts payloads"
  shows "\<exists>s'. run_tasks pf ops reg mts s = Some s' \<and> conns s' = conns s \<and> heap s' = heap s \<and> sent s' = sent s
      \<and> pendingFunctors s' = pendingFunctors s
          @ map (\<lambda>(mt, payload). SendResponse i (task_id (snd mt)) payload) (zip mts payloads)"
  using assms
proof (induction mts arbitrary: s payloads)
  case Nil
  then show ?case by simp
next
  case (Cons mt mts)
  obtain me t where mt: "mt = (me, t)" by (cases mt)
  with Cons.prems obtain p ps where ps: "payloads = p # ps" "answers pf ops reg t p"
      "list_all2 (\<lambda>(me, t) payload. answers pf ops reg t payload) mts ps" "me \<noteq> threadId s" "task_conn t = i"
    by (auto simp: list_all2_Cons1)
  let ?s = "queueInLoop me (SendResponse i (task_id t) p) s"
  have "run_task pf ops reg me t s = Some ?s"
    using ps(2,4,5) by (auto simp: run_task_def answers_def runInLoop_def isInLoopThread_def)
  moreover have "conns ?s = conns s" "heap ?s = heap s" "sent ?s = sent s" "threadId ?s = threadId s"
      "pendingFunctors ?s = pendingFunctors s @ [SendResponse i (task_id t) p]"
    by (simp_all add: queueInLoop_def push_functor_def wakeup_def Let_def)
  ultimately show ?case
    using Cons.IH [of ?s ps] Cons.prems(1) mt ps(1,3) by auto
qed

lemma answered_tasks:
  assumes "conn_ok i s" and "pendingFunctors s = []"
    and "\<forall>(me, t) \<in> set mts. me \<noteq> threadId s \<and> task_conn t = i"
    and "list_all2 (\<lambda>(me, t) payload. answers pf ops reg t payload) mts payloads"
  shows "\<exists>s1 s2. run_tasks pf ops reg mts s = Some s1
      \<and> doPendingFunctors (run_functor pf) s1 = Some s2
      \<and> sent s2 i @ unsent i s2 = sent s i @ unsent i s
          @ concat (map (\<lambda>(mt, payload). packWithId (pf_order pf) (task_id (snd mt)) payload) (zip mts payloads))"
proof -
  obtain s1 where s1: "run_tasks pf ops reg mts s = Some s1" "conns s1 = conns s" "heap s1 = heap s"
      "sent s1 = sent s" "pendingFunctors s1
          = map (\<lambda>(mt, payload). SendResponse i (task_id (snd mt)) payload) (zip mts payloads)"
    using run_tasks_queue [OF assms(3,4)] assms(2) by auto
  let ?s = "s1\<lparr>pendingFunctors := []\<rparr>"
  let ?rs = "map (\<lambda>(mt, payload). (task_id (snd mt), payload)) (zip mts payloads)"
  have "conn_ok i ?s" "sent ?s i = sent s i" "unsent i ?s = unsent i s"
    using assms(1) s1 by (simp_all add: conn_ok_def unsent_def)
  moreover have "pendingFunctors s1 = map (\<lambda>(reqId, payload). SendResponse i reqId payload) ?rs"
    by (simp add: s1(5) split_def)
  ultimately show ?thesis
    using run_functors_effect [of i ?s pf ?rs] s1(1)
    by (auto simp: doPendingFunctors_def split_def comp_def)
qed

text \<open>
  Every task is answered under its own id.  Pool threads finish tasks of a connection in some
  order and the loop then runs its pending functors.  The output stream of the connection grows by
  exactly one frame per task, in the order of completion, holding the id of the request and the
  serialized response of the dispatcher, whatever part of each write the kernel accepts.
\<close>

theorem tasks_are_answered:
  assumes "conn_ok i s" and "pendingFunctors s = []"
    and "\<forall>(me, t) \<in> set mts. me \<noteq> threadId s \<and> task_conn t = i"
    and "list_all2 (\<lambda>(me, t) payload. answers pf ops reg t payload) mts payloads"
  shows "\<exists>s1 s2. run_tasks pf ops reg mts s = Some s1
      \<and> doPendingFunctors (run_functor pf) s1 = Some s2
      \<and> sent s2 i @ unsent i s2 = sent s i @ unsent i s
          @ concat (map (\<lambda>(mt, payload). packWithId (pf_order pf) (task_id (snd mt)) payload) (zip mts payloads))"
  using answered_tasks [OF assms] .

lemma tasks_are_answered_witness:
  "\<exists>s1 s2. run_tasks sample_platform echo_ops (service_register echo_service Map.empty)
        [(7, \<lparr>task_conn = 1, task_request = sample_request, task_id = 3\<rparr>)] sample_server = Some s1
     \<and> doPendingFunctors (run_functor sample_platform) s1 = Some s2
     \<and> sent s2 1 @ unsent 1 s2 = packWithId LittleEndian 3
         (RpcResponse_InternalSerialize varint_runtime
           (set_error_code NO_SERVICE (RpcResponse_default varint_runtime)))"
proof -
  let ?reg = "service_register echo_service Map.empty"
  let ?t = "\<lparr>task_conn = 1, task_request = sample_request, task_id = 3\<rparr>"
  let ?p = "RpcResponse_InternalSerialize varint_runtime (set_error_code NO_SERVICE (RpcResponse_default varint_runtime))"
  have "answers sample_platform echo_ops ?reg ?t ?p"
    by (simp add: answers_def dispatch_defs sample_platform_def service_register_def echo_service_def sample_request_def)
  then show ?thesis
    using tasks_are_answered [OF sample_server_ok(1), of "[(7, ?t)]" sample_platform echo_ops ?reg "[?p]"]
      sample_server_ok(2,3)
    by (simp add: sample_server_thread) (simp add: sample_platform_def)
qed

text \<open>
  C38: an unreadable request is answered and the next one still served.  A frame whose payload the
  parser rejects gets a \<open>WRONG_PROTO\<close> response under its id, directly from the loop, and the frames
  behind it are handled as if it had not been there.
\<close>

theorem bad_request_answered:
  assumes "conn_ok i s" and "conns s i = Some c"
    and "contents (inputBuffer c) = packWithId e' reqId d @ rest" and "fits d" and "d \<noteq> []"
    and "RpcRequest_ParseFromString (pf_rt pf) (RpcRequest_default (pf_rt pf)) d = Some (request, False)"
  shows "\<exists>s1 b1. buf_inv b1 \<and> contents b1 = rest
      \<and> sent s1 i @ unsent i s1 = sent s i @ unsent i s
          @ packWithId (pf_order pf) reqId (RpcResponse_InternalSerialize (pf_rt pf)
              (set_error_code WRONG_PROTO (RpcResponse_default (pf_rt pf))))
      \<and> pool_tasks s1 = pool_tasks s
      \<and> read_frames (pf_order pf) (\<lambda>reqId d r. Option.bind r (handle_frame pf i reqId d)) (inputBuffer c) (Some s)
        = read_frames (pf_order pf) (\<lambda>reqId d r. Option.bind r (handle_frame pf i reqId d)) b1 (Some s1)"
proof -
  let ?msg = "packWithId (pf_order pf) reqId (RpcResponse_InternalSerialize (pf_rt pf)
              (set_error_code WRONG_PROTO (RpcResponse_default (pf_rt pf))))"
  obtain s1 where s1: "conn_send pf i ?msg s = Some s1"
      "sent s1 i @ unsent i s1 = sent s i @ unsent i s @ ?msg"
    using conn_send_effect [OF assms(1)] by blast
  have "buf_inv (inputBuffer c)" using assms(1,2) by (auto simp: conn_ok_def)
  from rc.unpack_frame [OF this assms(4,3), of "pf_order pf"]
  obtain b1 where b1: "tryUnpackWithId (pf_order pf) (inputBuffer c) 0 = (d, reqId, b1)" "buf_inv b1" "contents b1 = rest"
    by blast
  have "handle_frame pf i reqId d s = Some s1"
    using s1(1) assms(6) by (simp add: handle_frame_def)
  then have "read_frames (pf_order pf) (\<lambda>reqId d r. Option.bind r (handle_frame pf i reqId d)) (inputBuffer c) (Some s)
      = read_frames (pf_order pf) (\<lambda>reqId d r. Option.bind r (handle_frame pf i reqId d)) b1 (Some s1)"
    using srv.loop_step [OF b1(1) assms(5), of "\<lambda>reqId d r. Option.bind r (handle_frame pf i reqId d)" "Some s"]
    by simp
  with b1(2,3) s1(2) conn_send_tasks [OF s1(1)] show ?thesis by blast
qed

text \<open>The parser gives up on a lone continuation byte.\<close>

lemma bad_bytes:
  "RpcRequest_ParseFromString varint_runtime (RpcRequest_default varint_runtime) [CHR 0xFF]
     = Some (RpcRequest_default varint_runtime, False)"
proof -
  have "ReadTag varint_runtime [CHR 0xFF] = (0, None)"
    by (simp add: varint_runtime_def numeral_eq_Suc)
  then show ?thesis
    by (simp add: RpcRequest_ParseFromString_def ParseFromString_def RpcRequest_InternalParse_def
        RpcRequest_Clear_def RpcRequest_default_def RpcRequest_switch_def handle_unusual_def parse_loop.simps)
qed

lemma bad_request_answered_witness:
  "\<exists>s1. sent s1 1 @ unsent 1 s1 = packWithId LittleEndian 8
       (RpcResponse_InternalSerialize varint_runtime
         (set_error_code WRONG_PROTO (RpcResponse_default varint_runtime)))
     \<and> pool_tasks (s1 :: (bytes, int \<rightharpoonup> uint32 \<times> ptr) server) = []"
proof -
  let ?b = "append_buf (packWithId BigEndian 8 [CHR 0xFF]) (Buffer_new kInitialSize)"
  obtain c where c: "conns sample_server 1 = Some c" "outputBuffer c = Buffer_new kInitialSize" "conn_channel c = 2"
    using sample_server_conn by auto
  let ?c = "c\<lparr>inputBuffer := ?b\<rparr>"
  let ?s = "set_conn 1 ?c sample_server"
  have "contents ?b = packWithId BigEndian 8 [CHR 0xFF] @ []" by (simp add: buf_simps)
  moreover have "conn_ok 1 ?s" "unsent 1 ?s = []" "pool_tasks ?s = []" "sent ?s 1 = []"
    using c sample_server_ok sample_server_tasks
    by (auto simp: conn_ok_def unsent_def inv_intros set_conn_def)
  ultimately show ?thesis
    using bad_request_answered [of 1 ?s ?c BigEndian 8 "[CHR 0xFF]" "[]" sample_platform] bad_bytes
    by (auto simp: sample_platform_def fits_def kMaxLen_def)
qed

text \<open>
  A frame without a payload stops the loop.  An empty payload is a valid frame (it is what a
  request with no field set serializes to), but \<open>onMessage\<close> takes it for \<open>no message\<close>: the frame is
  consumed without an answer and the frames behind it stay in the buffer until more data arrives.
\<close>

theorem empty_payload_stalls:
  assumes "buf_inv b" and "contents b = packWithId e' reqId [] @ rest"
  shows "\<exists>b'. read_frames e handle b s = (s, b') \<and> contents b' = rest"
proof -
  obtain b' where "tryUnpackWithId e b 0 = ([], reqId, b')" "contents b' = rest"
    using rc.unpack_frame [OF assms(1) rc.ok_empty assms(2), of e] by blast
  then show ?thesis using srv.loop_stop [of e b handle s] by simp
qed

lemma empty_payload_stalls_witness:
  "\<exists>b'. read_frames LittleEndian (\<lambda>reqId d s. Suc s)
         (append_buf (packWithId BigEndian 4 [] @ packWithId BigEndian 5 ''x'') (Buffer_new kInitialSize)) 0 = (0, b')
     \<and> contents b' = packWithId BigEndian 5 ''x''"
  by (rule empty_payload_stalls) (simp_all add: buf_simps inv_intros)

text \<open>
  C23: closing a connection from its own read event is a use after free.  When a client closes and the
  server holds the only reference, the read event ends in \<open>handleClose\<close>, whose callback erases the
  connection and with it destroys the channel; \<open>Channel::handleEvent\<close>, which called it, then reads
  \<open>revents_\<close> of that channel.
\<close>

theorem eof_is_use_after_free:
  assumes "conns s i = Some c" and "buf_inv (inputBuffer c)"
    and "heap s (conn_channel c) = Some ch" and "readCallback ch = Some (HandleRead i)"
    and "ch_revents ch = EPOLLIN" and "reads i = ReadOk []"
    and "pool_tasks s = []" and "pendingFunctors s = []"
  shows "handleEvent (server_callback pf reads accepted) (conn_channel c) s = None"
proof -
  let ?s = "(set_conn i (c\<lparr>inputBuffer := fill_input [] (inputBuffer c)\<rparr>) s)\<lparr>connections := connections s - {i}\<rparr>"
  obtain s2 where s2: "change_events (pf_ctl pf) (\<lambda>_. 0) (conn_channel c) ?s = Some s2"
      "heap s2 = (heap s)(conn_channel c \<mapsto> ch\<lparr>ch_events := 0\<rparr>)"
    using change_events_live [of ?s "conn_channel c" ch "pf_ctl pf" "\<lambda>_. 0"] assms(3)
    by (auto simp: set_conn_def)
  have conn: "conns ?s i = Some (c\<lparr>inputBuffer := fill_input [] (inputBuffer c)\<rparr>)" by (simp add: set_conn_def)
  have "\<not> referenced i ?s"
    using assms(7,8) by (simp add: referenced_def set_conn_def)
  then obtain s3 where s3: "server_close pf i (set_conn i (c\<lparr>inputBuffer := fill_input [] (inputBuffer c)\<rparr>) s) = Some s3"
      "heap s3 (conn_channel c) = None"
    using s2 conn
    by (auto simp: server_close_def release_def TcpConnection_destroy_def Channel_destroy_def
        channel_remove_def set_conn_def)
  have "server_callback pf reads accepted (HandleRead i) s = Some s3"
    using assms(1,6) s3(1) by (simp add: server_callback_def handleRead_def handleClose_def
        fill_input_readFd [OF assms(2)] Let_def)
  from handle_event_read [of s _ ch "HandleRead i" "server_callback pf reads accepted", OF assms(3) _ _ assms(4) this] assms(5) s3(2)
  show ?thesis by (simp add: epoll_bits)
qed

lemma eof_is_use_after_free_witness:
  "handleEvent (server_callback sample_platform (\<lambda>_. ReadOk []) (- 1, [])) 2
     (sample_server\<lparr>heap := [2 \<mapsto> set_revents EPOLLIN (setReadCallback (HandleRead 1) (Channel_new 9))]\<rparr>) = None"
  using eof_is_use_after_free [of "sample_server\<lparr>heap := [2 \<mapsto> set_revents EPOLLIN (setReadCallback (HandleRead 1) (Channel_new 9))]\<rparr>"
      1 "the (conns sample_server 1)" "set_revents EPOLLIN (setReadCallback (HandleRead 1) (Channel_new 9))"
      "\<lambda>_. ReadOk []" sample_platform "(- 1, [])"]
  by (simp add: sample_server_conn sample_server_tasks set_revents_def setReadCallback_def)
    (simp add: sample_server_def TcpConnection_new_def set_conn_def)

end
