(* ===== verification/Rpc_Channel.thy ===== *)
theory Rpc_Channel
  imports Registry_Client Load_Balancer Custom_Controller Rpc_Server Net_Address
begin

text \<open>
  The client (\<^verbatim>\<open>src/rpc/rpc_channel.h\<close>, \<^verbatim>\<open>src/rpc/rpc_channel.cpp\<close>): connections by address, synchronous
  calls with retries, asynchronous calls, and the matching of responses to calls by id.  Controllers,
  response objects and closures are named by numbers, so that the pointers a pending call keeps can be
  followed; the calls of \<open>TcpConnection::send\<close> are recorded in order.
\<close>

section \<open>State\<close>

record PendingAsync =
  pa_response :: nat
  pa_done :: nat
  pa_controller :: nat

record ('u, 'g, 'r) RpcChannel =
  registryClient :: RegistryClient
  serviceName :: string
  loadBalancer :: "'g LoadBalancer"
  chan_conns :: "string \<rightharpoonup> nat"
  pendingSync :: "uint64 set"
  pendingAsync :: "uint64 \<rightharpoonup> PendingAsync"
  nextId :: uint64
  promises :: "uint64 \<rightharpoonup> 'u RpcResponse"
  inbufs :: "nat \<Rightarrow> buffer"
  new_conn :: nat
  outbox :: "(nat \<times> bytes) list"
  shut :: "nat set"
  controllers :: "nat \<Rightarrow> CustomController"
  responses :: "nat \<Rightarrow> 'r"
  closures_run :: "nat list"

text \<open>
  What the client runs on: the runtime, the byte order, the JSON parser, the random draws, the network
  calls, and the parser of the response type.
\<close>

record ('u, 'g, 'r) client_env =
  ce_rt :: "'u pb_runtime"
  ce_order :: byte_order
  ce_json :: json_parser
  ce_draw :: "'g \<Rightarrow> nat \<Rightarrow> nat \<times> 'g"
  ce_net :: net_sys
  ce_parse :: "'r \<Rightarrow> bytes \<Rightarrow> ('r \<times> bool) option"

text \<open>
  What happens around one attempt: the answers of the registry, the file system and the clock, and the
  read events the client's loop handles before the timeout.
\<close>

record attempt =
  at_http :: http_get
  at_read :: bool
  at_open :: bool
  at_rename :: bool
  at_now :: time
  at_stored :: time
  at_arrivals :: "(nat \<times> bytes) list"

text \<open>
  The constructor; \<open>gen\<close> is the seeded random engine.  The objects of the caller that calls will name are
  arguments.
\<close>

definition RpcChannel_new ::
  "RegistryClient \<Rightarrow> string \<Rightarrow> LoadBalanceType \<Rightarrow> 'g \<Rightarrow> (nat \<Rightarrow> CustomController) \<Rightarrow> (nat \<Rightarrow> 'r)
     \<Rightarrow> ('u, 'g, 'r) RpcChannel" where
  "RpcChannel_new client name lbType gen ctls rsps =
     \<lparr>registryClient = client, serviceName = name, loadBalancer = LoadBalancer_new lbType gen,
      chan_conns = Map.empty, pendingSync = {}, pendingAsync = Map.empty, nextId = 0, promises = Map.empty,
      inbufs = (\<lambda>_. Buffer_new kInitialSize), new_conn = 0, outbox = [], shut = {}, controllers = ctls,
      responses = rsps, closures_run = []\<rparr>"

section \<open>Connections\<close>

datatype conn_result = Conn nat | NoConn | ConnThrew

definition getConnection ::
  "('u, 'g, 'r) client_env \<Rightarrow> string \<Rightarrow> ('u, 'g, 'r) RpcChannel \<Rightarrow> conn_result \<times> ('u, 'g, 'r) RpcChannel" where
  "getConnection env addr ch =
     (case chan_conns ch addr of
        Some conn \<Rightarrow> (Conn conn, ch)
      | None \<Rightarrow>
          if CHR '':'' \<notin> set addr then (NoConn, ch)
          else (let ip = takeWhile (\<lambda>c. c \<noteq> CHR '':'') addr;
                    rest = tl (dropWhile (\<lambda>c. c \<noteq> CHR '':'') addr)
                in case stoi rest of
                     StoiValue n \<Rightarrow>
                       (let sockfd = createNonBlockingConnection (ce_net env) ip (word_of_int n)
                        in if sockfd < 0 then (NoConn, ch)
                           else (let conn = new_conn ch
                                 in (Conn conn,
                                     ch\<lparr>new_conn := Suc conn, chan_conns := (chan_conns ch)(addr \<mapsto> conn),
                                        inbufs := (inbufs ch)(conn := Buffer_new kInitialSize)\<rparr>)))
                   | _ \<Rightarrow> (ConnThrew, ch)))"

definition close :: "('u, 'g, 'r) RpcChannel \<Rightarrow> ('u, 'g, 'r) RpcChannel" where
  "close ch = ch\<lparr>shut := shut ch \<union> Map.ran (chan_conns ch), chan_conns := Map.empty\<rparr>"

text \<open>The destructor.\<close>

definition RpcChannel_destroy :: "('u, 'g, 'r) RpcChannel \<Rightarrow> ('u, 'g, 'r) RpcChannel" where
  "RpcChannel_destroy ch = close ch"

text \<open>Closing leaves the calls pending: those in flight are not told.\<close>

lemma close_keeps_pending:
  "pendingSync (RpcChannel_destroy ch) = pendingSync ch" "pendingAsync (RpcChannel_destroy ch) = pendingAsync ch"
  "promises (RpcChannel_destroy ch) = promises ch" "closures_run (RpcChannel_destroy ch) = closures_run ch"
  by (simp_all add: RpcChannel_destroy_def close_def)

section \<open>Responses\<close>

definition set_controller :: "nat \<Rightarrow> CustomController \<Rightarrow> ('u, 'g, 'r) RpcChannel \<Rightarrow> ('u, 'g, 'r) RpcChannel" where
  "set_controller cid c ch = ch\<lparr>controllers := (controllers ch)(cid := c)\<rparr>"

definition fail_controller :: "nat \<Rightarrow> string \<Rightarrow> ('u, 'g, 'r) RpcChannel \<Rightarrow> ('u, 'g, 'r) RpcChannel" where
  "fail_controller cid reason ch = set_controller cid (SetFailed reason (controllers ch cid)) ch"

text \<open>\<open>onRpcResponse\<close>; the result \<open>None\<close> is a parser that never returns.\<close>

definition onRpcResponse ::
  "('u, 'g, 'r) client_env \<Rightarrow> nat \<Rightarrow> ('u, 'g, 'r) RpcChannel \<Rightarrow> ('u, 'g, 'r) RpcChannel option" where
  "onRpcResponse env conn ch =
     (case tryUnpackWithId (ce_order env) (inbufs ch conn) 0 of (packedData, reqId, b') \<Rightarrow>
       (let ch1 = ch\<lparr>inbufs := (inbufs ch)(conn := b')\<rparr> in
        if packedData = [] then Some ch1
        else (case RpcResponse_ParseFromString (ce_rt env) (RpcResponse_default (ce_rt env)) packedData of
                None \<Rightarrow> None
              | Some (rsp, ok) \<Rightarrow>
                  if \<not> ok then Some ch1
                  else if reqId \<in> pendingSync ch1
                  then Some (ch1\<lparr>promises := (promises ch1)(reqId \<mapsto> RpcResponse_copy (ce_rt env) rsp),
                                 pendingSync := pendingSync ch1 - {reqId}\<rparr>)
                  else (case pendingAsync ch1 reqId of
                          None \<Rightarrow> Some ch1
                        | Some pending \<Rightarrow>
                            (let ch2 = ch1\<lparr>pendingAsync := (pendingAsync ch1)(reqId := None)\<rparr>;
                                 ch3 = (if error_code rsp \<noteq> NO_ERROR
                                        then Some (fail_controller (pa_controller pending) (error_msg rsp) ch2)
                                        else map_option
                                               (\<lambda>(m, _). ch2\<lparr>responses := (responses ch2)(pa_response pending := m)\<rparr>)
                                               (ce_parse env (responses ch2 (pa_response pending)) (result rsp)))
                             in map_option (\<lambda>c. c\<lparr>closures_run := closures_run c @ [pa_done pending]\<rparr>) ch3)))))"

text \<open>A read event that delivers data to a connection of the client.\<close>

definition client_read ::
  "('u, 'g, 'r) client_env \<Rightarrow> nat \<times> bytes \<Rightarrow> ('u, 'g, 'r) RpcChannel \<Rightarrow> ('u, 'g, 'r) RpcChannel option" where
  "client_read env ev ch =
     (case ev of (conn, data) \<Rightarrow>
        onRpcResponse env conn (ch\<lparr>inbufs := (inbufs ch)(conn := fill_input data (inbufs ch conn))\<rparr>))"

fun client_reads ::
  "('u, 'g, 'r) client_env \<Rightarrow> (nat \<times> bytes) list \<Rightarrow> ('u, 'g, 'r) RpcChannel \<Rightarrow> ('u, 'g, 'r) RpcChannel option" where
  "client_reads env [] ch = Some ch"
| "client_reads env (ev # evs) ch = Option.bind (client_read env ev ch) (client_reads env evs)"

definition removePending :: "uint64 \<Rightarrow> ('u, 'g, 'r) RpcChannel \<Rightarrow> ('u, 'g, 'r) RpcChannel" where
  "removePending reqId ch = ch\<lparr>pendingSync := pendingSync ch - {reqId}\<rparr>"

section \<open>Calls\<close>

text \<open>A method descriptor: the full name of its service and its name.\<close>

type_synonym method_desc = "string \<times> string"

definition make_request :: "'u pb_runtime \<Rightarrow> method_desc \<Rightarrow> bytes \<Rightarrow> 'u RpcRequest" where
  "make_request rt m request =
     set_args request (set_method_name (snd m) (set_service_name (fst m) (RpcRequest_default rt)))"

datatype call_result = CallOk | CallFailed | CallThrew | CallDiverged | CallUndefined

definition lookup_and_connect ::
  "('u, 'g, 'r) client_env \<Rightarrow> attempt \<Rightarrow> string \<Rightarrow> string \<Rightarrow> nat \<Rightarrow> ('u, 'g, 'r) RpcChannel
     \<Rightarrow> conn_result \<times> ('u, 'g, 'r) RpcChannel" where
  "lookup_and_connect env att no_servers no_connection cid ch =
     (case getAddresses (ce_json env) (at_http att) (at_read att) (at_open att) (at_rename att) (at_now att) (at_stored att)
             (serviceName ch) (registryClient ch) of
        (Threw, _, rc) \<Rightarrow> (ConnThrew, ch\<lparr>registryClient := rc\<rparr>)
      | (Addresses as, _, rc) \<Rightarrow>
          (let ch1 = ch\<lparr>registryClient := rc\<rparr> in
           if as = [] then (NoConn, fail_controller cid no_servers ch1)
           else (case select (ce_draw env) (loadBalancer ch1) as of
                   (addr, lb) \<Rightarrow>
                     (case getConnection env addr (ch1\<lparr>loadBalancer := lb\<rparr>) of
                        (NoConn, ch2) \<Rightarrow> (NoConn, fail_controller cid no_connection ch2)
                      | r \<Rightarrow> r))))"

text \<open>
  One synchronous attempt.  The response pointer a promise holds is never null, so the code's branch for
  a null pointer is not reached.
\<close>

definition doCall ::
  "('u, 'g, 'r) client_env \<Rightarrow> attempt \<Rightarrow> method_desc \<Rightarrow> nat \<Rightarrow> bytes \<Rightarrow> nat \<Rightarrow> ('u, 'g, 'r) RpcChannel
     \<Rightarrow> call_result \<times> ('u, 'g, 'r) RpcChannel" where
  "doCall env att m cid request rid ch =
     (case lookup_and_connect env att ''no available servers'' ''connection failed'' cid ch of
        (ConnThrew, ch1) \<Rightarrow> (CallThrew, ch1)
      | (NoConn, ch1) \<Rightarrow> (CallFailed, ch1)
      | (Conn conn, ch1) \<Rightarrow>
          (let reqId = nextId ch1;
               packed = packWithId (ce_order env) reqId
                          (RpcRequest_InternalSerialize (ce_rt env) (make_request (ce_rt env) m request));
               ch2 = ch1\<lparr>nextId := nextId ch1 + 1, pendingSync := insert reqId (pendingSync ch1),
                         promises := (promises ch1)(reqId := None), outbox := outbox ch1 @ [(conn, packed)]\<rparr>
           in case client_reads env (at_arrivals att) ch2 of
                None \<Rightarrow> (CallDiverged, ch2)
              | Some ch3 \<Rightarrow>
                  (case promises ch3 reqId of
                     None \<Rightarrow> (CallFailed, fail_controller cid ''request timeout'' (removePending reqId ch3))
                   | Some rsp \<Rightarrow>
                       if error_code rsp \<noteq> NO_ERROR
                       then (CallFailed, fail_controller cid (error_msg rsp) ch3)
                       else (case ce_parse env (responses ch3 rid) (result rsp) of
                               None \<Rightarrow> (CallDiverged, ch3)
                             | Some (r, _) \<Rightarrow> (CallOk, ch3\<lparr>responses := (responses ch3)(rid := r)\<rparr>)))))"

definition doCallAsync ::
  "('u, 'g, 'r) client_env \<Rightarrow> attempt \<Rightarrow> method_desc \<Rightarrow> nat \<Rightarrow> bytes \<Rightarrow> nat \<Rightarrow> nat \<Rightarrow> ('u, 'g, 'r) RpcChannel
     \<Rightarrow> call_result \<times> ('u, 'g, 'r) RpcChannel" where
  "doCallAsync env att m cid request rid done ch =
     (case lookup_and_connect env att ''no servers'' ''connect failed'' cid ch of
        (ConnThrew, ch1) \<Rightarrow> (CallThrew, ch1)
      | (NoConn, ch1) \<Rightarrow> (CallFailed, ch1\<lparr>closures_run := closures_run ch1 @ [done]\<rparr>)
      | (Conn conn, ch1) \<Rightarrow>
          (let reqId = nextId ch1;
               packed = packWithId (ce_order env) reqId
                          (RpcRequest_InternalSerialize (ce_rt env) (make_request (ce_rt env) m request))
           in (CallOk,
               ch1\<lparr>nextId := nextId ch1 + 1,
                   pendingAsync := (pendingAsync ch1)
                     (reqId \<mapsto> \<lparr>pa_response = rid, pa_done = done, pa_controller = cid\<rparr>),
                   outbox := outbox ch1 @ [(conn, packed)]\<rparr>)))"

text \<open>
  The retry loop from attempt \<open>i\<close>; the result carries the number of attempts made.  \<open>++i\<close> on the largest
  \<open>int\<close> is undefined.
\<close>

function call_loop ::
  "('u, 'g, 'r) client_env \<Rightarrow> (int \<Rightarrow> attempt) \<Rightarrow> method_desc \<Rightarrow> nat \<Rightarrow> bytes \<Rightarrow> nat \<Rightarrow> int \<Rightarrow> bool \<Rightarrow> int \<Rightarrow> nat
     \<Rightarrow> ('u, 'g, 'r) RpcChannel \<Rightarrow> call_result \<times> nat \<times> ('u, 'g, 'r) RpcChannel" where
  "call_loop env atts m cid request rid retries idem i n ch =
     (if i \<le> retries \<and> \<not> (i > 0 \<and> \<not> idem)
      then (case doCall env (atts i) m cid request rid ch of
              (CallOk, ch1) \<Rightarrow> (CallOk, Suc n, ch1)
            | (CallThrew, ch1) \<Rightarrow> (CallThrew, Suc n, ch1)
            | (CallDiverged, ch1) \<Rightarrow> (CallDiverged, Suc n, ch1)
            | (CallUndefined, ch1) \<Rightarrow> (CallUndefined, Suc n, ch1)
            | (CallFailed, ch1) \<Rightarrow>
                (let ch2 = set_controller cid (Reset (controllers ch1 cid)) ch1
                 in if i = 2 ^ 31 - 1 then (CallUndefined, Suc n, ch2)
                    else call_loop env atts m cid request rid retries idem (i + 1) (Suc n) ch2))
      else (CallFailed, n, fail_controller cid ''all retries exhausted'' ch))"
  by pat_completeness auto
termination
  by (relation "measure (\<lambda>(env, atts, m, cid, request, rid, retries, idem, i, n, ch). nat (retries + 1 - i))") auto

declare call_loop.simps [simp del]

text \<open>
  \<open>CallMethod\<close>: \<open>custom\<close> says whether the controller is a \<open>CustomController\<close>; \<open>done\<close> is the closure, if any.
\<close>

definition CallMethod_client ::
  "('u, 'g, 'r) client_env \<Rightarrow> (int \<Rightarrow> attempt) \<Rightarrow> bool \<Rightarrow> method_desc \<Rightarrow> nat \<Rightarrow> bytes \<Rightarrow> nat \<Rightarrow> nat option
     \<Rightarrow> ('u, 'g, 'r) RpcChannel \<Rightarrow> call_result \<times> nat \<times> ('u, 'g, 'r) RpcChannel" where
  "CallMethod_client env atts custom m cid request rid done ch =
     (if \<not> custom
      then (let ch1 = fail_controller cid ''controller must be CustomController'' ch
            in (CallFailed, 0, case done of None \<Rightarrow> ch1 | Some d \<Rightarrow> ch1\<lparr>closures_run := closures_run ch1 @ [d]\<rparr>))
      else case done of
             Some d \<Rightarrow> (case doCallAsync env (atts 0) m cid request rid d ch of (r, ch1) \<Rightarrow> (r, 1, ch1))
           | None \<Rightarrow> call_loop env atts m cid request rid (maxRetries (controllers ch cid))
                       (idempotent (controllers ch cid)) 0 0 ch)"

section \<open>Matching responses to calls\<close>

definition response_frame :: "byte_order \<Rightarrow> 'u pb_runtime \<Rightarrow> uint64 \<Rightarrow> 'u RpcResponse \<Rightarrow> bytes" where
  "response_frame e rt reqId rsp = packWithId e reqId (RpcResponse_InternalSerialize rt rsp)"

definition proper_response :: "'u pb_runtime \<Rightarrow> 'u RpcResponse \<Rightarrow> bool" where
  "proper_response rt rsp \<longleftrightarrow> RpcResponse_wf rt rsp \<and> fits (RpcResponse_InternalSerialize rt rsp)
     \<and> RpcResponse_InternalSerialize rt rsp \<noteq> []"

definition idle_input :: "('u, 'g, 'r) RpcChannel \<Rightarrow> nat \<Rightarrow> bool" where
  "idle_input ch conn \<longleftrightarrow> buf_inv (inbufs ch conn) \<and> contents (inbufs ch conn) = []"

context pb_runtime_ok
begin

lemma response_copied: "RpcResponse_copy rt m = m"
  by (cases m) (simp add: RpcResponse_copy_def RpcResponse_default_def merge_default Let_def)

end

lemma fill_input_spec:
  "buf_inv b \<Longrightarrow> buf_inv (fill_input xs b) \<and> contents (fill_input xs b) = contents b @ xs"
  using srv.inv_fill srv.abs_fill by blast

text \<open>The state after a response was matched to a pending synchronous call.\<close>

definition resolve :: "nat \<Rightarrow> buffer \<Rightarrow> uint64 \<Rightarrow> 'u RpcResponse \<Rightarrow> ('u, 'g, 'r) RpcChannel \<Rightarrow> ('u, 'g, 'r) RpcChannel" where
  "resolve conn b reqId rsp ch = ch\<lparr>inbufs := (inbufs ch)(conn := b),
     promises := (promises ch)(reqId \<mapsto> rsp), pendingSync := pendingSync ch - {reqId}\<rparr>"

lemma resolve_fields [simp]:
  "inbufs (resolve conn b reqId rsp ch) = (inbufs ch)(conn := b)"
  "promises (resolve conn b reqId rsp ch) = (promises ch)(reqId \<mapsto> rsp)"
  "pendingSync (resolve conn b reqId rsp ch) = pendingSync ch - {reqId}"
  "responses (resolve conn b reqId rsp ch) = responses ch"
  "controllers (resolve conn b reqId rsp ch) = controllers ch"
  "nextId (resolve conn b reqId rsp ch) = nextId ch"
  "outbox (resolve conn b reqId rsp ch) = outbox ch"
  by (simp_all add: resolve_def)

text \<open>The first frame in the buffer of a connection, with a pending synchronous call.\<close>

lemma response_resolves:
  assumes rt: "pb_runtime_ok (ce_rt env)" and inv: "buf_inv (inbufs ch conn)"
    and front: "contents (inbufs ch conn) = response_frame e' (ce_rt env) reqId rsp @ rest"
    and rsp: "proper_response (ce_rt env) rsp" and pending: "reqId \<in> pendingSync ch"
  shows "\<exists>b'. onRpcResponse env conn ch = Some (resolve conn b' reqId rsp ch)
      \<and> buf_inv b' \<and> contents b' = rest"
proof -
  let ?d = "RpcResponse_InternalSerialize (ce_rt env) rsp"
  have d: "fits ?d" "?d \<noteq> []" "RpcResponse_wf (ce_rt env) rsp"
    using rsp by (simp_all add: proper_response_def)
  obtain b' where "tryUnpackWithId (ce_order env) (inbufs ch conn) 0 = (?d, reqId, b')" "buf_inv b'" "contents b' = rest"
    using rc.unpack_frame [OF inv d(1), of e' reqId rest "ce_order env"] front by (auto simp: response_frame_def)
  moreover from this(1) have "onRpcResponse env conn ch = Some (resolve conn b' reqId rsp ch)"
    using d(2) pending pb_runtime_ok.response_reads_back [OF rt d(3)] pb_runtime_ok.response_copied [OF rt]
    by (simp add: onRpcResponse_def resolve_def Let_def)
  ultimately show ?thesis by blast
qed

lemma read_resolves:
  assumes "pb_runtime_ok (ce_rt env)" and "idle_input ch conn"
    and "proper_response (ce_rt env) rsp" and "reqId \<in> pendingSync ch"
  shows "\<exists>b'. client_read env (conn, response_frame e' (ce_rt env) reqId rsp @ rest) ch
        = Some (resolve conn b' reqId rsp ch)
      \<and> buf_inv b' \<and> contents b' = rest"
proof -
  let ?data = "response_frame e' (ce_rt env) reqId rsp @ rest"
  let ?ch = "ch\<lparr>inbufs := (inbufs ch)(conn := fill_input ?data (inbufs ch conn))\<rparr>"
  have "buf_inv (inbufs ?ch conn)" "contents (inbufs ?ch conn) = ?data"
    using assms(2) fill_input_spec by (simp_all add: idle_input_def)
  from response_resolves [OF assms(1) this assms(3)] assms(4) show ?thesis
    by (auto simp: client_read_def resolve_def)
qed

lemma reads_resolve:
  assumes "pb_runtime_ok (ce_rt env)" and "\<forall>(conn, reqId, rsp) \<in> set evs. idle_input ch conn
      \<and> proper_response (ce_rt env) rsp \<and> reqId \<in> pendingSync ch"
    and "distinct (map (fst \<circ> snd) evs)"
  shows "\<exists>ch'. client_reads env (map (\<lambda>(conn, reqId, rsp). (conn, response_frame e' (ce_rt env) reqId rsp)) evs) ch = Some ch'
      \<and> (\<forall>x. promises ch' x = (case map_of (map snd evs) x of None \<Rightarrow> promises ch x | Some r \<Rightarrow> Some r))
      \<and> pendingSync ch' = pendingSync ch - (fst \<circ> snd) ` set evs
      \<and> responses ch' = responses ch \<and> controllers ch' = controllers ch"
  using assms(2,3)
proof (induction evs arbitrary: ch)
  case Nil
  then show ?case by simp
next
  case (Cons ev evs)
  obtain conn reqId rsp where ev: "ev = (conn, reqId, rsp)" by (cases ev)
  obtain b' where b': "buf_inv b'" "contents b' = []"
      "client_read env (conn, response_frame e' (ce_rt env) reqId rsp) ch
        = Some (resolve conn b' reqId rsp ch)"
    using read_resolves [OF assms(1), of ch conn rsp reqId e' "[]"] Cons.prems(1) ev by auto
  let ?ch = "resolve conn b' reqId rsp ch"
  have new: "reqId \<notin> (fst \<circ> snd) ` set evs" using Cons.prems(2) ev by auto
  then have none: "map_of (map snd evs) reqId = None"
    by (force simp: map_of_eq_None_iff)
  have "\<forall>(conn, reqId, rsp) \<in> set evs. idle_input ?ch conn
      \<and> proper_response (ce_rt env) rsp \<and> reqId \<in> pendingSync ?ch"
    using Cons.prems(1) b'(1,2) new by (force simp: idle_input_def)
  from Cons.IH [OF this] Cons.prems(2) obtain ch' where
    "client_reads env (map (\<lambda>(conn, reqId, rsp). (conn, response_frame e' (ce_rt env) reqId rsp)) evs) ?ch = Some ch'"
    "\<forall>x. promises ch' x = (case map_of (map snd evs) x of None \<Rightarrow> promises ?ch x | Some r \<Rightarrow> Some r)"
    "pendingSync ch' = pendingSync ?ch - (fst \<circ> snd) ` set evs"
    "responses ch' = responses ?ch" "controllers ch' = controllers ?ch" by auto
  with b'(3) ev none show ?case
    by (intro exI [of _ ch']) (auto split: option.splits)
qed

section \<open>One attempt\<close>

lemma doCall_sent:
  assumes "lookup_and_connect env att ''no available servers'' ''connection failed'' cid ch = (Conn conn, ch1)"
    and "client_reads env (at_arrivals att)
       (ch1\<lparr>nextId := nextId ch1 + 1, pendingSync := insert (nextId ch1) (pendingSync ch1),
            promises := (promises ch1)(nextId ch1 := None),
            outbox := outbox ch1 @ [(conn, request_frame (ce_order env) (ce_rt env)
              (nextId ch1, make_request (ce_rt env) m request))]\<rparr>) = Some ch3"
  shows "doCall env att m cid request rid ch =
     (case promises ch3 (nextId ch1) of
        None \<Rightarrow> (CallFailed, fail_controller cid ''request timeout'' (removePending (nextId ch1) ch3))
      | Some rsp \<Rightarrow>
          if error_code rsp \<noteq> NO_ERROR then (CallFailed, fail_controller cid (error_msg rsp) ch3)
          else (case ce_parse env (responses ch3 rid) (result rsp) of
                  None \<Rightarrow> (CallDiverged, ch3)
                | Some (r, _) \<Rightarrow> (CallOk, ch3\<lparr>responses := (responses ch3)(rid := r)\<rparr>)))"
  using assms by (simp add: doCall_def Let_def request_frame_def)

lemma answered_attempt:
  assumes "pb_runtime_ok (ce_rt env)"
    and "lookup_and_connect env att ''no available servers'' ''connection failed'' cid ch = (Conn conn, ch1)"
    and "idle_input ch1 conn" and "proper_response (ce_rt env) rsp" and "error_code rsp = NO_ERROR"
    and "at_arrivals att = [(conn, response_frame e' (ce_rt env) (nextId ch1) rsp)]"
    and "ce_parse env (responses ch1 rid) (result rsp) = Some (r, ok)"
  shows "\<exists>ch'. doCall env att m cid request rid ch = (CallOk, ch')
      \<and> responses ch' = (responses ch1)(rid := r)
      \<and> outbox ch' = outbox ch1 @ [(conn, request_frame (ce_order env) (ce_rt env)
                        (nextId ch1, make_request (ce_rt env) m request))]
      \<and> nextId ch' = nextId ch1 + 1 \<and> pendingSync ch' = pendingSync ch1 - {nextId ch1}
      \<and> controllers ch' = controllers ch1"
proof -
  let ?ch2 = "ch1\<lparr>nextId := nextId ch1 + 1, pendingSync := insert (nextId ch1) (pendingSync ch1),
       promises := (promises ch1)(nextId ch1 := None),
       outbox := outbox ch1 @ [(conn, request_frame (ce_order env) (ce_rt env)
         (nextId ch1, make_request (ce_rt env) m request))]\<rparr>"
  have "idle_input ?ch2 conn" "nextId ch1 \<in> pendingSync ?ch2" using assms(3) by (simp_all add: idle_input_def)
  from read_resolves [OF assms(1) this(1) assms(4) this(2), of e' "[]"]
  obtain b' where "client_reads env (at_arrivals att) ?ch2 = Some (resolve conn b' (nextId ch1) rsp ?ch2)"
    using assms(6) by auto
  from doCall_sent [OF assms(2) this, of rid] assms(5,7) show ?thesis by simp
qed

section \<open>Retries\<close>

lemma call_loop_spec:
  "call_loop env atts m cid request rid retries idem i n ch = (r, k, ch') \<Longrightarrow>
   k \<le> n + nat (retries + 1 - i) \<and> (\<not> idem \<and> 0 \<le> i \<longrightarrow> k \<le> (if i = 0 then Suc n else n))
   \<and> (r = CallFailed \<longrightarrow> failed (controllers ch' cid) \<and> errText (controllers ch' cid) = ''all retries exhausted'')"
proof (induction "nat (retries + 1 - i)" arbitrary: i n ch)
  case 0
  then have "\<not> i \<le> retries" by simp
  with 0 show ?case
    by (subst (asm) call_loop.simps) (auto simp: fail_controller_def set_controller_def)
next
  case (Suc d)
  show ?case
  proof (cases "i \<le> retries \<and> \<not> (i > 0 \<and> \<not> idem)")
    case False
    with Suc.prems show ?thesis
      by (subst (asm) call_loop.simps) (auto simp: fail_controller_def set_controller_def)
  next
    case True
    obtain r1 ch1 where d1: "doCall env (atts i) m cid request rid ch = (r1, ch1)" by fastforce
    show ?thesis
    proof (cases "r1 = CallFailed \<and> i \<noteq> 2 ^ 31 - 1")
      case True
      let ?ch = "set_controller cid (Reset (controllers ch1 cid)) ch1"
      have step: "call_loop env atts m cid request rid retries idem (i + 1) (Suc n) ?ch = (r, k, ch')"
        using Suc.prems d1 True \<open>i \<le> retries \<and> \<not> (i > 0 \<and> \<not> idem)\<close>
        by (subst (asm) call_loop.simps) (simp add: Let_def)
      have "d = nat (retries + 1 - (i + 1))" using Suc.hyps(2) by simp
      from Suc.hyps(1) [OF this step] \<open>i \<le> retries \<and> \<not> (i > 0 \<and> \<not> idem)\<close> show ?thesis by auto
    next
      case False
      with Suc.prems d1 \<open>i \<le> retries \<and> \<not> (i > 0 \<and> \<not> idem)\<close> show ?thesis
        by (subst (asm) call_loop.simps) (auto simp: Let_def split: call_result.splits if_splits)
    qed
  qed
qed

section \<open>A client for examples\<close>

definition sample_env :: "(bytes, unit, bytes) client_env" where
  "sample_env = \<lparr>ce_rt = varint_runtime, ce_order = LittleEndian, ce_json = (\<lambda>_. ParseError),
     ce_draw = (\<lambda>g n. (0, g)), ce_net = \<lparr>ns_order = LittleEndian, ns_pton = (\<lambda>_. Some 0), ns_socket = 5, ns_connect = (\<lambda>_ _. (0, 0))\<rparr>, ce_parse = (\<lambda>m bs. Some (bs, True))\<rparr>"

definition sample_channel :: "(bytes, unit, bytes) RpcChannel" where
  "sample_channel =
     \<lparr>registryClient = put_cache ''M'' [''h:1''] 0 (RegistryClient_new Map.empty ''r'' 80 30 2),
      serviceName = ''M'', loadBalancer = LoadBalancer_new ROUND_ROBIN (), chan_conns = [''h:1'' \<mapsto> 4],
      pendingSync = {1, 2}, pendingAsync = Map.empty, nextId = 7, promises = Map.empty,
      inbufs = (\<lambda>_. Buffer_new kInitialSize), new_conn = 5, outbox = [], shut = {},
      controllers = (\<lambda>_. CustomController_new), responses = (\<lambda>_. []), closures_run = []\<rparr>"

definition sample_attempt :: "(nat \<times> bytes) list \<Rightarrow> attempt" where
  "sample_attempt arrivals = \<lparr>at_http = (\<lambda>_ _. None), at_read = True, at_open = True, at_rename = True, at_now = 0,
     at_stored = 0, at_arrivals = arrivals\<rparr>"

definition ok_response :: "bytes \<Rightarrow> bytes RpcResponse" where
  "ok_response bs = set_result bs (set_error_code NO_ERROR (RpcResponse_default varint_runtime))"

lemma ok_response_proper: "bs \<noteq> [] \<Longrightarrow> length bs < 100 \<Longrightarrow> proper_response varint_runtime (ok_response bs)"
  by (simp add: proper_response_def ok_response_def RpcResponse_wf_def RpcResponse_InternalSerialize_def
      RpcResponse_default_def NO_ERROR_def field_len_def fits_def kMaxLen_def varint_runtime_def length_varint_small)

lemma sample_idle [simp]: "idle_input sample_channel conn"
  by (simp add: idle_input_def sample_channel_def)

lemma sample_lookup:
  "lookup_and_connect sample_env (sample_attempt arrivals) s1 s2 cid sample_channel
     = (Conn 4, sample_channel\<lparr>loadBalancer := (LoadBalancer_new ROUND_ROBIN ())\<lparr>lb_index := 1\<rparr>\<rparr>)"
  by (simp add: lookup_and_connect_def sample_channel_def sample_attempt_def sample_env_def getAddresses_def
      put_cache_def RegistryClient_new_def to_seconds_def select_def LoadBalancer_new_def getConnection_def)

section \<open>Properties of the client\<close>

text \<open>
  Responses find their calls in any order.  Several synchronous calls are pending; their
  responses arrive, one per read event, in any order and on any connections.  Afterwards every answered
  call holds exactly its own response and is no longer pending, and every other call is as before.
\<close>

theorem responses_match_calls:
  assumes "pb_runtime_ok (ce_rt env)"
    and "\<forall>(conn, reqId, rsp) \<in> set evs. idle_input ch conn
      \<and> proper_response (ce_rt env) rsp \<and> reqId \<in> pendingSync ch"
    and "distinct (map (fst \<circ> snd) evs)"
  shows "\<exists>ch'. client_reads env (map (\<lambda>(conn, reqId, rsp). (conn, response_frame e' (ce_rt env) reqId rsp)) evs) ch = Some ch'
      \<and> (\<forall>(conn, reqId, rsp) \<in> set evs. promises ch' reqId = Some rsp)
      \<and> (\<forall>x. x \<notin> (fst \<circ> snd) ` set evs \<longrightarrow> promises ch' x = promises ch x)
      \<and> pendingSync ch' = pendingSync ch - (fst \<circ> snd) ` set evs"
proof -
  obtain ch' where ch': "client_reads env (map (\<lambda>(conn, reqId, rsp). (conn, response_frame e' (ce_rt env) reqId rsp)) evs) ch = Some ch'"
      "\<forall>x. promises ch' x = (case map_of (map snd evs) x of None \<Rightarrow> promises ch x | Some r \<Rightarrow> Some r)"
      "pendingSync ch' = pendingSync ch - (fst \<circ> snd) ` set evs"
    using reads_resolve [OF assms, of e'] by blast
  have "map_of (map snd evs) reqId = Some rsp" if "(conn, reqId, rsp) \<in> set evs" for conn reqId rsp
    using that assms(3) by (intro map_of_is_SomeI) (force simp: comp_def)+
  moreover have "map_of (map snd evs) x = None" if "x \<notin> (fst \<circ> snd) ` set evs" for x
    using that by (force simp: map_of_eq_None_iff)
  ultimately show ?thesis using ch' by (intro exI [of _ ch']) auto
qed

lemma responses_match_calls_witness:
  "\<exists>ch'. client_reads sample_env
       [(4, response_frame BigEndian varint_runtime 2 (ok_response ''b'')),
        (4, response_frame BigEndian varint_runtime 1 (ok_response ''a''))] sample_channel = Some ch'
     \<and> promises ch' 1 = Some (ok_response ''a'') \<and> promises ch' 2 = Some (ok_response ''b'')"
  using responses_match_calls [of sample_env
      "[(4, 2, ok_response ''b''), (4, 1, ok_response ''a'')]" sample_channel BigEndian]
    vrt.pb_runtime_ok_axioms ok_response_proper
  by (auto simp: sample_env_def) (auto simp: sample_channel_def)

text \<open>
  An attempt that is answered returns the answer.  If the lookup gives a connection and a
  response without error under the id of this call arrives before the timeout, the call succeeds: it
  has sent exactly one frame, holding the next id and the request, the response object is what its
  parser makes of the result, and the call is no longer pending.
\<close>

theorem answered_call_succeeds:
  assumes "pb_runtime_ok (ce_rt env)"
    and "lookup_and_connect env att ''no available servers'' ''connection failed'' cid ch = (Conn conn, ch1)"
    and "idle_input ch1 conn" and "proper_response (ce_rt env) rsp" and "error_code rsp = NO_ERROR"
    and "at_arrivals att = [(conn, response_frame e' (ce_rt env) (nextId ch1) rsp)]"
    and "ce_parse env (responses ch1 rid) (result rsp) = Some (r, ok)"
  shows "\<exists>ch'. doCall env att m cid request rid ch = (CallOk, ch')
      \<and> responses ch' = (responses ch1)(rid := r)
      \<and> outbox ch' = outbox ch1 @ [(conn, request_frame (ce_order env) (ce_rt env)
                        (nextId ch1, make_request (ce_rt env) m request))]
      \<and> nextId ch' = nextId ch1 + 1 \<and> pendingSync ch' = pendingSync ch1 - {nextId ch1}
      \<and> controllers ch' = controllers ch1"
  using answered_attempt [OF assms] .

lemma answered_call_succeeds_witness:
  "\<exists>ch'. doCall sample_env (sample_attempt [(4, response_frame BigEndian varint_runtime 7 (ok_response ''sum''))])
       (''S'', ''m'') 0 ''arg'' 3 sample_channel = (CallOk, ch') \<and> responses ch' 3 = ''sum''"
proof -
  let ?arr = "[(4, response_frame BigEndian varint_runtime 7 (ok_response ''sum''))]"
  let ?ch1 = "sample_channel\<lparr>loadBalancer := (LoadBalancer_new ROUND_ROBIN ())\<lparr>lb_index := 1\<rparr>\<rparr>"
  have f: "idle_input ?ch1 4" "nextId ?ch1 = 7" "error_code (ok_response ''sum'') = NO_ERROR"
      "result (ok_response ''sum'') = ''sum''" "responses ?ch1 3 = []"
    by (simp_all add: idle_input_def sample_channel_def ok_response_def)
  show ?thesis
    using answered_call_succeeds [OF _ sample_lookup [of ?arr _ _ 0] f(1), of "ok_response ''sum''" BigEndian 3 "''sum''" True
        "(''S'', ''m'')" "''arg''"] vrt.pb_runtime_ok_axioms ok_response_proper [of "''sum''"] f
    by (auto simp: sample_env_def sample_attempt_def)
qed

text \<open>
  Two responses in one read event.  \<open>onRpcResponse\<close> takes one frame per event and has no loop: if
  the network delivers two responses together, the first call is answered, but the second response
  stays in the input buffer and its call stays pending although the response has arrived.
\<close>

theorem coalesced_response_waits:
  assumes "pb_runtime_ok (ce_rt env)" and "idle_input ch conn"
    and "proper_response (ce_rt env) rsp1" and "proper_response (ce_rt env) rsp2"
    and "id1 \<in> pendingSync ch" and "id2 \<in> pendingSync ch" and "id1 \<noteq> id2"
  shows "\<exists>ch'. client_read env (conn, response_frame e' (ce_rt env) id1 rsp1 @ response_frame e' (ce_rt env) id2 rsp2) ch = Some ch'
      \<and> promises ch' id1 = Some rsp1 \<and> promises ch' id2 = promises ch id2 \<and> id2 \<in> pendingSync ch'
      \<and> contents (inbufs ch' conn) = response_frame e' (ce_rt env) id2 rsp2"
  using read_resolves [OF assms(1-3,5), of e' "response_frame e' (ce_rt env) id2 rsp2"] assms(6,7)
  by auto

lemma coalesced_response_waits_witness:
  "\<exists>ch'. client_read sample_env (4, response_frame BigEndian varint_runtime 1 (ok_response ''a'')
        @ response_frame BigEndian varint_runtime 2 (ok_response ''b'')) sample_channel = Some ch'
     \<and> promises ch' 1 = Some (ok_response ''a'') \<and> 2 \<in> pendingSync ch'"
  using coalesced_response_waits [of sample_env sample_channel 4 "ok_response ''a''" "ok_response ''b''" 1 2 BigEndian]
    vrt.pb_runtime_ok_axioms ok_response_proper
  by (auto simp: sample_env_def) (auto simp: sample_channel_def)

text \<open>
  An empty success is lost.  The response to a call whose result serializes to nothing has no
  bytes at all, the client takes the frame for \<open>no message\<close>, and the call that was answered in time ends
  as \<open>request timeout\<close>.
\<close>

theorem empty_response_times_out:
  assumes "pb_runtime_ok (ce_rt env)"
    and "lookup_and_connect env att ''no available servers'' ''connection failed'' cid ch = (Conn conn, ch1)"
    and "idle_input ch1 conn"
    and "at_arrivals att = [(conn, response_frame e' (ce_rt env) (nextId ch1)
           (set_result [] (set_error_code NO_ERROR (RpcResponse_default (ce_rt env)))))]"
  shows "\<exists>ch'. doCall env att m cid request rid ch = (CallFailed, ch')
      \<and> errText (controllers ch' cid) = ''request timeout''"
proof -
  let ?ch2 = "ch1\<lparr>nextId := nextId ch1 + 1, pendingSync := insert (nextId ch1) (pendingSync ch1),
       promises := (promises ch1)(nextId ch1 := None),
       outbox := outbox ch1 @ [(conn, request_frame (ce_order env) (ce_rt env)
         (nextId ch1, make_request (ce_rt env) m request))]\<rparr>"
  let ?f = "packWithId e' (nextId ch1) []"
  have arr: "at_arrivals att = [(conn, ?f)]"
    using assms(4) pb_runtime_ok.no_unknown [OF assms(1)]
    by (simp add: response_frame_def RpcResponse_InternalSerialize_def RpcResponse_default_def NO_ERROR_def)
  let ?b = "fill_input ?f (inbufs ch1 conn)"
  have "buf_inv ?b" "contents ?b = ?f @ []"
    using assms(3) fill_input_spec by (simp_all add: idle_input_def)
  from rc.unpack_frame [OF this(1) rc.ok_empty this(2), of "ce_order env"]
  obtain b' where "tryUnpackWithId (ce_order env) ?b 0 = ([], nextId ch1, b')" by blast
  then obtain ch3 where ch3: "client_reads env (at_arrivals att) ?ch2 = Some ch3" "promises ch3 (nextId ch1) = None"
    by (simp add: arr client_read_def onRpcResponse_def Let_def)
  from doCall_sent [OF assms(2) ch3(1), of rid] ch3(2) show ?thesis
    by (simp add: fail_controller_def set_controller_def)
qed

lemma empty_response_times_out_witness:
  "\<exists>ch'. doCall sample_env (sample_attempt [(4, response_frame BigEndian varint_runtime 7 (ok_response []))])
       (''S'', ''m'') 0 ''arg'' 3 sample_channel = (CallFailed, ch')
     \<and> errText (controllers ch' 0) = ''request timeout''"
proof -
  let ?arr = "[(4, response_frame BigEndian varint_runtime 7 (ok_response []))]"
  let ?ch1 = "sample_channel\<lparr>loadBalancer := (LoadBalancer_new ROUND_ROBIN ())\<lparr>lb_index := 1\<rparr>\<rparr>"
  have "idle_input ?ch1 4" "nextId ?ch1 = 7" by (simp_all add: idle_input_def sample_channel_def)
  then show ?thesis
    using empty_response_times_out [OF _ sample_lookup [of ?arr _ _ 0], of BigEndian "(''S'', ''m'')" "''arg''" 3]
      vrt.pb_runtime_ok_axioms
    by (auto simp: sample_env_def sample_attempt_def ok_response_def)
qed

text \<open>
  C26: retries are bounded, and the reason of a failure is lost.  A synchronous call makes at most
  \<open>maxRetries + 1\<close> attempts, and at most one if the call is not idempotent; if it fails, the controller
  says \<open>all retries exhausted\<close>, whatever error the server or the client reported.
\<close>

theorem retries_bounded:
  assumes "CallMethod_client env atts True m cid request rid None ch = (r, n, ch')"
  shows "n \<le> nat (maxRetries (controllers ch cid) + 1)
    \<and> (\<not> idempotent (controllers ch cid) \<longrightarrow> n \<le> 1)
    \<and> (r = CallFailed \<longrightarrow>
         failed (controllers ch' cid) \<and> errText (controllers ch' cid) = ''all retries exhausted'')"
  using call_loop_spec [of env atts m cid request rid _ _ 0 0 ch r n ch'] assms
  by (auto simp: CallMethod_client_def)

lemma retries_bounded_witness:
  "case CallMethod_client sample_env (\<lambda>_. sample_attempt []) True (''S'', ''m'') 0 ''arg'' 3 None sample_channel of
     (r, n, ch') \<Rightarrow> n \<le> 3 \<and> (r = CallOk \<or> r = CallThrew \<or> r = CallDiverged \<or> r = CallUndefined
        \<or> errText (controllers ch' 0) = ''all retries exhausted'')"
proof -
  obtain r n ch' where e: "CallMethod_client sample_env (\<lambda>_. sample_attempt []) True (''S'', ''m'') 0 ''arg'' 3 None sample_channel
      = (r, n, ch')" by (metis prod_cases3)
  have "maxRetries (controllers sample_channel 0) = 2" by (simp add: sample_channel_def CustomController_new_def)
  with retries_bounded [OF e] e show ?thesis by (cases r) simp_all
qed

text \<open>
  An address that was printed is the address that is dialled.  For conversions of the C library that
  invert each other, a client without a connection to the text \<open>toIpPort\<close> prints for an IP address
  and a port connects to exactly that address and port, and later calls for the text reuse the
  connection.
\<close>

theorem printed_address_dialled:
  assumes "ntop a = ip" and "pton ip = Some a" and "CHR '':'' \<notin> set ip"
    and "addr = toIpPort e ntop (InetAddress_new e pton port ip)" and "chan_conns ch addr = None"
    and "0 \<le> createNonBlockingConnection (ce_net env) ip port"
  shows "addr = ip @ '':'' @ show_nat (unat port)
    \<and> (\<exists>ch'. getConnection env addr ch = (Conn (new_conn ch), ch')
         \<and> getConnection env addr ch' = (Conn (new_conn ch), ch'))"
proof -
  have addr: "addr = ip @ CHR '':'' # show_nat (unat port)"
    using assms(1,2,4) by (simp add: toIpPort_def InetAddress_new_def)
  have "takeWhile (\<lambda>c. c \<noteq> CHR '':'') addr = ip" "dropWhile (\<lambda>c. c \<noteq> CHR '':'') addr = CHR '':'' # show_nat (unat port)"
    using assms(3) by (auto simp: addr takeWhile_append dropWhile_append)
  moreover have "unat port < 2 ^ 31" using unat_bound [of port] by simp
  then have "stoi (show_nat (unat port)) = StoiValue (int (unat port))" by (rule stoi_show)
  moreover have "word_of_int (int (unat port)) = port" by simp
  ultimately show ?thesis
    using assms(5,6) by (auto simp: getConnection_def addr Let_def simp del: of_int_of_nat_eq)
qed

lemma printed_address_dialled_witness:
  "\<exists>ch'. getConnection sample_env ''127.0.0.1:9999'' sample_channel = (Conn 5, ch')"
proof -
  let ?e = LittleEndian and ?ip = "''127.0.0.1''"
  let ?addr = "toIpPort ?e (\<lambda>_. ?ip) (InetAddress_new ?e (\<lambda>_. Some 0) 9999 ?ip)"
  have addr: "?addr = ''127.0.0.1:9999''"
    by (simp add: toIpPort_def InetAddress_new_def show_nat.simps char_of_def bit_0)
  have "0 \<le> createNonBlockingConnection (ce_net sample_env) ?ip 9999"
    by (simp add: createNonBlockingConnection_def sample_env_def)
  with printed_address_dialled [of "\<lambda>_. ?ip" 0 ?ip "\<lambda>_. Some 0" ?addr ?e 9999 sample_channel sample_env] addr
  show ?thesis by (auto simp: sample_channel_def)
qed

end
