(* ===== verification/Rpc_Benchmark.thy ===== *)
theory Rpc_Benchmark
  imports Rpc_Channel Math_Messages
begin

text \<open>
  The load generator \<^verbatim>\<open>benchmark/rpc_benchmark.cpp\<close>: its blocking socket loops, one iteration of a
  worker, the worker, the options and the report.  What the kernel and the clocks answer is an argument.
  The lemmas show that a response of the server is counted however it arrives, that the counters agree
  with the latencies, and what the printed percentiles mean.
\<close>

section \<open>Options\<close>

record Config =
  host :: string
  port :: int
  threads :: int
  connections :: int
  duration :: int
  targetQps :: int
  bench_method :: string

definition Config_default :: Config where
  "Config_default = \<lparr>host = ''127.0.0.1'', port = 9999, threads = 4, connections = 10, duration = 10,
     targetQps = 0, bench_method = ''add''\<rparr>"

text \<open>
  The switch of \<open>parseArgs\<close> over the options \<open>getopt_long\<close> yields; \<open>Inl\<close> is the status the process exits
  with.
\<close>

fun parseArgs :: "(char \<times> string) list \<Rightarrow> Config \<Rightarrow> int + Config" where
  "parseArgs [] cfg = Inr cfg"
| "parseArgs ((opt, optarg) # opts) cfg =
     (if opt = CHR ''H'' then parseArgs opts (cfg\<lparr>host := optarg\<rparr>)
      else if opt = CHR ''p'' then parseArgs opts (cfg\<lparr>port := atoi optarg\<rparr>)
      else if opt = CHR ''t'' then parseArgs opts (cfg\<lparr>threads := atoi optarg\<rparr>)
      else if opt = CHR ''c'' then parseArgs opts (cfg\<lparr>connections := atoi optarg\<rparr>)
      else if opt = CHR ''d'' then parseArgs opts (cfg\<lparr>duration := atoi optarg\<rparr>)
      else if opt = CHR ''q'' then parseArgs opts (cfg\<lparr>targetQps := atoi optarg\<rparr>)
      else if opt = CHR ''m'' then parseArgs opts (cfg\<lparr>bench_method := optarg\<rparr>)
      else if opt = CHR ''h'' then Inl 0
      else Inl 1)"

section \<open>Sockets\<close>

definition createConnection :: "net_sys \<Rightarrow> string \<Rightarrow> int \<Rightarrow> int" where
  "createConnection ns h p =
     (let fd = ns_socket ns in
      if fd < 0 then - 1
      else case ns_pton ns h of
             None \<Rightarrow> - 1
           | Some a \<Rightarrow>
               if fst (ns_connect ns fd \<lparr>sin_family = AF_INET, sin_port = htons (ns_order ns) (word_of_int p),
                                        sin_addr = a\<rparr>) \<noteq> 0
               then - 1 else fd)"

text \<open>
  What a socket has in store for a reader: \<open>poll\<close> times out or reports an error, \<open>recv\<close> fails, or bytes
  arrive; no bytes are the end of the stream.
\<close>

datatype sock_event = PollTimeout | PollHangup | RecvError | Arrives bytes

text \<open>
  \<open>readFully\<close> with the number of bytes still missing.  Bytes of a read that fails later are lost.
\<close>

fun readFully :: "sock_event list \<Rightarrow> nat \<Rightarrow> bytes \<Rightarrow> bytes option \<times> sock_event list" where
  "readFully [] missing got = (if missing = 0 then Some got else None, [])"
| "readFully (ev # evs) missing got =
     (if missing = 0 then (Some got, ev # evs)
      else case ev of
             PollTimeout \<Rightarrow> (None, evs)
           | PollHangup \<Rightarrow> (None, evs)
           | RecvError \<Rightarrow> (None, evs)
           | Arrives bs \<Rightarrow>
               if bs = [] then (None, evs)
               else if length bs \<le> missing then readFully evs (missing - length bs) (got @ bs)
               else (Some (got @ take missing bs), Arrives (drop missing bs) # evs))"

text \<open>\<open>sendAll\<close>: the k-th call of \<open>send\<close> answers \<open>ans k\<close>; the result is whether all was sent, and what was.\<close>

function sendAll :: "(nat \<Rightarrow> int) \<Rightarrow> nat \<Rightarrow> bytes \<Rightarrow> bool \<times> bytes" where
  "sendAll ans k data =
     (if data = [] then (True, [])
      else if ans k \<le> 0 then (False, [])
      else (case sendAll ans (Suc k) (drop (nat (ans k)) data) of
              (ok, sent_bytes) \<Rightarrow> (ok, take (nat (ans k)) data @ sent_bytes)))"
  by pat_completeness auto

termination sendAll
  by (relation "measure (\<lambda>(_, _, data). length data)") auto

declare sendAll.simps [simp del]

section \<open>Workers\<close>

record WorkerStats =
  latencies_us :: "int list"
  total_requests :: uint64
  total_errors :: uint64

definition WorkerStats_new :: WorkerStats where
  "WorkerStats_new = \<lparr>latencies_us = [], total_requests = 0, total_errors = 0\<rparr>"

text \<open>What one iteration observes: the stop flag, the clocks (nanoseconds), \<open>rand\<close>, and \<open>send\<close>.\<close>

record observation =
  obs_stop :: bool
  obs_now :: int
  obs_start :: int
  obs_end :: int
  obs_after :: int
  obs_rand_a :: nat
  obs_rand_b :: nat
  obs_send :: "nat \<Rightarrow> int"

record worker =
  w_stats :: WorkerStats
  w_requestId :: uint64
  w_connIdx :: int32
  w_sockets :: "int \<Rightarrow> sock_event list"
  w_written :: "(int \<times> bytes) list"
  w_sleeps :: "int list"

definition bench_request :: "'u pb_runtime \<Rightarrow> string \<Rightarrow> nat \<Rightarrow> nat \<Rightarrow> 'u RpcRequest" where
  "bench_request rt meth ra rb =
     (let req = set_method_name (if meth = ''sub'' then ''Sub'' else ''Add'')
                  (set_service_name ''math.MathService'' (RpcRequest_default rt))
      in if meth = ''sub''
         then set_args (SubRequest_InternalSerialize rt
                (subq_set_b (word_of_nat (rb mod 1000)) (subq_set_a (word_of_nat (ra mod 1000)) (SubRequest_default rt)))) req
         else set_args (AddRequest_InternalSerialize rt
                (addq_set_b (word_of_nat (rb mod 1000)) (addq_set_a (word_of_nat (ra mod 1000)) (AddRequest_default rt)))) req)"

definition count_error :: "worker \<Rightarrow> worker" where
  "count_error w = w\<lparr>w_stats := (w_stats w)\<lparr>total_errors := total_errors (w_stats w) + 1\<rparr>\<rparr>"

definition count_success :: "int \<Rightarrow> worker \<Rightarrow> worker" where
  "count_success latencyUs w =
     w\<lparr>w_stats := (w_stats w)\<lparr>latencies_us := latencies_us (w_stats w) @ [latencyUs],
                             total_requests := total_requests (w_stats w) + 1\<rparr>\<rparr>"

text \<open>\<open>duration_cast\<close> from nanoseconds to microseconds truncates towards zero.\<close>

definition to_us :: "int \<Rightarrow> int" where
  "to_us ns = (if ns < 0 then - ((- ns) div 1000) else ns div 1000)"

text \<open>The conversions of the benchmark are those of the codec.\<close>

definition bench_htonll :: "byte_order \<Rightarrow> uint64 \<Rightarrow> uint64" where
  "bench_htonll e val =
     (if e = LittleEndian
      then or (push_bit 32 (ucast (htonl e (ucast (and val 0xFFFFFFFF))))) (ucast (htonl e (ucast (drop_bit 32 val))))
      else val)"

definition bench_ntohll :: "byte_order \<Rightarrow> uint64 \<Rightarrow> uint64" where
  "bench_ntohll e val = bench_htonll e val"

lemma bench_order [simp]: "bench_htonll = htonll" "bench_ntohll = ntohll"
  by (simp_all add: fun_eq_iff bench_htonll_def htonll_def bench_ntohll_def ntohll_def)

text \<open>
  The read half of an iteration: the length, the body, the parse.  \<open>None\<close> is a parse that does not return,
  \<open>False\<close> an error.  The id of the response is decoded and not used.
\<close>

definition read_response ::
  "byte_order \<Rightarrow> 'u pb_runtime \<Rightarrow> sock_event list
     \<Rightarrow> ((uint64 \<times> 'u RpcResponse) option \<times> sock_event list) option" where
  "read_response e rt evs =
     (case readFully evs 4 [] of
        (None, evs1) \<Rightarrow> Some (None, evs1)
      | (Some netLen, evs1) \<Rightarrow>
          (let respLen = unat (ntohl e (load32 e netLen)) in
           if respLen < 8 \<or> respLen > 64 * 1024 * 1024 then Some (None, evs1)
           else case readFully evs1 respLen [] of
                  (None, evs2) \<Rightarrow> Some (None, evs2)
                | (Some respBuf, evs2) \<Rightarrow>
                    (let respId = bench_ntohll e (load64 e (take 8 respBuf)) in
                     case RpcResponse_ParseFromString rt (RpcResponse_default rt) (drop 8 respBuf) of
                       None \<Rightarrow> None
                     | Some (resp, ok) \<Rightarrow> Some (if ok then Some (respId, resp) else None, evs2))))"

text \<open>
  One pass of the loop body.  \<open>connIdx % fds.size()\<close> converts the counter to \<open>size_t\<close>, and \<open>connIdx++\<close> on
  the largest \<open>int\<close> is undefined (\<open>None\<close>).  The pause at the
  end is the time \<open>sleep_until\<close> is called with.
\<close>

definition bench_iteration ::
  "byte_order \<Rightarrow> 'u pb_runtime \<Rightarrow> int list \<Rightarrow> string \<Rightarrow> int \<Rightarrow> observation \<Rightarrow> worker \<Rightarrow> worker option" where
  "bench_iteration e rt fds meth intervalUs ob w =
     (if w_connIdx w = 0x7FFFFFFF then None else
      let fd = fds ! (unat (scast (w_connIdx w) :: uint64) mod length fds);
          payload = RpcRequest_InternalSerialize rt (bench_request rt meth (obs_rand_a ob) (obs_rand_b ob));
          frame = packWithId e (w_requestId w) payload;
          (ok, bytes_out) = sendAll (obs_send ob) 0 frame;
          w1 = w\<lparr>w_connIdx := w_connIdx w + 1, w_requestId := w_requestId w + 1,
                 w_written := w_written w @ [(fd, bytes_out)]\<rparr>
      in if \<not> ok then Some (count_error w1)
         else case read_response e rt (w_sockets w1 fd) of
                None \<Rightarrow> None
              | Some (got, evs) \<Rightarrow>
                  (let w2 = w1\<lparr>w_sockets := (w_sockets w1)(fd := evs)\<rparr> in
                   if got = None then Some (count_error w2)
                   else let latencyUs = to_us (obs_end ob - obs_start ob);
                            w3 = count_success latencyUs w2;
                            wake = obs_start ob + intervalUs * 1000
                        in if intervalUs > 0 \<and> wake > obs_after ob
                           then Some (w3\<lparr>w_sleeps := w_sleeps w3 @ [wake]\<rparr>) else Some w3))"

text \<open>The loop over the observations of its passes; it ends at the stop flag or the deadline.\<close>

fun bench_loop ::
  "byte_order \<Rightarrow> 'u pb_runtime \<Rightarrow> int list \<Rightarrow> string \<Rightarrow> int \<Rightarrow> int \<Rightarrow> observation list \<Rightarrow> worker \<Rightarrow> worker option" where
  "bench_loop e rt fds meth intervalUs deadline [] w = Some w"
| "bench_loop e rt fds meth intervalUs deadline (ob # obs) w =
     (if obs_stop ob \<or> obs_now ob \<ge> deadline then Some w
      else case bench_iteration e rt fds meth intervalUs ob w of
             None \<Rightarrow> None
           | Some w' \<Rightarrow> bench_loop e rt fds meth intervalUs deadline obs w')"

text \<open>The surroundings of a worker thread.\<close>

record worker_env =
  we_net :: "nat \<Rightarrow> net_sys"
  we_start :: int
  we_obs :: "observation list"
  we_sockets :: "int \<Rightarrow> sock_event list"

definition workerFunc ::
  "byte_order \<Rightarrow> 'u pb_runtime \<Rightarrow> worker_env \<Rightarrow> Config \<Rightarrow> nat \<Rightarrow> WorkerStats \<Rightarrow> WorkerStats option" where
  "workerFunc e rt we cfg thread st =
     (let fds = filter (\<lambda>fd. 0 \<le> fd)
                  (map (\<lambda>i. createConnection (we_net we i) (host cfg) (port cfg)) [0..<nat (connections cfg)])
      in if fds = [] then Some st
         else let intervalUs = (if targetQps cfg > 0 then 1000000 div targetQps cfg else 0);
                  deadline = we_start we + duration cfg * 1000000000
              in map_option w_stats
                   (bench_loop e rt fds (bench_method cfg) intervalUs deadline (we_obs we)
                     \<lparr>w_stats = st, w_requestId = word_of_nat thread * 1000000, w_connIdx = 0,
                      w_sockets = we_sockets we, w_written = [], w_sleeps = []\<rparr>))"

section \<open>The report\<close>

record latency_summary =
  minLat :: int
  maxLat :: int
  p50 :: int
  p95 :: int
  p99 :: int

record bench_report =
  totalReqs :: uint64
  totalErrors :: uint64
  latency :: "latency_summary option"

definition percentile :: "nat \<Rightarrow> int list \<Rightarrow> int" where
  "percentile k xs = xs ! (length xs * k div 100)"

definition printResults :: "WorkerStats list \<Rightarrow> bench_report" where
  "printResults allStats =
     (let allLatencies = sort (concat (map latencies_us allStats))
      in \<lparr>totalReqs = sum_list (map total_requests allStats),
          totalErrors = sum_list (map total_errors allStats),
          latency = (if allLatencies = [] then None
                     else Some \<lparr>minLat = hd allLatencies, maxLat = last allLatencies,
                                p50 = percentile 50 allLatencies, p95 = percentile 95 allLatencies,
                                p99 = percentile 99 allLatencies\<rparr>)\<rparr>)"

text \<open>
  The threads of \<open>main\<close>: thread \<open>i\<close> fills the i-th element of the vector.  A negative number of threads
  makes the vector's constructor throw.
\<close>

fun run_workers :: "byte_order \<Rightarrow> 'u pb_runtime \<Rightarrow> (nat \<Rightarrow> worker_env) \<Rightarrow> Config \<Rightarrow> nat list \<Rightarrow> WorkerStats list option" where
  "run_workers e rt wes cfg [] = Some []"
| "run_workers e rt wes cfg (i # is) =
     (case workerFunc e rt (wes i) cfg i WorkerStats_new of
        None \<Rightarrow> None
      | Some s \<Rightarrow> map_option (\<lambda>ss. s # ss) (run_workers e rt wes cfg is))"

definition bench_main :: "byte_order \<Rightarrow> 'u pb_runtime \<Rightarrow> (nat \<Rightarrow> worker_env) \<Rightarrow> Config \<Rightarrow> WorkerStats list option" where
  "bench_main e rt wes cfg =
     (if threads cfg < 0 then None else run_workers e rt wes cfg [0..<nat (threads cfg)])"

text \<open>The program: its options, the run, the report; \<open>Inl\<close> is an exit status of \<open>parseArgs\<close>.\<close>

definition bench_program ::
  "byte_order \<Rightarrow> 'u pb_runtime \<Rightarrow> (nat \<Rightarrow> worker_env) \<Rightarrow> (char \<times> string) list \<Rightarrow> int + bench_report option" where
  "bench_program e rt wes opts =
     (case parseArgs opts Config_default of
        Inl code \<Rightarrow> Inl code
      | Inr cfg \<Rightarrow> Inr (map_option printResults (bench_main e rt wes cfg)))"

section \<open>The socket loops\<close>

lemma sendAll_complete: "(\<And>k. 0 < ans k) \<Longrightarrow> sendAll ans k data = (True, data)"
proof (induction ans k data rule: sendAll.induct)
  case (1 ans k data)
  have "\<not> ans k \<le> 0" using 1(2) [of k] by simp
  with 1 show ?case by (subst sendAll.simps) auto
qed

lemma sendAll_prefix: "sendAll ans k data = (ok, out) \<Longrightarrow> (\<exists>rest. data = out @ rest) \<and> (ok \<longleftrightarrow> out = data)"
proof (induction ans k data arbitrary: ok out rule: sendAll.induct)
  case (1 ans k data)
  show ?case
  proof (cases "data = [] \<or> ans k \<le> 0")
    case True
    with 1(2) show ?thesis by (subst (asm) sendAll.simps) (auto split: if_splits)
  next
    case False
    obtain ok' out' where rec: "sendAll ans (Suc k) (drop (nat (ans k)) data) = (ok', out')" by fastforce
    with 1(2) False have "ok = ok'" "out = take (nat (ans k)) data @ out'"
      by (subst (asm) sendAll.simps, simp)+
    with 1(1) [OF _ _ rec] False show ?thesis
      by (metis append.assoc append_take_drop_id same_append_eq)
  qed
qed

lemma readFully_chunks:
  assumes "\<forall>c \<in> set chunks. c \<noteq> []" and "n \<le> length (concat chunks)"
  shows "\<exists>chunks'. readFully (map Arrives chunks @ evs) n got
      = (Some (got @ take n (concat chunks)), map Arrives chunks' @ evs)
    \<and> concat chunks' = drop n (concat chunks) \<and> (\<forall>c \<in> set chunks'. c \<noteq> [])"
  using assms
proof (induction chunks arbitrary: n got)
  case Nil
  then show ?case by (cases evs) (auto intro: exI [of _ "[]"])
next
  case (Cons c cs)
  consider "n = 0" | "0 < n" "length c \<le> n" | "0 < n" "n < length c" by linarith
  then show ?case
  proof cases
    case 1
    with Cons.prems show ?thesis by (intro exI [of _ "c # cs"]) simp
  next
    case 2
    with Cons.prems have "n - length c \<le> length (concat cs)" "\<forall>c \<in> set cs. c \<noteq> []" by auto
    from Cons.IH [OF this(2,1), of "got @ c"] 2 Cons.prems show ?thesis by auto
  next
    case 3
    with Cons.prems show ?thesis by (intro exI [of _ "drop n c # cs"]) simp
  qed
qed

section \<open>Reading a response\<close>

context pb_runtime_ok
begin

lemma read_response_frame:
  assumes chunks: "\<forall>c \<in> set chunks. c \<noteq> []" and bytes: "concat chunks = response_frame e' rt reqId rsp @ rest"
    and rsp: "RpcResponse_wf rt rsp" "fits (RpcResponse_InternalSerialize rt rsp)"
  shows "\<exists>chunks'. read_response e rt (map Arrives chunks @ evs) = Some (Some (reqId, rsp), map Arrives chunks' @ evs)
    \<and> concat chunks' = rest \<and> (\<forall>c \<in> set chunks'. c \<noteq> [])"
proof -
  define d where "d = RpcResponse_InternalSerialize rt rsp"
  have frame: "concat chunks = store32 e' (htonl e' (word_of_nat (8 + length d)))
      @ (store64 e' (htonll e' reqId) @ d) @ rest"
    by (simp add: bytes response_frame_def packWithId_alt d_def)
  have len: "8 + length d \<le> kMaxLen" using rsp(2) by (simp add: fits_def d_def)
  then have "8 + length d < 2 ^ 32" by (simp add: kMaxLen_def)
  then have u: "unat (word_of_nat (8 + length d) :: uint32) = 8 + length d"
    by (simp add: unsigned_of_nat take_bit_eq_mod del: of_nat_add of_nat_numeral)
  obtain cs1 where r1: "readFully (map Arrives chunks @ evs) 4 []
      = (Some (store32 e' (htonl e' (word_of_nat (8 + length d)))), map Arrives cs1 @ evs)"
      "concat cs1 = (store64 e' (htonll e' reqId) @ d) @ rest" "\<forall>c \<in> set cs1. c \<noteq> []"
    using readFully_chunks [OF chunks, of 4 evs "[]"] frame by auto
  obtain cs2 where r2: "readFully (map Arrives cs1 @ evs) (8 + length d) []
      = (Some (store64 e' (htonll e' reqId) @ d), map Arrives cs2 @ evs)"
      "concat cs2 = rest" "\<forall>c \<in> set cs2. c \<noteq> []"
    using readFully_chunks [OF r1(3), of "8 + length d" evs "[]"] r1(2) by auto
  have "\<not> (8 + length d < 8 \<or> 8 + length d > 64 * 1024 * 1024)" using len by (simp add: kMaxLen_def)
  then have "read_response e rt (map Arrives chunks @ evs) = Some (Some (reqId, rsp), map Arrives cs2 @ evs)"
    using response_reads_back [OF rsp(1)] r1(1) r2(1) u
    by (simp add: read_response_def net32_any_host net64_any_host d_def Let_def)
  with r2 show ?thesis by blast
qed

end

section \<open>One iteration\<close>

definition bench_fd :: "int list \<Rightarrow> worker \<Rightarrow> int" where
  "bench_fd fds w = fds ! (unat (scast (w_connIdx w) :: uint64) mod length fds)"

lemma iteration_counted:
  assumes "pb_runtime_ok rt" and "\<And>k. 0 < obs_send ob k"
    and "w_sockets w (bench_fd fds w) = map Arrives chunks @ evs" and "\<forall>c \<in> set chunks. c \<noteq> []"
    and "concat chunks = response_frame e' rt reqId rsp @ rest"
    and "RpcResponse_wf rt rsp" and "fits (RpcResponse_InternalSerialize rt rsp)" and "w_connIdx w \<noteq> 0x7FFFFFFF"
  shows "\<exists>w' chunks'. bench_iteration e rt fds meth intervalUs ob w = Some w'
    \<and> w_written w' = w_written w @ [(bench_fd fds w, request_frame e rt
          (w_requestId w, bench_request rt meth (obs_rand_a ob) (obs_rand_b ob)))]
    \<and> w_stats w' = w_stats (count_success (to_us (obs_end ob - obs_start ob)) w)
    \<and> w_sockets w' (bench_fd fds w) = map Arrives chunks' @ evs \<and> concat chunks' = rest"
proof -
  obtain chunks' where "read_response e rt (w_sockets w (bench_fd fds w)) = Some (Some (reqId, rsp), map Arrives chunks' @ evs)"
      "concat chunks' = rest"
    using pb_runtime_ok.read_response_frame [OF assms(1,4,5,6,7)] assms(3) by metis
  moreover have "sendAll (obs_send ob) 0 data = (True, data)" for data
    by (rule sendAll_complete) (rule assms(2))
  ultimately show ?thesis
    using assms(8) by (auto simp: bench_iteration_def bench_fd_def [symmetric] Let_def count_success_def request_frame_def)
qed

text \<open>Every iteration uses one id and counts one outcome; a success adds one latency.\<close>

definition accounted :: "WorkerStats \<Rightarrow> bool" where
  "accounted s \<longleftrightarrow> total_requests s = word_of_nat (length (latencies_us s))"

definition id_base :: "worker \<Rightarrow> uint64" where
  "id_base w = w_requestId w - total_requests (w_stats w) - total_errors (w_stats w)"

lemma iteration_accounted:
  assumes "bench_iteration e rt fds meth intervalUs ob w = Some w'" and "accounted (w_stats w)"
  shows "accounted (w_stats w') \<and> id_base w' = id_base w"
  using assms
  by (auto simp: bench_iteration_def Let_def accounted_def id_base_def count_error_def count_success_def
      split: prod.splits if_splits option.splits)

lemma loop_accounted:
  "bench_loop e rt fds meth intervalUs deadline obs w = Some w' \<Longrightarrow> accounted (w_stats w) \<Longrightarrow>
   accounted (w_stats w') \<and> id_base w' = id_base w"
proof (induction obs arbitrary: w)
  case Nil
  then show ?case by simp
next
  case (Cons ob obs)
  then show ?case
    using iteration_accounted [of e rt fds meth intervalUs ob w]
    by (fastforce split: if_splits option.splits)
qed

lemma worker_accounted: "workerFunc e rt we cfg i s = Some s' \<Longrightarrow> accounted s \<Longrightarrow> accounted s'"
  using loop_accounted
  by (fastforce simp: workerFunc_def Let_def split: if_splits)

lemma workers_accounted:
  "run_workers e rt wes cfg is = Some ss \<Longrightarrow> length ss = length is \<and> (\<forall>s \<in> set ss. accounted s)"
proof (induction "is" arbitrary: ss)
  case Nil
  then show ?case by simp
next
  case (Cons i "is")
  then obtain s ss' where "workerFunc e rt (wes i) cfg i WorkerStats_new = Some s"
      "run_workers e rt wes cfg is = Some ss'" "ss = s # ss'"
    by (auto split: option.splits)
  moreover have "accounted WorkerStats_new" by (simp add: accounted_def WorkerStats_new_def)
  ultimately show ?case using Cons.IH [of ss'] worker_accounted by auto
qed

lemma total_requests_sum:
  "\<forall>s \<in> set ss. accounted s \<Longrightarrow>
   sum_list (map total_requests ss) = word_of_nat (length (concat (map latencies_us ss)))"
  by (induction ss) (simp_all add: accounted_def)

section \<open>Percentiles\<close>

text \<open>At most k per cent of the values are below \<open>p\<close>, and more than k per cent are at most \<open>p\<close>.\<close>

definition is_percentile :: "nat \<Rightarrow> int \<Rightarrow> int list \<Rightarrow> bool" where
  "is_percentile k p xs \<longleftrightarrow> p \<in> set xs \<and> 100 * length (filter (\<lambda>x. x < p) xs) \<le> k * length xs
     \<and> k * length xs < 100 * length (filter (\<lambda>x. x \<le> p) xs)"

lemma percentile_index: "xs \<noteq> [] \<Longrightarrow> k < 100 \<Longrightarrow> length xs * k div 100 < length xs"
  by (simp add: less_mult_imp_div_less)

lemma percentile_sorted:
  assumes "sorted xs" and "xs \<noteq> []" and "k < 100"
  shows "is_percentile k (percentile k xs) xs"
proof -
  define i where "i = length xs * k div 100"
  have i: "i < length xs" using percentile_index [OF assms(2,3)] by (simp add: i_def)
  have "{j. j < length xs \<and> xs ! j < xs ! i} \<subseteq> {..<i}"
    using sorted_nth_mono [OF assms(1)] by (auto simp: not_less [symmetric])
  then have "card {j. j < length xs \<and> xs ! j < xs ! i} \<le> i" using card_mono [of "{..<i}"] by fastforce
  moreover have "{..i} \<subseteq> {j. j < length xs \<and> xs ! j \<le> xs ! i}"
    using sorted_nth_mono [OF assms(1)] i by auto
  then have "Suc i \<le> card {j. j < length xs \<and> xs ! j \<le> xs ! i}"
    using card_mono [of "{j. j < length xs \<and> xs ! j \<le> xs ! i}" "{..i}"] by simp
  moreover have "100 * i \<le> k * length xs" "k * length xs < 100 * Suc i"
    unfolding i_def by (simp_all add: mult.commute [of k] dividend_less_times_div div_times_less_eq_dividend)
  ultimately show ?thesis
    using i by (simp add: is_percentile_def percentile_def i_def [symmetric] length_filter_conv_card)
qed

lemma percentile_sort: "is_percentile k p (sort xs) = is_percentile k p xs"
  by (simp add: is_percentile_def filter_sort)

lemma percentile_mono: "sorted xs \<Longrightarrow> xs \<noteq> [] \<Longrightarrow> k \<le> l \<Longrightarrow> l < 100 \<Longrightarrow> percentile k xs \<le> percentile l xs"
  unfolding percentile_def by (rule sorted_nth_mono) (auto intro: div_le_mono percentile_index)

lemma sorted_hd_last:
  assumes "sorted xs" and "xs \<noteq> []"
  shows "hd xs = Min (set xs)" "last xs = Max (set xs)"
proof -
  have "hd xs \<le> x \<and> x \<le> last xs" if "x \<in> set xs" for x
    using that sorted_nth_mono [OF assms(1)] assms(2)
    by (auto simp: in_set_conv_nth hd_conv_nth last_conv_nth)
  then show "hd xs = Min (set xs)" "last xs = Max (set xs)"
    using assms(2) by (auto intro!: Min_eqI [symmetric] Max_eqI [symmetric])
qed

section \<open>Properties\<close>

text \<open>
  C39: a response is counted however it arrives, and whatever it says.  If the kernel accepts the request
  and a well-formed response frame arrives on the connection of the iteration in arbitrary non-empty
  pieces, the iteration sends one frame with the next id, takes exactly the bytes of the response and
  counts a success with its latency, as long as the connection counter can still be incremented: also if the id of the response is not the one of the request, and
  if the response carries an error.
\<close>

theorem bench_response_counted:
  assumes "pb_runtime_ok rt" and "\<And>k. 0 < obs_send ob k"
    and "w_sockets w (bench_fd fds w) = map Arrives chunks" and "\<forall>c \<in> set chunks. c \<noteq> []"
    and "concat chunks = response_frame e' rt reqId rsp @ rest"
    and "RpcResponse_wf rt rsp" and "fits (RpcResponse_InternalSerialize rt rsp)" and "w_connIdx w \<noteq> 0x7FFFFFFF"
  shows "\<exists>w' chunks'. bench_iteration e rt fds meth intervalUs ob w = Some w'
    \<and> w_written w' = w_written w @ [(bench_fd fds w, request_frame e rt
          (w_requestId w, bench_request rt meth (obs_rand_a ob) (obs_rand_b ob)))]
    \<and> w_sockets w' (bench_fd fds w) = map Arrives chunks' \<and> concat chunks' = rest
    \<and> latencies_us (w_stats w') = latencies_us (w_stats w) @ [to_us (obs_end ob - obs_start ob)]
    \<and> total_requests (w_stats w') = total_requests (w_stats w) + 1
    \<and> total_errors (w_stats w') = total_errors (w_stats w)"
proof -
  have "w_sockets w (bench_fd fds w) = map Arrives chunks @ []" using assms(3) by simp
  from iteration_counted [OF assms(1,2) this assms(4-8), of e meth intervalUs]
  show ?thesis by (fastforce simp: count_success_def)
qed

text \<open>A connection on which an error response to another request is waiting.\<close>

definition stray_response :: "bytes RpcResponse" where
  "stray_response = set_error_code NO_METHOD (RpcResponse_default varint_runtime)"

definition sample_obs :: observation where
  "sample_obs = \<lparr>obs_stop = False, obs_now = 0, obs_start = 1000, obs_end = 251000, obs_after = 252000,
     obs_rand_a = 1234, obs_rand_b = 7, obs_send = (\<lambda>_. 5)\<rparr>"

definition sample_worker :: "bytes \<Rightarrow> worker" where
  "sample_worker bs = \<lparr>w_stats = WorkerStats_new, w_requestId = 0, w_connIdx = 0,
     w_sockets = (\<lambda>_. map Arrives [bs]), w_written = [], w_sleeps = []\<rparr>"

lemma stray_response_ok:
  "RpcResponse_wf varint_runtime stray_response"
  "fits (RpcResponse_InternalSerialize varint_runtime stray_response)"
  by (simp_all add: stray_response_def set_error_code_def RpcResponse_default_def RpcResponse_wf_def field_len_def
      fits_def kMaxLen_def RpcResponse_InternalSerialize_def varint_runtime_def length_varint_small NO_METHOD_def)

lemma response_frame_nonempty [simp]: "response_frame e rt i rsp \<noteq> []"
  by (simp add: response_frame_def packWithId_alt store32_def flip: length_0_conv)

lemma bench_response_counted_witness:
  "\<exists>w'. bench_iteration LittleEndian varint_runtime [5] ''add'' 0 sample_obs
       (sample_worker (response_frame BigEndian varint_runtime 99 stray_response)) = Some w'
     \<and> latencies_us (w_stats w') = [250] \<and> total_requests (w_stats w') = 1 \<and> total_errors (w_stats w') = 0"
proof -
  let ?f = "response_frame BigEndian varint_runtime 99 stray_response"
  have "\<And>k. 0 < obs_send sample_obs k" by (simp add: sample_obs_def)
  moreover have "w_sockets (sample_worker ?f) (bench_fd [5] (sample_worker ?f)) = map Arrives [?f]"
    by (simp add: sample_worker_def)
  moreover have "\<forall>c \<in> set [?f]. c \<noteq> []" "concat [?f] = ?f @ []" by simp_all
  ultimately show ?thesis
    using bench_response_counted [OF vrt.pb_runtime_ok_axioms _ _ _ _ stray_response_ok,
        of sample_obs "sample_worker ?f" "[5]" "[?f]" BigEndian 99 "[]" LittleEndian "''add''" 0]
    by (fastforce simp: sample_worker_def WorkerStats_new_def sample_obs_def to_us_def)
qed

lemma report_of_run:
  assumes "bench_main e rt wes cfg = Some allStats" and "concat (map latencies_us allStats) = xs"
    and "printResults allStats = rep"
  shows "length allStats = nat (threads cfg) \<and> totalReqs rep = word_of_nat (length xs)
    \<and> (xs \<noteq> [] \<longrightarrow> (\<exists>s. latency rep = Some s
         \<and> is_percentile 50 (p50 s) xs \<and> is_percentile 95 (p95 s) xs \<and> is_percentile 99 (p99 s) xs
         \<and> minLat s \<le> p50 s \<and> p50 s \<le> p95 s \<and> p95 s \<le> p99 s \<and> p99 s \<le> maxLat s
         \<and> minLat s = Min (set xs) \<and> maxLat s = Max (set xs)))"
proof -
  have stats: "length allStats = nat (threads cfg)" "\<forall>s \<in> set allStats. accounted s"
    using assms(1) workers_accounted [of e rt wes cfg "[0..<nat (threads cfg)]" allStats]
    by (auto simp: bench_main_def split: if_splits)
  have reqs: "totalReqs rep = word_of_nat (length xs)"
    using total_requests_sum [OF stats(2)] assms(2,3) by (auto simp: printResults_def Let_def)
  have lat: ?thesis if "xs = []" using that stats reqs by simp
  have "\<exists>s. latency rep = Some s
         \<and> is_percentile 50 (p50 s) xs \<and> is_percentile 95 (p95 s) xs \<and> is_percentile 99 (p99 s) xs
         \<and> minLat s \<le> p50 s \<and> p50 s \<le> p95 s \<and> p95 s \<le> p99 s \<and> p99 s \<le> maxLat s
         \<and> minLat s = Min (set xs) \<and> maxLat s = Max (set xs)" if "xs \<noteq> []"
  proof -
    have ys: "sorted (sort xs)" "sort xs \<noteq> []" using that by (simp_all flip: set_empty)
    have "latency rep = Some \<lparr>minLat = hd (sort xs), maxLat = last (sort xs), p50 = percentile 50 (sort xs),
        p95 = percentile 95 (sort xs), p99 = percentile 99 (sort xs)\<rparr>"
      unfolding assms(3) [symmetric] printResults_def Let_def assms(2) using ys(2) by simp
    moreover have "hd (sort xs) = Min (set xs)" "last (sort xs) = Max (set xs)"
      using sorted_hd_last [OF ys] by simp_all
    moreover have "is_percentile k (percentile k (sort xs)) xs" if "k < 100" for k
      using percentile_sorted [OF ys that] by (simp add: percentile_sort)
    moreover have "percentile k (sort xs) \<in> set xs" if "k < 100" for k
      using percentile_index [OF ys(2) that] nth_mem [of _ "sort xs"] by (simp add: percentile_def)
    ultimately show ?thesis
      using percentile_mono [OF ys, of 50 95] percentile_mono [OF ys, of 95 99] by simp
  qed
  with lat stats reqs show ?thesis by blast
qed

text \<open>One thread with one connection, which makes one request.\<close>

definition sample_env_of :: "bytes \<Rightarrow> worker_env" where
  "sample_env_of bs = \<lparr>we_net = (\<lambda>_. ce_net sample_env), we_start = 0, we_obs = [sample_obs],
     we_sockets = (\<lambda>_. map Arrives [bs])\<rparr>"

lemma sample_run:
  "\<exists>s. bench_main LittleEndian varint_runtime
       (\<lambda>_. sample_env_of (response_frame BigEndian varint_runtime 99 stray_response))
       (Config_default\<lparr>threads := 1, connections := 1\<rparr>) = Some [s] \<and> latencies_us s = [250]"
proof -
  let ?f = "response_frame BigEndian varint_runtime 99 stray_response"
  let ?we = "sample_env_of ?f"
  have "\<And>k. 0 < obs_send sample_obs k" by (simp add: sample_obs_def)
  moreover have "w_sockets (sample_worker ?f) (bench_fd [5] (sample_worker ?f)) = map Arrives [?f] @ []"
    by (simp add: sample_worker_def)
  moreover have "\<forall>c \<in> set [?f]. c \<noteq> []" "concat [?f] = ?f @ []" by simp_all
  ultimately obtain w' where w': "bench_iteration LittleEndian varint_runtime [5] ''add'' 0 sample_obs (sample_worker ?f)
      = Some w'" "latencies_us (w_stats w') = [250]"
    using iteration_counted [OF vrt.pb_runtime_ok_axioms _ _ _ _ stray_response_ok,
        of sample_obs "sample_worker ?f" "[5]" "[?f]" "[]" BigEndian 99 "[]" LittleEndian "''add''" 0]
    by (fastforce simp: sample_worker_def WorkerStats_new_def sample_obs_def to_us_def count_success_def)
  have "createConnection (ce_net sample_env) h p = 5" for h p
    by (simp add: createConnection_def sample_env_def)
  then have "workerFunc LittleEndian varint_runtime ?we (Config_default\<lparr>threads := 1, connections := 1\<rparr>) 0 WorkerStats_new
      = Some (w_stats w')"
    using w'(1) by (simp add: workerFunc_def Config_default_def sample_env_of_def sample_worker_def)
      (simp add: sample_obs_def)
  with w' show ?thesis by (simp add: bench_main_def)
qed

text \<open>
  C40: the report is about the requests made.  For all options with which the program runs to its end there is one
  result per thread, the printed number of requests is the number of latencies, and the printed latencies bound all
  of them, are ordered, and are percentiles: at most 50, 95 and 99 per cent of all latencies are below
  \<open>p50\<close>, \<open>p95\<close> and \<open>p99\<close>, and more than that are not above.
\<close>

theorem bench_report_correct:
  assumes "bench_program e rt wes opts = Inr (Some rep)"
  shows "\<exists>cfg allStats. parseArgs opts Config_default = Inr cfg \<and> bench_main e rt wes cfg = Some allStats
    \<and> length allStats = nat (threads cfg)
    \<and> totalReqs rep = word_of_nat (length (concat (map latencies_us allStats)))
    \<and> (concat (map latencies_us allStats) = [] \<or> (\<exists>s xs. latency rep = Some s \<and> xs = concat (map latencies_us allStats)
         \<and> is_percentile 50 (p50 s) xs \<and> is_percentile 95 (p95 s) xs \<and> is_percentile 99 (p99 s) xs
         \<and> minLat s \<le> p50 s \<and> p50 s \<le> p95 s \<and> p95 s \<le> p99 s \<and> p99 s \<le> maxLat s
         \<and> minLat s = Min (set xs) \<and> maxLat s = Max (set xs)))"
proof -
  obtain cfg allStats where run: "parseArgs opts Config_default = Inr cfg" "bench_main e rt wes cfg = Some allStats"
      "printResults allStats = rep"
    using assms by (auto simp: bench_program_def split: sum.splits)
  with report_of_run [OF run(2) refl run(3)] show ?thesis by blast
qed

lemma bench_report_correct_witness:
  "\<exists>wes rep s. bench_program LittleEndian varint_runtime wes [(CHR ''t'', ''1''), (CHR ''c'', ''1'')] = Inr (Some rep)
     \<and> totalReqs rep = 1 \<and> latency rep = Some s \<and> maxLat s = 250"
proof -
  let ?wes = "\<lambda>_ :: nat. sample_env_of (response_frame BigEndian varint_runtime 99 stray_response)"
  let ?opts = "[(CHR ''t'', ''1''), (CHR ''c'', ''1'')]"
  let ?cfg = "Config_default\<lparr>threads := 1, connections := 1\<rparr>"
  obtain s where s: "bench_main LittleEndian varint_runtime ?wes ?cfg = Some [s]" "latencies_us s = [250]"
    using sample_run by blast
  have "atoi ''1'' = 1" by (simp add: atoi_def scan_int_def is_space_def is_digit_def decimal_def)
  then have cfg: "parseArgs ?opts Config_default = Inr ?cfg" by simp
  with s(1) have run: "bench_program LittleEndian varint_runtime ?wes ?opts = Inr (Some (printResults [s]))"
    by (simp add: bench_program_def)
  from bench_report_correct [OF run] cfg s have "totalReqs (printResults [s]) = 1"
      "\<exists>l. latency (printResults [s]) = Some l \<and> maxLat l = 250"
    by auto
  with run show ?thesis by blast
qed

end
