(* ===== verification/Message_Objects.thy ===== *)
theory Message_Objects
  imports Rpc_Header Math_Messages
begin

text \<open>
  The generated messages as C++ objects (\<^verbatim>\<open>rpc/rpc_header.pb.h\<close>, \<^verbatim>\<open>math_service.pb.h\<close>): copy assignment, move
  assignment, \<open>Swap\<close>, and the accessors that give a string away or lend it for writing.  Arenas enter as
  one flag, whether two objects share one; \<open>same_object\<close> says that the two operands are one object.
  \<open>GenericSwap\<close> of the runtime is an argument.  The locale \<open>message_object\<close> is the contract of a message
  class, interpreted for all six classes.
\<close>

section \<open>Assignment and swapping\<close>

definition RpcRequest_assign :: "'u pb_runtime \<Rightarrow> bool \<Rightarrow> 'u RpcRequest \<Rightarrow> 'u RpcRequest \<Rightarrow> 'u RpcRequest" where
  "RpcRequest_assign rt same_object this from = RpcRequest_CopyFrom rt same_object this from"

definition RpcRequest_Swap ::
  "('u RpcRequest \<Rightarrow> 'u RpcRequest \<Rightarrow> 'u RpcRequest \<times> 'u RpcRequest) \<Rightarrow> bool \<Rightarrow> bool \<Rightarrow> 'u RpcRequest \<Rightarrow> 'u RpcRequest \<Rightarrow> 'u RpcRequest \<times> 'u RpcRequest" where
  "RpcRequest_Swap GenericSwap same_object same_arena this other =
     (if same_object then (this, other)
      else if same_arena then RpcRequest_InternalSwap this other
      else GenericSwap this other)"

definition RpcResponse_assign :: "'u pb_runtime \<Rightarrow> bool \<Rightarrow> 'u RpcResponse \<Rightarrow> 'u RpcResponse \<Rightarrow> 'u RpcResponse" where
  "RpcResponse_assign rt same_object this from = RpcResponse_CopyFrom rt same_object this from"

definition RpcResponse_Swap ::
  "('u RpcResponse \<Rightarrow> 'u RpcResponse \<Rightarrow> 'u RpcResponse \<times> 'u RpcResponse) \<Rightarrow> bool \<Rightarrow> bool \<Rightarrow> 'u RpcResponse \<Rightarrow> 'u RpcResponse \<Rightarrow> 'u RpcResponse \<times> 'u RpcResponse" where
  "RpcResponse_Swap GenericSwap same_object same_arena this other =
     (if same_object then (this, other)
      else if same_arena then RpcResponse_InternalSwap this other
      else GenericSwap this other)"

definition AddRequest_assign :: "'u pb_runtime \<Rightarrow> bool \<Rightarrow> 'u AddRequest \<Rightarrow> 'u AddRequest \<Rightarrow> 'u AddRequest" where
  "AddRequest_assign rt same_object this from = AddRequest_CopyFrom rt same_object this from"

definition AddRequest_move_assign ::
  "'u pb_runtime \<Rightarrow> bool \<Rightarrow> bool \<Rightarrow> 'u AddRequest \<Rightarrow> 'u AddRequest \<Rightarrow> 'u AddRequest \<times> 'u AddRequest" where
  "AddRequest_move_assign rt same_object same_arena this from =
     (if same_object then (this, from)
      else if same_arena then AddRequest_InternalSwap this from
      else (AddRequest_CopyFrom rt False this from, from))"

definition AddRequest_Swap ::
  "('u AddRequest \<Rightarrow> 'u AddRequest \<Rightarrow> 'u AddRequest \<times> 'u AddRequest) \<Rightarrow> bool \<Rightarrow> bool \<Rightarrow> 'u AddRequest \<Rightarrow> 'u AddRequest \<Rightarrow> 'u AddRequest \<times> 'u AddRequest" where
  "AddRequest_Swap GenericSwap same_object same_arena this other =
     (if same_object then (this, other)
      else if same_arena then AddRequest_InternalSwap this other
      else GenericSwap this other)"

definition AddResponse_assign :: "'u pb_runtime \<Rightarrow> bool \<Rightarrow> 'u AddResponse \<Rightarrow> 'u AddResponse \<Rightarrow> 'u AddResponse" where
  "AddResponse_assign rt same_object this from = AddResponse_CopyFrom rt same_object this from"

definition AddResponse_move_assign ::
  "'u pb_runtime \<Rightarrow> bool \<Rightarrow> bool \<Rightarrow> 'u AddResponse \<Rightarrow> 'u AddResponse \<Rightarrow> 'u AddResponse \<times> 'u AddResponse" where
  "AddResponse_move_assign rt same_object same_arena this from =
     (if same_object then (this, from)
      else if same_arena then AddResponse_InternalSwap this from
      else (AddResponse_CopyFrom rt False this from, from))"

definition AddResponse_Swap ::
  "('u AddResponse \<Rightarrow> 'u AddResponse \<Rightarrow> 'u AddResponse \<times> 'u AddResponse) \<Rightarrow> bool \<Rightarrow> bool \<Rightarrow> 'u AddResponse \<Rightarrow> 'u AddResponse \<Rightarrow> 'u AddResponse \<times> 'u AddResponse" where
  "AddResponse_Swap GenericSwap same_object same_arena this other =
     (if same_object then (this, other)
      else if same_arena then AddResponse_InternalSwap this other
      else GenericSwap this other)"

definition SubRequest_assign :: "'u pb_runtime \<Rightarrow> bool \<Rightarrow> 'u SubRequest \<Rightarrow> 'u SubRequest \<Rightarrow> 'u SubRequest" where
  "SubRequest_assign rt same_object this from = SubRequest_CopyFrom rt same_object this from"

definition SubRequest_move_assign ::
  "'u pb_runtime \<Rightarrow> bool \<Rightarrow> bool \<Rightarrow> 'u SubRequest \<Rightarrow> 'u SubRequest \<Rightarrow> 'u SubRequest \<times> 'u SubRequest" where
  "SubRequest_move_assign rt same_object same_arena this from =
     (if same_object then (this, from)
      else if same_arena then SubRequest_InternalSwap this from
      else (SubRequest_CopyFrom rt False this from, from))"

definition SubRequest_Swap ::
  "('u SubRequest \<Rightarrow> 'u SubRequest \<Rightarrow> 'u SubRequest \<times> 'u SubRequest) \<Rightarrow> bool \<Rightarrow> bool \<Rightarrow> 'u SubRequest \<Rightarrow> 'u SubRequest \<Rightarrow> 'u SubRequest \<times> 'u SubRequest" where
  "SubRequest_Swap GenericSwap same_object same_arena this other =
     (if same_object then (this, other)
      else if same_arena then SubRequest_InternalSwap this other
      else GenericSwap this other)"

definition SubResponse_assign :: "'u pb_runtime \<Rightarrow> bool \<Rightarrow> 'u SubResponse \<Rightarrow> 'u SubResponse \<Rightarrow> 'u SubResponse" where
  "SubResponse_assign rt same_object this from = SubResponse_CopyFrom rt same_object this from"

definition SubResponse_move_assign ::
  "'u pb_runtime \<Rightarrow> bool \<Rightarrow> bool \<Rightarrow> 'u SubResponse \<Rightarrow> 'u SubResponse \<Rightarrow> 'u SubResponse \<times> 'u SubResponse" where
  "SubResponse_move_assign rt same_object same_arena this from =
     (if same_object then (this, from)
      else if same_arena then SubResponse_InternalSwap this from
      else (SubResponse_CopyFrom rt False this from, from))"

definition SubResponse_Swap ::
  "('u SubResponse \<Rightarrow> 'u SubResponse \<Rightarrow> 'u SubResponse \<times> 'u SubResponse) \<Rightarrow> bool \<Rightarrow> bool \<Rightarrow> 'u SubResponse \<Rightarrow> 'u SubResponse \<Rightarrow> 'u SubResponse \<times> 'u SubResponse" where
  "SubResponse_Swap GenericSwap same_object same_arena this other =
     (if same_object then (this, other)
      else if same_arena then SubResponse_InternalSwap this other
      else GenericSwap this other)"

section \<open>Strings given away and lent\<close>

text \<open>
  \<open>release_\<close> hands the string to the caller and leaves the default; \<open>mutable_\<close> lends a pointer, here as what
  the caller does with the string.
\<close>

definition release_service_name :: "'u RpcRequest \<Rightarrow> bytes \<times> 'u RpcRequest" where
  "release_service_name m = (service_name m, m\<lparr>service_name := []\<rparr>)"

definition mutable_service_name :: "(bytes \<Rightarrow> bytes) \<Rightarrow> 'u RpcRequest \<Rightarrow> 'u RpcRequest" where
  "mutable_service_name change m = m\<lparr>service_name := change (service_name m)\<rparr>"

definition release_method_name :: "'u RpcRequest \<Rightarrow> bytes \<times> 'u RpcRequest" where
  "release_method_name m = (method_name m, m\<lparr>method_name := []\<rparr>)"

definition mutable_method_name :: "(bytes \<Rightarrow> bytes) \<Rightarrow> 'u RpcRequest \<Rightarrow> 'u RpcRequest" where
  "mutable_method_name change m = m\<lparr>method_name := change (method_name m)\<rparr>"

definition release_args :: "'u RpcRequest \<Rightarrow> bytes \<times> 'u RpcRequest" where
  "release_args m = (args m, m\<lparr>args := []\<rparr>)"

definition mutable_args :: "(bytes \<Rightarrow> bytes) \<Rightarrow> 'u RpcRequest \<Rightarrow> 'u RpcRequest" where
  "mutable_args change m = m\<lparr>args := change (args m)\<rparr>"

definition release_error_msg :: "'u RpcResponse \<Rightarrow> bytes \<times> 'u RpcResponse" where
  "release_error_msg m = (error_msg m, m\<lparr>error_msg := []\<rparr>)"

definition mutable_error_msg :: "(bytes \<Rightarrow> bytes) \<Rightarrow> 'u RpcResponse \<Rightarrow> 'u RpcResponse" where
  "mutable_error_msg change m = m\<lparr>error_msg := change (error_msg m)\<rparr>"

definition release_result :: "'u RpcResponse \<Rightarrow> bytes \<times> 'u RpcResponse" where
  "release_result m = (result m, m\<lparr>result := []\<rparr>)"

definition mutable_result :: "(bytes \<Rightarrow> bytes) \<Rightarrow> 'u RpcResponse \<Rightarrow> 'u RpcResponse" where
  "mutable_result change m = m\<lparr>result := change (result m)\<rparr>"

lemma release_then_own:
  "release_service_name m = (s, m') \<Longrightarrow> set_allocated_service_name (Some s) m' = m"
  "release_method_name m = (s, m') \<Longrightarrow> set_allocated_method_name (Some s) m' = m"
  "release_args m = (s, m') \<Longrightarrow> set_allocated_args (Some s) m' = m"
  "release_error_msg r = (s, r') \<Longrightarrow> set_allocated_error_msg (Some s) r' = r"
  "release_result r = (s, r') \<Longrightarrow> set_allocated_result (Some s) r' = r"
  by (auto simp: release_service_name_def release_method_name_def release_args_def release_error_msg_def
      release_result_def set_allocated_service_name_def set_allocated_method_name_def set_allocated_args_def
      set_allocated_error_msg_def set_allocated_result_def)

section \<open>The contract of a message class\<close>

text \<open>What a client of the class relies on: after an assignment or a move the target holds the source's
  value, and a swap exchanges the values, also when an object meets itself.\<close>

definition transfers ::
  "('m \<Rightarrow> bool) \<Rightarrow> (bool \<Rightarrow> 'm \<Rightarrow> 'm \<Rightarrow> 'm) \<Rightarrow> (bool \<Rightarrow> bool \<Rightarrow> 'm \<Rightarrow> 'm \<Rightarrow> 'm \<times> 'm)
   \<Rightarrow> (('m \<Rightarrow> 'm \<Rightarrow> 'm \<times> 'm) \<Rightarrow> bool \<Rightarrow> bool \<Rightarrow> 'm \<Rightarrow> 'm \<Rightarrow> 'm \<times> 'm) \<Rightarrow> bool" where
  "transfers ok assign move swap \<longleftrightarrow>
     (\<forall>GenericSwap same_object same_arena a b.
        (\<forall>x y. GenericSwap x y = (y, x)) \<longrightarrow> ok a \<longrightarrow> ok b \<longrightarrow> (same_object \<longrightarrow> a = b) \<longrightarrow>
        assign same_object a b = b \<and> fst (move same_object same_arena a b) = b
        \<and> swap GenericSwap same_object same_arena a b = (b, a))"

lemma transfersD:
  "transfers ok assign move swap \<Longrightarrow> (\<And>x y. g x y = (y, x)) \<Longrightarrow> ok a \<Longrightarrow> ok b \<Longrightarrow> (s \<Longrightarrow> a = b) \<Longrightarrow>
   assign s a b = b \<and> fst (move s r a b) = b \<and> swap g s r a b = (b, a)"
  unfolding transfers_def by blast

locale message_object =
  fixes ok :: "'m \<Rightarrow> bool" and copy :: "bool \<Rightarrow> 'm \<Rightarrow> 'm \<Rightarrow> 'm" and iswap :: "'m \<Rightarrow> 'm \<Rightarrow> 'm \<times> 'm"
    and move :: "bool \<Rightarrow> bool \<Rightarrow> 'm \<Rightarrow> 'm \<Rightarrow> 'm \<times> 'm"
    and swap :: "('m \<Rightarrow> 'm \<Rightarrow> 'm \<times> 'm) \<Rightarrow> bool \<Rightarrow> bool \<Rightarrow> 'm \<Rightarrow> 'm \<Rightarrow> 'm \<times> 'm"
  assumes copied: "ok a \<Longrightarrow> ok b \<Longrightarrow> copy False a b = b"
    and copied_self: "copy True a b = a"
    and exchanged: "iswap a b = (b, a)"
    and move_eq: "move s r a b = (if s then (a, b) else if r then iswap a b else (copy False a b, b))"
    and swap_eq: "swap g s r a b = (if s then (a, b) else if r then iswap a b else g a b)"
begin

lemma value_transfers: "transfers ok copy move swap"
  unfolding transfers_def
proof (intro allI impI)
  fix g :: "'m \<Rightarrow> 'm \<Rightarrow> 'm \<times> 'm" and s r a b
  assume g: "\<forall>x y. g x y = (y, x)" and ok: "ok a" "ok b" and same: "s \<longrightarrow> a = b"
  show "copy s a b = b \<and> fst (move s r a b) = b \<and> swap g s r a b = (b, a)"
    using g ok same copied [OF ok] by (cases s) (simp_all add: copied_self exchanged move_eq swap_eq)
qed

end

lemma one_bit: "(h :: uint32) AND 1 = h \<Longrightarrow> h = 0 \<or> h = 1"
  by (metis and_one_eq not_mod_2_eq_1_eq_0)

context pb_runtime_ok
begin

lemma request_copied: "RpcRequest_CopyFrom rt False a b = b"
  by (simp add: RpcRequest_CopyFrom_def request_merge_clear)

lemma response_copied: "RpcResponse_CopyFrom rt False a b = b"
  by (simp add: RpcResponse_CopyFrom_def response_merge_clear)

lemma AddResponse_copied: "AddResponse_inv a \<Longrightarrow> AddResponse_inv b \<Longrightarrow> AddResponse_CopyFrom rt False a b = b"
  using one_bit [of "addr_has_bits a"] one_bit [of "addr_has_bits b"]
  by (cases a; cases b) (auto simp: AddResponse_CopyFrom_def AddResponse_MergeImpl_def AddResponse_Clear_def AddResponse_inv_def
      has_sum_def set_sum_def merge_default Let_def)

lemma SubResponse_copied: "SubResponse_inv a \<Longrightarrow> SubResponse_inv b \<Longrightarrow> SubResponse_CopyFrom rt False a b = b"
  using one_bit [of "subr_has_bits a"] one_bit [of "subr_has_bits b"]
  by (cases a; cases b) (auto simp: SubResponse_CopyFrom_def SubResponse_MergeImpl_def SubResponse_Clear_def SubResponse_inv_def
      has_diff_def set_diff_def merge_default Let_def)

end

sublocale pb_runtime_ok \<subseteq> req_obj: message_object "(\<lambda>_. True)" "RpcRequest_assign rt" RpcRequest_InternalSwap "RpcRequest_move_assign rt" RpcRequest_Swap
  by unfold_locales (auto simp: RpcRequest_assign_def RpcRequest_move_assign_def RpcRequest_Swap_def RpcRequest_InternalSwap_def
      request_copied RpcRequest_CopyFrom_def [of _ True])

sublocale pb_runtime_ok \<subseteq> rsp_obj: message_object "(\<lambda>_. True)" "RpcResponse_assign rt" RpcResponse_InternalSwap "RpcResponse_move_assign rt" RpcResponse_Swap
  by unfold_locales (auto simp: RpcResponse_assign_def RpcResponse_move_assign_def RpcResponse_Swap_def RpcResponse_InternalSwap_def
      response_copied RpcResponse_CopyFrom_def [of _ True])

sublocale pb_runtime_ok \<subseteq> addq_obj: message_object "AddRequest_inv" "AddRequest_assign rt" AddRequest_InternalSwap "AddRequest_move_assign rt" AddRequest_Swap
  by unfold_locales (auto simp: AddRequest_assign_def AddRequest_move_assign_def AddRequest_Swap_def AddRequest_InternalSwap_def
      AddRequest_copied AddRequest_CopyFrom_def [of _ True])

sublocale pb_runtime_ok \<subseteq> addr_obj: message_object "AddResponse_inv" "AddResponse_assign rt" AddResponse_InternalSwap "AddResponse_move_assign rt" AddResponse_Swap
  by unfold_locales (auto simp: AddResponse_assign_def AddResponse_move_assign_def AddResponse_Swap_def AddResponse_InternalSwap_def
      AddResponse_copied AddResponse_CopyFrom_def [of _ True])

sublocale pb_runtime_ok \<subseteq> subq_obj: message_object "SubRequest_inv" "SubRequest_assign rt" SubRequest_InternalSwap "SubRequest_move_assign rt" SubRequest_Swap
  by unfold_locales (auto simp: SubRequest_assign_def SubRequest_move_assign_def SubRequest_Swap_def SubRequest_InternalSwap_def
      SubRequest_copied SubRequest_CopyFrom_def [of _ True])

sublocale pb_runtime_ok \<subseteq> subr_obj: message_object "SubResponse_inv" "SubResponse_assign rt" SubResponse_InternalSwap "SubResponse_move_assign rt" SubResponse_Swap
  by unfold_locales (auto simp: SubResponse_assign_def SubResponse_move_assign_def SubResponse_Swap_def SubResponse_InternalSwap_def
      SubResponse_copied SubResponse_CopyFrom_def [of _ True])

context pb_runtime_ok
begin

lemma all_transfer:
  "transfers (\<lambda>_. True) (RpcRequest_assign rt) (RpcRequest_move_assign rt) RpcRequest_Swap
    \<and> transfers (\<lambda>_. True) (RpcResponse_assign rt) (RpcResponse_move_assign rt) RpcResponse_Swap
    \<and> transfers AddRequest_inv (AddRequest_assign rt) (AddRequest_move_assign rt) AddRequest_Swap
    \<and> transfers AddResponse_inv (AddResponse_assign rt) (AddResponse_move_assign rt) AddResponse_Swap
    \<and> transfers SubRequest_inv (SubRequest_assign rt) (SubRequest_move_assign rt) SubRequest_Swap
    \<and> transfers SubResponse_inv (SubResponse_assign rt) (SubResponse_move_assign rt) SubResponse_Swap"
  using req_obj.value_transfers rsp_obj.value_transfers addq_obj.value_transfers addr_obj.value_transfers subq_obj.value_transfers subr_obj.value_transfers
  by blast

end

section \<open>Properties\<close>

text \<open>
  C34: messages are values.  For all six message classes, copy assignment and move assignment leave the
  target with the value of the source, and \<open>Swap\<close> exchanges two values, whether or not the objects share
  an arena, and also when both operands are the same object; for the messages with presence bits this
  rests on presence and value being in agreement.
\<close>

theorem messages_are_values:
  assumes "pb_runtime_ok rt"
  shows "transfers (\<lambda>_. True) (RpcRequest_assign rt) (RpcRequest_move_assign rt) RpcRequest_Swap
    \<and> transfers (\<lambda>_. True) (RpcResponse_assign rt) (RpcResponse_move_assign rt) RpcResponse_Swap
    \<and> transfers AddRequest_inv (AddRequest_assign rt) (AddRequest_move_assign rt) AddRequest_Swap
    \<and> transfers AddResponse_inv (AddResponse_assign rt) (AddResponse_move_assign rt) AddResponse_Swap
    \<and> transfers SubRequest_inv (SubRequest_assign rt) (SubRequest_move_assign rt) SubRequest_Swap
    \<and> transfers SubResponse_inv (SubResponse_assign rt) (SubResponse_move_assign rt) SubResponse_Swap"
  using assms by (rule pb_runtime_ok.all_transfer)

lemma messages_are_values_witness:
  "AddRequest_Swap (\<lambda>x y. (y, x)) False True sample_add (AddRequest_default varint_runtime)
     = (AddRequest_default varint_runtime, sample_add)
   \<and> RpcRequest_assign varint_runtime False (RpcRequest_default varint_runtime) sample_request = sample_request"
proof -
  note t = messages_are_values [OF vrt.pb_runtime_ok_axioms]
  have "AddRequest_inv sample_add" "AddRequest_inv (AddRequest_default varint_runtime)"
    by (simp_all add: sample_add_def addq_set_a_def addq_set_b_def AddRequest_default_def
        AddRequest_inv_def addq_has_a_def addq_has_b_def)
  with transfersD [of AddRequest_inv _ _ _ "\<lambda>x y. (y, x)" sample_add "AddRequest_default varint_runtime" False True]
    transfersD [of "\<lambda>_. True" _ _ _ "\<lambda>x y. (y, x)" "RpcRequest_default varint_runtime" sample_request False True] t
  show ?thesis by auto
qed

end
