(* ===== verification/Rpc_Programs.thy ===== *)
theory Rpc_Programs
  imports Rpc_Channel Math_Service
begin

text \<open>
  The two programs that use the framework: \<^verbatim>\<open>src/rpc_server_main.cpp\<close> starts a server with the mathematics
  service and registers its address, \<^verbatim>\<open>src/rpc_client_main.cpp\<close> makes one synchronous call of \<open>Add\<close>.  The
  system calls and the HTTP client are arguments.
\<close>

section \<open>The server program\<close>

datatype line = Cout string | Cerr string

record 'k server_sys =
  ss_ctl :: "'k epoll_ctl"
  ss_kernel :: 'k
  ss_thread :: nat
  ss_epoll :: int
  ss_eventfd :: int
  ss_order :: byte_order
  ss_pton :: "string \<Rightarrow> uint32 option"
  ss_socket :: int
  ss_bind :: "int \<Rightarrow> sockaddr_in \<Rightarrow> int"
  ss_listen :: "int \<Rightarrow> int"
  ss_post :: "string \<Rightarrow> string \<Rightarrow> int option"

definition register_body :: string where
  "register_body = ''{\"service\":\"MathService\",\"address\":\"127.0.0.1:9999\"}''"

text \<open>
  \<open>main\<close> up to the point where it waits for the loop's thread: the state of the server, its services and
  the line it printed.
\<close>

definition rpc_server_main ::
  "'u pb_runtime \<Rightarrow> 'k server_sys
     \<Rightarrow> (('u, 'k) server \<times> (string, 'u math_message) service_registry \<times> line) option process" where
  "rpc_server_main rt sys =
     (case EventLoop_new (ss_ctl sys) (ss_kernel sys) (ss_thread sys) 0 (ss_epoll sys) (ss_eventfd sys) WakeupRead of
        ExitProcess \<Rightarrow> ExitProcess
      | Proceed None \<Rightarrow> Proceed None
      | Proceed (Some lp) \<Rightarrow>
          (case RpcServer_new (ss_bind sys) (ss_socket sys)
                  (InetAddress_new (ss_order sys) (ss_pton sys) 9999 ''0.0.0.0'') 1 lp of
             ExitProcess \<Rightarrow> ExitProcess
           | Proceed s \<Rightarrow>
               (case RpcServer_start (ss_listen sys) (ss_ctl sys) 1 s of
                  ExitProcess \<Rightarrow> ExitProcess
                | Proceed None \<Rightarrow> Proceed None
                | Proceed (Some s1) \<Rightarrow>
                    Proceed (Some (s1, service_register (MathServiceImpl rt) Map.empty,
                      (case ss_post sys ''/register'' register_body of
                         Some st \<Rightarrow> if st = 200 then Cout ''Registered to RegistryCenter''
                                    else Cerr ''Failed to register''
                       | None \<Rightarrow> Cerr ''Failed to register''))))))"

section \<open>The client program\<close>

text \<open>\<open>operator<<\<close> for an \<open>int32_t\<close>.\<close>

definition show_int32 :: "int32 \<Rightarrow> string" where
  "show_int32 v = (if sint v < 0 then CHR ''-'' # show_nat (nat (- sint v)) else show_nat (nat (sint v)))"

text \<open>How the program ends: with a line, by an exception nobody catches, not at all, or undefined.\<close>

datatype 'c client_end = Ends line 'c | Terminated | NeverEnds | ProgramUndefined

definition add_method :: method_desc where
  "add_method = (''math.MathService'', ''Add'')"

definition client_request :: "'u pb_runtime \<Rightarrow> 'u AddRequest" where
  "client_request rt = addq_set_b 20 (addq_set_a 10 (AddRequest_default rt))"

definition client_channel ::
  "'u pb_runtime \<Rightarrow> (string \<rightharpoonup> string) \<Rightarrow> 'g \<Rightarrow> ('u, 'g, 'u AddResponse) RpcChannel" where
  "client_channel rt files gen =
     RpcChannel_new (RegistryClient_new files ''127.0.0.1'' 8500 30 2) ''MathService'' ROUND_ROBIN gen
       (\<lambda>_. setMaxRetries 1 (setTimeoutMs 1000 CustomController_new)) (\<lambda>_. AddResponse_default rt)"

definition rpc_client_main ::
  "('u, 'g, 'u AddResponse) client_env \<Rightarrow> (string \<rightharpoonup> string) \<Rightarrow> 'g \<Rightarrow> (int \<Rightarrow> attempt)
     \<Rightarrow> ('u, 'g, 'u AddResponse) RpcChannel client_end" where
  "rpc_client_main env files gen atts =
     (case CallMethod_client env atts True add_method 0
             (AddRequest_InternalSerialize (ce_rt env) (client_request (ce_rt env))) 0 None
             (client_channel (ce_rt env) files gen) of
        (CallThrew, _, _) \<Rightarrow> Terminated
      | (CallDiverged, _, _) \<Rightarrow> NeverEnds
      | (CallUndefined, _, _) \<Rightarrow> ProgramUndefined
      | (_, _, ch) \<Rightarrow>
          Ends (if \<not> failed (controllers ch 0)
                then Cout (''Sync Add result: '' @ show_int32 (addr_sum (responses ch 0)))
                else Cerr (''RPC failed: '' @ errText (controllers ch 0)))
            (close ch))"

section \<open>Starting the server\<close>

lemma server_started:
  assumes "rpc_server_main rt sys = Proceed (Some (s, reg, out))"
  shows "conns s = Map.empty \<and> sent s = (\<lambda>_. []) \<and> pool_tasks s = [] \<and> pendingFunctors s = []
    \<and> threadId s = ss_thread sys \<and> reg = service_register (MathServiceImpl rt) Map.empty"
  using assms
  by (auto simp: rpc_server_main_def RpcServer_new_def RpcServer_start_def Acceptor_new_def Acceptor_listen_def
      EventLoop_new_def enableReading_def change_events_def updateChannel_def Let_def Socket_new_def
      split: process.splits option.splits if_splits)

text \<open>An accepted connection is ready: alive, with nothing read and nothing to send.\<close>

lemma accepted_connection:
  assumes "0 \<le> connfd" and "conns s0 = Map.empty" "sent s0 = (\<lambda>_. [])" "pool_tasks s0 = []" "pendingFunctors s0 = []"
  shows "\<exists>s c. Acceptor_handleRead pf (Some (newConnection pf)) (connfd, peer) s0 = Some s
    \<and> conn_ok (fresh_conn s0) s \<and> conns s (fresh_conn s0) = Some c \<and> contents (inputBuffer c) = []
    \<and> pool_tasks s = [] \<and> pendingFunctors s = [] \<and> threadId s = threadId s0
    \<and> sent s (fresh_conn s0) = [] \<and> unsent (fresh_conn s0) s = []"
  using assms
  by (simp add: Acceptor_handleRead_def newConnection_def connectEstablished_def TcpConnection_new_def set_conn_def
      enableReading_def change_events_def conn_ok_def unsent_def Let_def)

section \<open>The client finds the server\<close>

lemma registered_address:
  assumes "parse register_body = JsonValue (JObject [(''service'', JString ''MathService''), (''address'', JString ''127.0.0.1:9999'')])"
  shows "post_register parse register_body center
    = (registerService ''MathService'' ''127.0.0.1:9999'' center, Some (http_reply ''{\"status\":\"ok\"}''))"
  using assms by (simp add: post_register_def Let_def)

text \<open>A round of the load balancer over one address.\<close>

lemma select_single: "\<exists>lb'. select draw (LoadBalancer_new ROUND_ROBIN gen) [a] = (a, lb')"
  by (simp add: select_def LoadBalancer_new_def Let_def)

lemma client_finds_server:
  assumes center: "center_inv center" "discover ''MathService'' center = {}"
    and json: "ce_json env (dump (JArray [JString ''127.0.0.1:9999''])) = JsonValue (JArray [JString ''127.0.0.1:9999''])"
    and http: "param (discover_path ''MathService'') = ''MathService''"
      "at_http att = (\<lambda>path i. let r = get_discover dump (param path)
          (registerService ''MathService'' ''127.0.0.1:9999'' center) in Some (sent_status r, content r))"
    and net: "0 \<le> createNonBlockingConnection (ce_net env) ''127.0.0.1'' 9999"
  shows "\<exists>ch1. lookup_and_connect env att e1 e2 cid (client_channel rt files gen) = (Conn 0, ch1)
    \<and> idle_input ch1 0 \<and> nextId ch1 = 0 \<and> outbox ch1 = []
    \<and> controllers ch1 = controllers (client_channel rt files gen)"
proof -
  let ?rc = "RegistryClient_new files ''127.0.0.1'' 8500 30 2"
  let ?center = "registerService ''MathService'' ''127.0.0.1:9999'' center"
  have d: "discover ''MathService'' ?center = {''127.0.0.1:9999''}"
    using center(2) by (auto simp: discover_def registerService_def Let_def split: option.splits)
  obtain rc' where "getAddresses (ce_json env) (at_http att) (at_read att) (at_open att) (at_rename att) (at_now att)
      (at_stored att) ''MathService'' ?rc = (Addresses [''127.0.0.1:9999''], 1, rc')"
    using registry_lookup [of "at_now att" "''MathService''" ?rc "[''127.0.0.1:9999'']" ?center "ce_json env" dump param "at_http att"
        "at_read att" "at_open att" "at_rename att" "at_stored att", OF _ _ _ _ http _ rcenter.inv_reg [OF center(1)]] d center(2) json
    by (auto simp: cache_fresh_def RegistryClient_new_def)
  moreover obtain lb' where "select (ce_draw env) (LoadBalancer_new ROUND_ROBIN gen) [''127.0.0.1:9999'']
      = (''127.0.0.1:9999'', lb')" using select_single by metis
  moreover have "stoi ''9999'' = StoiValue 9999"
    by (simp add: stoi_def scan_int_def is_space_def is_digit_def decimal_def)
  ultimately show ?thesis
    using net by (auto simp: lookup_and_connect_def client_channel_def RpcChannel_new_def getConnection_def
        idle_input_def Let_def)
qed

end
