(* ===== verification/Server_Steps.thy ===== *)
theory Server_Steps
  imports Rpc_Server
begin

text \<open>
  The server as a transition system: what \<open>epoll_wait\<close> reports for the channels of the acceptor and of the
  connections, handled by \<open>Channel::handleEvent\<close>, finished work of the pool and drained functors, in any
  order and on any number of connections.  The locale \<open>guarded_system\<close> turns one step of progress and
  preservation into a characterisation of the runs that are undefined; the server is an instance.  A frame
  relation says what an event of one connection leaves alone, which gives the isolation of connections.
\<close>

section \<open>Guarded systems\<close>

text \<open>
  A system whose steps may be undefined (\<open>None\<close>).  In a sequence of events those that are not enabled do not
  happen.
\<close>

fun run_all :: "('e \<Rightarrow> 's \<Rightarrow> bool) \<Rightarrow> ('e \<Rightarrow> 's \<Rightarrow> 's option) \<Rightarrow> 'e list \<Rightarrow> 's \<Rightarrow> 's option" where
  "run_all enabled step [] s = Some s"
| "run_all enabled step (ev # evs) s =
     (if enabled ev s then Option.bind (step ev s) (run_all enabled step evs) else run_all enabled step evs s)"

text \<open>A run meets a fault: it comes to a state in which the next event is enabled and faulty.\<close>

definition faults ::
  "('e \<Rightarrow> 's \<Rightarrow> bool) \<Rightarrow> ('e \<Rightarrow> 's \<Rightarrow> bool) \<Rightarrow> ('e \<Rightarrow> 's \<Rightarrow> 's option) \<Rightarrow> 'e list \<Rightarrow> 's \<Rightarrow> bool" where
  "faults enabled faulty step evs s \<longleftrightarrow> (\<exists>pre ev post s1. evs = pre @ ev # post
     \<and> run_all enabled step pre s = Some s1 \<and> enabled ev s1 \<and> faulty ev s1)"

lemma faults_Nil [simp]: "\<not> faults enabled faulty step [] s"
  by (simp add: faults_def)

lemma faults_Cons:
  "faults enabled faulty step (ev # evs) s \<longleftrightarrow>
     (if enabled ev s then faulty ev s \<or> (\<exists>s1. step ev s = Some s1 \<and> faults enabled faulty step evs s1)
      else faults enabled faulty step evs s)" (is "?l = ?r")
proof
  assume ?l
  then obtain pre e post s1 where p: "ev # evs = pre @ e # post" "run_all enabled step pre s = Some s1"
      "enabled e s1" "faulty e s1" unfolding faults_def by blast
  show ?r
  proof (cases pre)
    case Nil
    with p show ?thesis by simp
  next
    case (Cons a pre')
    then have "a = ev" "evs = pre' @ e # post" using p(1) by simp_all
    moreover from this have "if enabled ev s then \<exists>s2. step ev s = Some s2 \<and> run_all enabled step pre' s2 = Some s1
        else run_all enabled step pre' s = Some s1"
      using p(2) Cons by (simp add: bind_eq_Some_conv split: if_splits)
    ultimately show ?thesis using p(3,4) unfolding faults_def by (simp split: if_splits) blast+
  qed
next
  assume r: ?r
  have cons: ?l if "run_all enabled step (ev # pre) s = Some s1" "evs = pre @ e # post" "enabled e s1" "faulty e s1"
    for pre e post s1
    unfolding faults_def by (intro exI [of _ "ev # pre"] exI [of _ e] exI [of _ post] exI [of _ s1]) (use that in simp)
  show ?l
  proof (cases "enabled ev s \<and> faulty ev s")
    case True
    then show ?thesis unfolding faults_def by (intro exI [of _ "[]"] exI [of _ ev] exI [of _ evs] exI [of _ s]) simp
  next
    case False
    show ?thesis
    proof (cases "enabled ev s")
      case True
      with r False obtain s2 where "step ev s = Some s2" "faults enabled faulty step evs s2" by auto
      with True cons show ?thesis by (fastforce simp: faults_def [of _ _ _ evs])
    next
      case False
      with r cons show ?thesis by (fastforce simp: faults_def [of _ _ _ evs])
    qed
  qed
qed

lemma faults_event: "faults enabled faulty step evs s \<Longrightarrow> \<exists>ev \<in> set evs. \<exists>s1. faulty ev s1"
  unfolding faults_def by force

text \<open>Every enabled event of a good state leads to a good state, or is faulty and undefined.\<close>

locale guarded_system =
  fixes good :: "'s \<Rightarrow> bool" and enabled faulty :: "'e \<Rightarrow> 's \<Rightarrow> bool" and step :: "'e \<Rightarrow> 's \<Rightarrow> 's option"
  assumes progress: "good s \<Longrightarrow> enabled ev s \<Longrightarrow> \<not> faulty ev s \<Longrightarrow> \<exists>s'. step ev s = Some s' \<and> good s'"
    and fault: "good s \<Longrightarrow> enabled ev s \<Longrightarrow> faulty ev s \<Longrightarrow> step ev s = None"
begin

lemma runs_defined:
  "good s \<Longrightarrow> \<not> faults enabled faulty step evs s \<Longrightarrow> \<exists>s'. run_all enabled step evs s = Some s' \<and> good s'"
proof (induction evs arbitrary: s)
  case (Cons ev evs)
  then show ?case using progress [of s ev] by (fastforce simp: faults_Cons split: if_splits)
qed simp

lemma step_good:
  "good s \<Longrightarrow> enabled ev s \<Longrightarrow> step ev s = Some s' \<Longrightarrow> good s' \<and> \<not> faulty ev s"
  using progress [of s ev] fault [of s ev] by (cases "faulty ev s") auto

lemma runs_undefined:
  "good s \<Longrightarrow> faults enabled faulty step evs s \<Longrightarrow> run_all enabled step evs s = None"
proof (induction evs arbitrary: s)
  case (Cons ev evs)
  then show ?case using progress [of s ev] fault [of s ev] by (fastforce simp: faults_Cons split: if_splits)
qed simp

end

section \<open>Events of the server\<close>

text \<open>
  A new connection; on a connection: data, a spurious read event, the end of the stream, an error of
  \<open>read\<close>, writability, a hangup and an error reported by \<open>epoll\<close>; a thread of the pool that finishes a task;
  the functors of the loop; the wakeup.
\<close>

datatype server_event =
    Accept int string
  | Data nat bytes
  | Retry nat
  | Eof nat
  | ReadFails nat int
  | CanWrite nat
  | PeerClosed nat
  | PeerError nat
  | Work nat nat
  | Drain
  | Wakeup

text \<open>The connections whose descriptor is open are watched; a pool thread finishes some task it took.\<close>

fun event_enabled :: "server_event \<Rightarrow> ('u, 'k) server \<Rightarrow> bool" where
  "event_enabled (Accept fd peer) s = True"
| "event_enabled (Data i bs) s = (conns s i \<noteq> None \<and> bs \<noteq> [])"
| "event_enabled (Retry i) s = (conns s i \<noteq> None)"
| "event_enabled (Eof i) s = (conns s i \<noteq> None)"
| "event_enabled (ReadFails i e) s = (conns s i \<noteq> None \<and> e \<noteq> EAGAIN)"
| "event_enabled (CanWrite i) s = (conns s i \<noteq> None)"
| "event_enabled (PeerClosed i) s = (conns s i \<noteq> None)"
| "event_enabled (PeerError i) s = (conns s i \<noteq> None)"
| "event_enabled (Work me k) s = (k < length (pool_tasks s))"
| "event_enabled Drain s = True"
| "event_enabled Wakeup s = True"

definition no_answer :: "int \<times> string" where "no_answer = (- 1, [])"

text \<open>\<open>epoll_wait\<close> reports \<open>ev\<close> for the channel of connection \<open>i\<close>; \<open>r\<close> is what \<open>read\<close> will answer.\<close>

definition conn_event :: "('u, 'k) platform \<Rightarrow> read_result \<Rightarrow> nat \<Rightarrow> uint32 \<Rightarrow> ('u, 'k) server \<Rightarrow> ('u, 'k) server option" where
  "conn_event pf r i ev s =
     (case conns s i of
        None \<Rightarrow> None
      | Some c \<Rightarrow> process_events (server_callback pf (\<lambda>_. r) no_answer) [(conn_channel c, ev)] s)"

fun serve_event ::
  "('u, 'k) platform \<Rightarrow> 'msg message_ops \<Rightarrow> ('mth, 'msg) service_registry \<Rightarrow> server_event \<Rightarrow> ('u, 'k) server
     \<Rightarrow> ('u, 'k) server option" where
  "serve_event pf ops reg (Accept fd peer) s =
     process_events (server_callback pf (\<lambda>_. ReadErr EAGAIN) (fd, peer)) [(acceptor s, EPOLLIN)] s"
| "serve_event pf ops reg (Data i bs) s = conn_event pf (ReadOk bs) i EPOLLIN s"
| "serve_event pf ops reg (Retry i) s = conn_event pf (ReadErr EAGAIN) i EPOLLIN s"
| "serve_event pf ops reg (Eof i) s = conn_event pf (ReadOk []) i EPOLLIN s"
| "serve_event pf ops reg (ReadFails i e) s = conn_event pf (ReadErr e) i EPOLLIN s"
| "serve_event pf ops reg (CanWrite i) s = conn_event pf (ReadErr EAGAIN) i EPOLLOUT s"
| "serve_event pf ops reg (PeerClosed i) s = conn_event pf (ReadErr EAGAIN) i EPOLLHUP s"
| "serve_event pf ops reg (PeerError i) s = conn_event pf (ReadErr EAGAIN) i EPOLLERR s"
| "serve_event pf ops reg (Work me k) s =
     complete_task pf ops reg me (pool_tasks s ! k)
       (s\<lparr>pool_tasks := take k (pool_tasks s) @ drop (Suc k) (pool_tasks s)\<rparr>)"
| "serve_event pf ops reg Drain s = run_pending pf s"
| "serve_event pf ops reg Wakeup s = server_callback pf (\<lambda>_. ReadErr EAGAIN) no_answer WakeupRead s"

text \<open>
  The faulty events: a read event that ends in \<open>handleClose\<close> on a connection nothing but the set of the
  server refers to.
\<close>

definition last_reference :: "nat \<Rightarrow> ('u, 'k) server \<Rightarrow> bool" where
  "last_reference i s \<longleftrightarrow> i \<notin> task_conn ` set (pool_tasks s) \<and> i \<notin> functor_conn ` set (pendingFunctors s)"

fun closed_while_reading :: "server_event \<Rightarrow> ('u, 'k) server \<Rightarrow> bool" where
  "closed_while_reading (Eof i) s = last_reference i s"
| "closed_while_reading (ReadFails i e) s = last_reference i s"
| "closed_while_reading _ s = False"

text \<open>The events that close connection \<open>i\<close>.\<close>

fun closes :: "nat \<Rightarrow> server_event \<Rightarrow> bool" where
  "closes i (Eof j) = (j = i)"
| "closes i (ReadFails j e) = (j = i)"
| "closes i (PeerClosed j) = (j = i)"
| "closes i (PeerError j) = (j = i)"
| "closes i _ = False"

section \<open>Well-formed states\<close>

text \<open>
  Exactly the connections something refers to are alive, channels are not shared and call their own
  connection, the acceptor listens, and the fresh names are fresh.  The set \<open>A\<close> adds connections that a
  running callback still refers to.
\<close>

definition wired :: "nat \<Rightarrow> callback Channel \<Rightarrow> bool" where
  "wired i ch \<longleftrightarrow> readCallback ch = Some (HandleRead i) \<and> writeCallback ch = Some (HandleWrite i)
     \<and> closeCallback ch = Some (HandleClose i) \<and> errorCallback ch = Some (HandleClose i)"

definition listening :: "('u, 'k) server \<Rightarrow> bool" where
  "listening s \<longleftrightarrow> acceptor s < fresh_ptr s
     \<and> (\<exists>ch. heap s (acceptor s) = Some ch \<and> readCallback ch = Some AcceptRead)"

definition wf_on :: "nat set \<Rightarrow> ('u, 'k) server \<Rightarrow> bool" where
  "wf_on A s \<longleftrightarrow> (\<forall>i. referenced i s \<or> i \<in> A \<longrightarrow> conn_ok i s)
     \<and> (\<forall>i. conns s i \<noteq> None \<longrightarrow> referenced i s \<or> i \<in> A)
     \<and> (\<forall>i j c d. conns s i = Some c \<longrightarrow> conns s j = Some d \<longrightarrow> conn_channel c = conn_channel d \<longrightarrow> i = j)
     \<and> (\<forall>i c. conns s i = Some c \<longrightarrow> i < fresh_conn s \<and> conn_channel c < fresh_ptr s \<and> conn_channel c \<noteq> acceptor s)
     \<and> (\<forall>i c ch. conns s i = Some c \<longrightarrow> heap s (conn_channel c) = Some ch \<longrightarrow> wired i ch)
     \<and> listening s"

abbreviation server_wf :: "('u, 'k) server \<Rightarrow> bool" where
  "server_wf s \<equiv> wf_on {} s"

lemma wf_live: "wf_on A s \<Longrightarrow> referenced i s \<or> i \<in> A \<Longrightarrow> conn_ok i s"
  unfolding wf_on_def by blast

lemma wf_weaken: "wf_on A s \<Longrightarrow> A' \<subseteq> A \<Longrightarrow> (\<And>i. i \<in> A \<Longrightarrow> i \<notin> A' \<Longrightarrow> referenced i s) \<Longrightarrow> wf_on A' s"
  unfolding wf_on_def by (intro conjI) blast+

lemma wf_facts:
  assumes "wf_on A s"
  shows "\<And>i. conns s i \<noteq> None \<Longrightarrow> referenced i s \<or> i \<in> A"
    and "\<And>i j c d. conns s i = Some c \<Longrightarrow> conns s j = Some d \<Longrightarrow> conn_channel c = conn_channel d \<Longrightarrow> i = j"
    and "\<And>i c. conns s i = Some c \<Longrightarrow> i < fresh_conn s \<and> conn_channel c < fresh_ptr s \<and> conn_channel c \<noteq> acceptor s"
    and "\<And>i c ch. conns s i = Some c \<Longrightarrow> heap s (conn_channel c) = Some ch \<Longrightarrow> wired i ch"
    and "listening s"
  using assms unfolding wf_on_def by blast+

text \<open>A channel of which at most the events have changed.\<close>

definition events_only :: "callback Channel option \<Rightarrow> callback Channel option \<Rightarrow> bool" where
  "events_only o1 o2 \<longleftrightarrow> (case o1 of None \<Rightarrow> o2 = None | Some ch \<Rightarrow> (\<exists>e. o2 = Some (ch\<lparr>ch_events := e\<rparr>)))"

lemma events_only_refl [simp]: "events_only o1 o1"
proof (cases o1)
  case (Some ch)
  show ?thesis unfolding events_only_def Some option.case by (rule exI [of _ "ch_events ch"]) simp
qed (simp add: events_only_def)

lemma events_only_trans: "events_only o1 o2 \<Longrightarrow> events_only o2 o3 \<Longrightarrow> events_only o1 o3"
  by (auto simp: events_only_def split: option.splits)

lemma events_only_Some: "events_only (Some ch) o2 \<longleftrightarrow> (\<exists>e. o2 = Some (ch\<lparr>ch_events := e\<rparr>))"
  by (simp add: events_only_def)

lemma events_only_None: "events_only o1 None \<longleftrightarrow> o1 = None"
  by (simp add: events_only_def split: option.splits)

text \<open>What an operation on connection \<open>i\<close> leaves alone; of its channel it changes the events only.\<close>

definition touches :: "nat \<Rightarrow> ('u, 'k) server \<Rightarrow> ('u, 'k) server \<Rightarrow> bool" where
  "touches i s s' \<longleftrightarrow>
     connections s' = connections s \<and> fresh_conn s' = fresh_conn s \<and> fresh_ptr s' = fresh_ptr s
     \<and> threadId s' = threadId s \<and> pendingFunctors s' = pendingFunctors s \<and> acceptor s' = acceptor s
     \<and> (\<forall>j. j \<noteq> i \<longrightarrow> conns s' j = conns s j \<and> sent s' j = sent s j)
     \<and> (\<exists>c c'. conns s i = Some c \<and> conns s' i = Some c' \<and> conn_channel c' = conn_channel c
          \<and> (\<forall>q. q \<noteq> conn_channel c \<longrightarrow> heap s' q = heap s q)
          \<and> events_only (heap s (conn_channel c)) (heap s' (conn_channel c)))"

lemma touches_refl: "conns s i = Some c \<Longrightarrow> touches i s s"
  by (simp add: touches_def)

lemma touches_trans:
  assumes "touches i s s1" and "touches i s1 s2"
  shows "touches i s s2"
proof -
  obtain c c1 where c: "conns s i = Some c" "conns s1 i = Some c1" "conn_channel c1 = conn_channel c"
      "\<And>q. q \<noteq> conn_channel c \<Longrightarrow> heap s1 q = heap s q"
      "events_only (heap s (conn_channel c)) (heap s1 (conn_channel c))"
    using assms(1) unfolding touches_def by blast
  obtain c2 where c2: "conns s2 i = Some c2" "conn_channel c2 = conn_channel c"
      "\<And>q. q \<noteq> conn_channel c \<Longrightarrow> heap s2 q = heap s1 q"
      "events_only (heap s1 (conn_channel c)) (heap s2 (conn_channel c))"
    using assms(2) c(2,3) unfolding touches_def by auto
  have "events_only (heap s (conn_channel c)) (heap s2 (conn_channel c))"
    using events_only_trans [OF c(5) c2(4)] .
  moreover have "heap s2 q = heap s q" if "q \<noteq> conn_channel c" for q using c(4) c2(3) that by simp
  ultimately show ?thesis using assms c(1) c2(1,2) unfolding touches_def by auto
qed

text \<open>Well-formedness survives an operation on one live connection.\<close>

lemma wf_touches:
  assumes wf: "wf_on A s" and t: "touches i s s'" and i: "conn_ok i s'"
    and refs: "\<And>j. referenced j s' \<Longrightarrow> referenced j s \<or> j \<in> A \<or> j = i" and A: "A' \<subseteq> A \<union> {i}"
    and kept: "\<And>j. referenced j s \<or> j \<in> A \<Longrightarrow> referenced j s' \<or> j \<in> A'"
  shows "wf_on A' s'"
proof -
  obtain c c' where c: "conns s i = Some c" "conns s' i = Some c'" "conn_channel c' = conn_channel c"
      "\<And>q. q \<noteq> conn_channel c \<Longrightarrow> heap s' q = heap s q" "\<And>j. j \<noteq> i \<Longrightarrow> conns s' j = conns s j"
      "events_only (heap s (conn_channel c)) (heap s' (conn_channel c))"
    using t unfolding touches_def by blast
  have same: "fresh_conn s' = fresh_conn s" "fresh_ptr s' = fresh_ptr s" "acceptor s' = acceptor s"
    using t by (simp_all add: touches_def)
  note f = wf_facts [OF wf]
  have chan: "\<exists>d. conns s j = Some d \<and> conn_channel d = conn_channel d'" if "conns s' j = Some d'" for j d'
    using that c(1-3,5) by (cases "j = i") auto
  have other: "conn_ok j s'" if "conn_ok j s" "j \<noteq> i" for j
  proof -
    obtain d where d: "conns s j = Some d" using \<open>conn_ok j s\<close> by (auto simp: conn_ok_def)
    then have "conn_channel d \<noteq> conn_channel c" using f(2) [OF d c(1)] that(2) by blast
    with that d c(4,5) show ?thesis by (simp add: conn_ok_def)
  qed
  have "conn_ok j s'" if "referenced j s' \<or> j \<in> A'" for j
    using that refs A wf_live [OF wf] other i by (cases "j = i") blast+
  moreover have "referenced j s' \<or> j \<in> A'" if "conns s' j \<noteq> None" for j
    using that chan f(1) kept by (metis not_None_eq)
  moreover have "j = k" if "conns s' j = Some d" "conns s' k = Some e" "conn_channel d = conn_channel e" for j k d e
    using that chan f(2) by metis
  moreover have "j < fresh_conn s' \<and> conn_channel d < fresh_ptr s' \<and> conn_channel d \<noteq> acceptor s'"
    if "conns s' j = Some d" for j d
    using chan [OF that] f(3) same by metis
  moreover have "wired j ch" if d: "conns s' j = Some d" "heap s' (conn_channel d) = Some ch" for j d ch
  proof (cases "j = i")
    case True
    with c d obtain ch0 e where "heap s (conn_channel c) = Some ch0" "ch = ch0\<lparr>ch_events := e\<rparr>"
      by (auto simp: events_only_def split: option.splits)
    with f(4) [OF c(1)] True show ?thesis by (simp add: wired_def)
  next
    case False
    with d(1) c(5) have j: "conns s j = Some d" by simp
    with False f(2) [OF j c(1)] have "conn_channel d \<noteq> conn_channel c" by blast
    with f(4) [OF j] d(2) c(4) show ?thesis by simp
  qed
  moreover have "listening s'"
    using f(3) [OF c(1)] f(5) same c(4) [of "acceptor s"] by (auto simp: listening_def)
  ultimately show ?thesis unfolding wf_on_def by blast
qed

section \<open>Operations on one connection\<close>

lemma change_events_touches:
  assumes "change_events ctl g (conn_channel c) s = Some s'" and "conns s i = Some c"
  shows "touches i s s' \<and> pool_tasks s' = pool_tasks s"
  using assms
  by (auto simp: change_events_def touches_def events_only_Some Let_def split: option.splits if_splits)

lemma set_conn_touches:
  "conns s i = Some c \<Longrightarrow> conn_channel c' = conn_channel c \<Longrightarrow>
   touches i s (set_conn i c' (record_sent i bs s)) \<and> touches i s (set_conn i c' s) \<and> touches i s (record_sent i bs s)"
  by (simp add: touches_def set_conn_def record_sent_def)

lemma set_conn_tasks [simp]:
  "pool_tasks (set_conn i c s) = pool_tasks s" "pool_tasks (record_sent i bs s) = pool_tasks s"
  by (simp_all add: set_conn_def record_sent_def)

text \<open>Changing a connection and then the events of its channel.\<close>

lemma update_then_events:
  assumes "change_events ctl g (conn_channel c) s1 = Some s'" and "touches i s s1" "pool_tasks s1 = pool_tasks s"
    and "conns s1 i = Some c1" "conn_channel c1 = conn_channel c"
  shows "touches i s s' \<and> pool_tasks s' = pool_tasks s"
  using change_events_touches [of ctl g c1 s1 s' i] assms touches_trans [of i s s1 s'] by auto

lemma send_touches:
  assumes "send ctl w i msg s = Some s'" and "conns s i = Some c"
  shows "touches i s s' \<and> pool_tasks s' = pool_tasks s"
proof -
  have buffered: "touches i s s' \<and> pool_tasks s' = pool_tasks s"
    if "enableWriting ctl (conn_channel c) (set_conn i (c\<lparr>outputBuffer := b\<rparr>) s1) = Some s'"
      "s1 = s \<or> s1 = record_sent i bs s" for b bs s1
    using that set_conn_touches [OF assms(2), of "c\<lparr>outputBuffer := b\<rparr>" bs]
    by (intro update_then_events [of ctl "\<lambda>e. e OR EPOLLOUT" c "set_conn i (c\<lparr>outputBuffer := b\<rparr>) s1" _ _ _
        "c\<lparr>outputBuffer := b\<rparr>"])
      (auto simp: enableWriting_def)
  have "touches i s (record_sent i msg s)" using set_conn_touches [OF assms(2), of c msg] by simp
  with assms buffered show ?thesis
    by (auto simp: send_def Let_def split: if_splits write_result.splits)
qed

lemma conn_send_touches:
  "conn_send pf i msg s = Some s' \<Longrightarrow> conns s i = Some c \<Longrightarrow> touches i s s' \<and> pool_tasks s' = pool_tasks s"
  unfolding conn_send_def by (rule send_touches)

lemma write_touches:
  assumes "handleWrite ctl w i s = Some s'" and "conns s i = Some c"
  shows "touches i s s' \<and> pool_tasks s' = pool_tasks s"
proof -
  have stopped: "touches i s s' \<and> pool_tasks s' = pool_tasks s"
    if "disableWriting ctl (conn_channel c) (set_conn i (c\<lparr>outputBuffer := b\<rparr>) (record_sent i bs s)) = Some s'" for b bs
    using that set_conn_touches [OF assms(2), of "c\<lparr>outputBuffer := b\<rparr>" bs]
    by (intro update_then_events [of ctl "\<lambda>e. e AND NOT EPOLLOUT" c
        "set_conn i (c\<lparr>outputBuffer := b\<rparr>) (record_sent i bs s)" _ _ _ "c\<lparr>outputBuffer := b\<rparr>"])
      (auto simp: disableWriting_def)
  have plain: "touches i s s' \<and> pool_tasks s' = pool_tasks s" if "disableWriting ctl (conn_channel c) s = Some s'"
    using that assms(2) touches_refl [OF assms(2)]
    by (intro update_then_events [of ctl "\<lambda>e. e AND NOT EPOLLOUT" c s]) (auto simp: disableWriting_def)
  show ?thesis
    using assms stopped plain touches_refl [OF assms(2)] set_conn_touches [OF assms(2)]
    by (auto simp: handleWrite_def Let_def split: if_splits write_result.splits)
qed

text \<open>What refers to connections depends on three components of the state.\<close>

lemma referenced_cong:
  "connections s' = connections s \<Longrightarrow> pool_tasks s' = pool_tasks s \<Longrightarrow> pendingFunctors s' = pendingFunctors s \<Longrightarrow>
   referenced i s' = referenced i s"
  by (simp add: referenced_def)

lemma touches_referenced: "touches i s s' \<Longrightarrow> pool_tasks s' = pool_tasks s \<Longrightarrow> referenced j s' = referenced j s"
  by (rule referenced_cong) (simp_all add: touches_def)

lemma conn_ok_some: "conn_ok i s \<Longrightarrow> \<exists>c. conns s i = Some c"
  by (auto simp: conn_ok_def)

lemma conn_send_safe:
  assumes "wf_on A s" and "conn_ok i s"
  shows "\<exists>s'. conn_send pf i msg s = Some s' \<and> wf_on (insert i A) s' \<and> touches i s s' \<and> pool_tasks s' = pool_tasks s
    \<and> conn_ok i s'"
proof -
  obtain s' where s': "conn_send pf i msg s = Some s'" "conn_ok i s'" using conn_send_effect [OF assms(2)] by blast
  obtain c where "conns s i = Some c" using conn_ok_some [OF assms(2)] by blast
  from conn_send_touches [OF s'(1) this] have t: "touches i s s'" "pool_tasks s' = pool_tasks s" by simp_all
  with wf_touches [OF assms(1) t(1) s'(2), of "insert i A"] touches_referenced [OF t] s' show ?thesis by auto
qed

lemma write_safe:
  assumes "wf_on A s" and "conn_ok i s"
  shows "\<exists>s'. handleWrite ctl w i s = Some s' \<and> wf_on A s' \<and> touches i s s'"
proof -
  obtain s' where s': "handleWrite ctl w i s = Some s'" "conn_ok i s'" using write_effect [OF assms(2)] by blast
  obtain c where "conns s i = Some c" using conn_ok_some [OF assms(2)] by blast
  from write_touches [OF s'(1) this] have t: "touches i s s'" "pool_tasks s' = pool_tasks s" by simp_all
  with wf_touches [OF assms(1) t(1) s'(2), of A] touches_referenced [OF t] s' show ?thesis by auto
qed

section \<open>Reading\<close>

text \<open>An operation on connection \<open>i\<close> that may also hand tasks of \<open>i\<close> to the pool.\<close>

definition reads_on :: "nat \<Rightarrow> ('u, 'k) server \<Rightarrow> ('u, 'k) server \<Rightarrow> bool" where
  "reads_on i s s' \<longleftrightarrow> wf_on {i} s' \<and> touches i s s'
     \<and> (\<exists>ts. pool_tasks s' = pool_tasks s @ ts \<and> (\<forall>t \<in> set ts. task_conn t = i))"

lemma reads_on_trans:
  assumes "reads_on i s s1" and "reads_on i s1 s2"
  shows "reads_on i s s2"
proof -
  obtain ts us where "pool_tasks s1 = pool_tasks s @ ts" "\<forall>t \<in> set ts. task_conn t = i"
      "pool_tasks s2 = pool_tasks s1 @ us" "\<forall>t \<in> set us. task_conn t = i"
    using assms unfolding reads_on_def by blast
  then have "pool_tasks s2 = pool_tasks s @ (ts @ us) \<and> (\<forall>t \<in> set (ts @ us). task_conn t = i)" by auto
  moreover have "touches i s s2" using assms touches_trans unfolding reads_on_def by blast
  ultimately show ?thesis using assms(2) unfolding reads_on_def by blast
qed

lemma reads_on_refl: "wf_on {i} s \<Longrightarrow> reads_on i s s"
proof -
  assume wf: "wf_on {i} s"
  obtain c where "conns s i = Some c" using conn_ok_some [OF wf_live [OF wf, of i]] by auto
  with wf show ?thesis by (auto simp: reads_on_def touches_refl)
qed

lemma new_task_safe:
  assumes "wf_on {i} s" and "task_conn t = i"
  shows "reads_on i s (s\<lparr>pool_tasks := pool_tasks s @ [t]\<rparr>)"
proof -
  let ?s = "s\<lparr>pool_tasks := pool_tasks s @ [t]\<rparr>"
  have ok: "conn_ok i s" using wf_live [OF assms(1), of i] by simp
  then have t: "touches i s ?s" using conn_ok_some [OF ok] by (auto simp: touches_def)
  have "wf_on {i} ?s"
    by (rule wf_touches [OF assms(1) t]) (use ok assms(2) in \<open>auto simp: conn_ok_def referenced_def\<close>)
  with t assms(2) show ?thesis by (simp add: reads_on_def)
qed

lemma handle_frame_safe:
  assumes rt: "pb_runtime_ok (pf_rt pf)" and wf: "wf_on {i} s"
  shows "\<exists>s'. handle_frame pf i reqId d s = Some s' \<and> reads_on i s s'"
proof -
  obtain request ok where p: "RpcRequest_ParseFromString (pf_rt pf) (RpcRequest_default (pf_rt pf)) d = Some (request, ok)"
    using pb_runtime_ok.request_parse_returns [OF rt] by (metis prod.exhaust)
  show ?thesis
  proof (cases ok)
    case True
    with p new_task_safe [OF wf, of "\<lparr>task_conn = i, task_request = request, task_id = reqId\<rparr>"] show ?thesis
      by (simp add: handle_frame_def)
  next
    case False
    have "conn_ok i s" using wf_live [OF wf, of i] by simp
    from conn_send_safe [OF wf this] obtain s' where "conn_send pf i (packWithId (pf_order pf) reqId
        (RpcResponse_InternalSerialize (pf_rt pf) (set_error_code WRONG_PROTO (RpcResponse_default (pf_rt pf))))) s = Some s'"
        "reads_on i s s'"
      by (fastforce simp: reads_on_def)
    with p False show ?thesis by (simp add: handle_frame_def)
  qed
qed

lemma read_frames_keeps:
  assumes "P s" and "\<And>reqId d s. P s \<Longrightarrow> P (handle reqId d s)" and "buf_inv b"
  shows "P (fst (read_frames e handle b s)) \<and> buf_inv (snd (read_frames e handle b s))"
  using assms
proof (induction e handle b s rule: read_frames.induct)
  case (1 e handle b s)
  obtain d reqId b' where u: "tryUnpackWithId e b 0 = (d, reqId, b')" using prod_cases3 by blast
  have inv: "buf_inv b'" using tryUnpackWithId_inv [OF 1(4) u] .
  show ?case
  proof (cases "d = []")
    case True
    with u 1(2) inv show ?thesis by (subst (1 2) read_frames.simps) simp
  next
    case False
    with u have "read_frames e handle b s = read_frames e handle b' (handle reqId d s)"
      by (subst read_frames.simps) simp
    with 1(1) [OF u [symmetric] refl False 1(3) [OF 1(2)] 1(3) inv] show ?thesis by simp
  qed
qed

text \<open>Replacing the input buffer by a good one.\<close>

lemma new_input_safe:
  assumes "wf_on {i} s" and "conns s i = Some c" and "buf_inv b"
  shows "reads_on i s (set_conn i (c\<lparr>inputBuffer := b\<rparr>) s)"
proof -
  let ?s = "set_conn i (c\<lparr>inputBuffer := b\<rparr>) s"
  have ok: "conn_ok i s" using wf_live [OF assms(1), of i] by simp
  have t: "touches i s ?s" using set_conn_touches [OF assms(2)] by simp
  have "conn_ok i ?s" using ok assms(2,3) by (auto simp: conn_ok_def)
  from wf_touches [OF assms(1) t this, of "{i}"] touches_referenced [OF t] have "wf_on {i} ?s" by simp
  with t show ?thesis by (simp add: reads_on_def)
qed

lemma onMessage_safe:
  assumes rt: "pb_runtime_ok (pf_rt pf)" and wf: "wf_on {i} s"
  shows "\<exists>s'. onMessage pf i s = Some s' \<and> reads_on i s s'"
proof -
  obtain c where c: "conns s i = Some c" "buf_inv (inputBuffer c)"
    using wf_live [OF wf, of i] by (auto simp: conn_ok_def)
  let ?handle = "\<lambda>reqId d r. Option.bind r (handle_frame pf i reqId d)"
  let ?P = "\<lambda>r. \<exists>s'. r = Some s' \<and> reads_on i s s'"
  have step: "?P (?handle reqId d r)" if r: "?P r" for reqId d r
  proof -
    obtain s1 where s1: "r = Some s1" "reads_on i s s1" using r by blast
    then have "wf_on {i} s1" by (simp add: reads_on_def)
    from handle_frame_safe [OF rt this] s1 show ?thesis using reads_on_trans [OF s1(2)] by fastforce
  qed
  obtain r b' where rb: "read_frames (pf_order pf) ?handle (inputBuffer c) (Some s) = (r, b')" by fastforce
  have "?P (Some s)" using reads_on_refl [OF wf] by blast
  from read_frames_keeps [of ?P "Some s" ?handle "inputBuffer c" "pf_order pf", OF this step c(2)] rb
  obtain s1 where s1: "r = Some s1" "reads_on i s s1" "buf_inv b'" by auto
  then obtain c' where c': "conns s1 i = Some c'" by (auto simp: reads_on_def touches_def)
  have "wf_on {i} s1" using s1(2) by (simp add: reads_on_def)
  from new_input_safe [OF this c' s1(3)] reads_on_trans [OF s1(2)] rb s1(1) c' c(1) show ?thesis
    by (simp add: onMessage_def)
qed

lemma handleRead_safe:
  assumes rt: "pb_runtime_ok (pf_rt pf)" and wf: "wf_on {i} s" and r: "r = ReadErr EAGAIN \<or> (\<exists>bs. r = ReadOk bs \<and> bs \<noteq> [])"
  shows "\<exists>s'. handleRead (Some (onMessage pf)) closeCb r i s = Some s' \<and> reads_on i s s'"
proof -
  obtain c where c: "conns s i = Some c" "buf_inv (inputBuffer c)"
    using wf_live [OF wf, of i] by (auto simp: conn_ok_def)
  from r show ?thesis
  proof
    assume "r = ReadErr EAGAIN"
    with c new_input_safe [OF wf c] show ?thesis by (simp add: handleRead_def readFd_Err)
  next
    assume "\<exists>bs. r = ReadOk bs \<and> bs \<noteq> []"
    then obtain bs where bs: "r = ReadOk bs" "bs \<noteq> []" by blast
    let ?s = "set_conn i (c\<lparr>inputBuffer := fill_input bs (inputBuffer c)\<rparr>) s"
    have inv: "buf_inv (fill_input bs (inputBuffer c))"
      using readFd_Ok [OF c(2), of bs 0] by (auto simp: fill_input_def)
    note fed = new_input_safe [OF wf c(1) inv]
    then have "wf_on {i} ?s" by (simp add: reads_on_def)
    from onMessage_safe [OF rt this] obtain s' where s': "onMessage pf i ?s = Some s'" "reads_on i ?s s'" by blast
    with bs c fill_input_readFd [OF c(2), of bs] reads_on_trans [OF fed s'(2)] show ?thesis
      by (simp add: handleRead_def Let_def)
  qed
qed

section \<open>Opening and closing\<close>

lemma newConnection_safe:
  assumes wf: "server_wf s"
  shows "\<exists>s'. newConnection pf fd peer s = Some s' \<and> server_wf s'
    \<and> (\<forall>j. j \<noteq> fresh_conn s \<longrightarrow> conns s' j = conns s j \<and> sent s' j = sent s j)
    \<and> heap s' (acceptor s) = heap s (acceptor s)"
proof -
  let ?i = "fresh_conn s" and ?p = "fresh_ptr s"
  obtain s' c ch where s': "newConnection pf fd peer s = Some s'" "conns s' = (conns s)(?i \<mapsto> c)"
      "conn_channel c = ?p" "heap s' = (heap s)(?p \<mapsto> ch)" "sent s' = sent s" "conn_ok ?i s'" "wired ?i ch"
      "connections s' = insert ?i (connections s)" "pool_tasks s' = pool_tasks s" "acceptor s' = acceptor s"
      "pendingFunctors s' = pendingFunctors s" "fresh_conn s' = Suc ?i" "fresh_ptr s' = Suc ?p"
    by (simp add: newConnection_def connectEstablished_def TcpConnection_new_def set_conn_def
        enableReading_def change_events_def conn_ok_def wired_def setReadCallback_def setWriteCallback_def
        setCloseCallback_def setErrorCallback_def Let_def)
  note f = wf_facts [OF wf]
  have old: "j < ?i \<and> conn_channel d < ?p \<and> conn_channel d \<noteq> acceptor s" if "conns s j = Some d" for j d
    using f(3) that by blast
  have new: "j = ?i \<and> d = c \<or> (j \<noteq> ?i \<and> conns s j = Some d)" if "conns s' j = Some d" for j d
    using that s'(2) by (auto split: if_splits)
  have "conn_ok j s'" if "referenced j s'" for j
  proof (cases "j = ?i")
    case False
    with that s' have "conn_ok j s" using wf_live [OF wf, of j] by (auto simp: referenced_def)
    with False s' old show ?thesis by (fastforce simp: conn_ok_def)
  qed (use s' in simp)
  moreover have "referenced j s'" if "conns s' j \<noteq> None" for j
    using that f(1) [of j] s' by (auto simp: referenced_def split: if_splits)
  moreover have "j = k" if "conns s' j = Some d" "conns s' k = Some e" "conn_channel d = conn_channel e" for j k d e
    using new [OF that(1)] new [OF that(2)] that(3) s'(3) old f(2) by (metis less_irrefl)
  moreover have "j < fresh_conn s' \<and> conn_channel d < fresh_ptr s' \<and> conn_channel d \<noteq> acceptor s'"
    if "conns s' j = Some d" for j d
    using new [OF that] s' old [of j d] f(5) by (auto simp: listening_def)
  moreover have "wired j ch'" if "conns s' j = Some d" "heap s' (conn_channel d) = Some ch'" for j d ch'
    using new [OF that(1)] that(2) s'(3,4,7) old [of j d] f(4) [of j d] by auto
  moreover have h: "heap s' (acceptor s) = heap s (acceptor s)" using s'(4) f(5) by (simp add: listening_def)
  moreover from this have "listening s'" using s' f(5) by (simp add: listening_def)
  ultimately have "server_wf s'" unfolding wf_on_def by blast
  moreover have "conns s' j = conns s j \<and> sent s' j = sent s j" if "j \<noteq> ?i" for j using that s'(2,5) by simp
  ultimately show ?thesis using s'(1) h by blast
qed

text \<open>What the destruction of connections leaves alone.\<close>

definition frees :: "('u, 'k) server \<Rightarrow> ('u, 'k) server \<Rightarrow> bool" where
  "frees s s' \<longleftrightarrow> connections s' = connections s \<and> pool_tasks s' = pool_tasks s \<and> sent s' = sent s
     \<and> pendingFunctors s' = pendingFunctors s \<and> fresh_conn s' = fresh_conn s \<and> threadId s' = threadId s
     \<and> (\<forall>i. conns s' i = conns s i \<or> conns s' i = None)"

lemma frees_refl: "frees s s"
  by (simp add: frees_def)

lemma frees_trans:
  assumes "frees s s1" and "frees s1 s2"
  shows "frees s s2"
proof -
  have "conns s2 i = conns s i \<or> conns s2 i = None" for i
    using assms unfolding frees_def by (cases "conns s2 i = conns s1 i") metis+
  with assms show ?thesis by (simp add: frees_def)
qed

text \<open>Destroying a connection nothing refers to.\<close>

lemma destroy_safe:
  assumes wf: "wf_on (insert i A) s" and free: "\<not> referenced i s" "i \<notin> A"
  shows "\<exists>s'. TcpConnection_destroy ctl closed i s = Some s' \<and> wf_on A s' \<and> frees s s'
    \<and> (\<forall>j. j \<noteq> i \<longrightarrow> conns s' j = conns s j) \<and> (\<forall>c. conns s i = Some c \<longrightarrow> heap s' (conn_channel c) = None)"
proof -
  obtain c ch where c: "conns s i = Some c" "heap s (conn_channel c) = Some ch"
    using wf_live [OF wf, of i] by (auto simp: conn_ok_def)
  then obtain s' where s': "TcpConnection_destroy ctl closed i s = Some s'" "conns s' = (conns s)(i := None)"
      "heap s' = (heap s)(conn_channel c := None)" "sent s' = sent s" "connections s' = connections s"
      "pool_tasks s' = pool_tasks s" "pendingFunctors s' = pendingFunctors s" "fresh_conn s' = fresh_conn s"
      "fresh_ptr s' = fresh_ptr s" "acceptor s' = acceptor s" "threadId s' = threadId s"
    by (simp add: TcpConnection_destroy_def Channel_destroy_def channel_remove_def change_events_def Let_def)
  note f = wf_facts [OF wf]
  have same: "referenced j s' \<longleftrightarrow> referenced j s" for j using s' by (simp add: referenced_def)
  have alive: "j \<noteq> i \<and> conns s j = Some d \<and> conn_channel d \<noteq> conn_channel c" if "conns s' j = Some d" for j d
    using that s'(2) f(2) [OF _ c(1)] by (auto split: if_splits)
  have "conn_ok j s'" if "referenced j s' \<or> j \<in> A" for j
  proof -
    have j: "conn_ok j s" "j \<noteq> i" using that free wf_live [OF wf] same by blast+
    then obtain d where d: "conns s j = Some d" by (auto simp: conn_ok_def)
    with j(2) f(2) [OF d c(1)] have "conn_channel d \<noteq> conn_channel c" by blast
    with j d s' show ?thesis by (auto simp: conn_ok_def)
  qed
  moreover have "referenced j s' \<or> j \<in> A" if "conns s' j \<noteq> None" for j
    using alive that f(1) [of j] same by fastforce
  moreover have "j = k" if "conns s' j = Some d" "conns s' k = Some e" "conn_channel d = conn_channel e" for j k d e
    using alive [OF that(1)] alive [OF that(2)] that(3) f(2) by blast
  moreover have "j < fresh_conn s' \<and> conn_channel d < fresh_ptr s' \<and> conn_channel d \<noteq> acceptor s'"
    if "conns s' j = Some d" for j d
    using alive [OF that] f(3) [of j d] s' by simp
  moreover have "wired j ch'" if "conns s' j = Some d" "heap s' (conn_channel d) = Some ch'" for j d ch'
    using alive [OF that(1)] that(2) s'(3) f(4) by auto
  moreover have "listening s'" using f(3) [OF c(1)] f(5) s' by (auto simp: listening_def)
  ultimately have "wf_on A s'" unfolding wf_on_def by blast
  with s' c show ?thesis by (intro exI [of _ s']) (simp add: frees_def)
qed

lemma release_safe:
  assumes "wf_on (insert i A) s" and "i \<notin> A"
  shows "\<exists>s'. release pf i s = Some s' \<and> wf_on A s' \<and> frees s s' \<and> (\<forall>j. j \<noteq> i \<longrightarrow> conns s' j = conns s j)"
proof (cases "referenced i s")
  case True
  with wf_weaken [OF assms(1), of A] show ?thesis by (auto simp: release_def frees_refl)
next
  case False
  with destroy_safe [OF assms(1) False assms(2), of "pf_ctl pf" "pf_close pf"] show ?thesis
    by (auto simp: release_def)
qed

lemma alive_live:
  assumes "server_wf s" and "conns s i = Some c"
  shows "referenced i s" "conn_ok i s" "wf_on {i} s"
proof -
  show r: "referenced i s" using wf_facts(1) [OF assms(1), of i] assms(2) by simp
  show ok: "conn_ok i s" using wf_live [OF assms(1)] r by blast
  show "wf_on {i} s" using assms(1) ok unfolding wf_on_def by (intro conjI) blast+
qed

text \<open>The close callback destroys the connection unless a task or a functor refers to it.\<close>

lemma server_close_safe:
  assumes wf: "server_wf s" and c: "conns s i = Some c"
  shows "\<exists>s'. server_close pf i s = Some s' \<and> server_wf s' \<and> frees (s\<lparr>connections := connections s - {i}\<rparr>) s'
    \<and> (\<forall>j. j \<noteq> i \<longrightarrow> conns s' j = conns s j)
    \<and> heap s' (conn_channel c) = (if last_reference i s then None else heap s (conn_channel c))"
proof -
  let ?s = "s\<lparr>connections := connections s - {i}\<rparr>"
  have last: "referenced i ?s \<longleftrightarrow> \<not> last_reference i s" by (simp add: referenced_def last_reference_def)
  have other: "referenced j s \<longleftrightarrow> referenced j ?s" if "j \<noteq> i" for j using that by (simp add: referenced_def)
  have "conn_ok j ?s \<longleftrightarrow> conn_ok j s" for j by (simp add: conn_ok_def)
  then have wf1: "wf_on {i} ?s"
    using alive_live(3) [OF wf c] wf other unfolding wf_on_def by (auto simp: listening_def referenced_def)
  show ?thesis
  proof (cases "last_reference i s")
    case False
    then show ?thesis using wf_weaken [OF wf1, of "{}"] last by (simp add: server_close_def release_def frees_refl)
  next
    case True
    with destroy_safe [OF wf1, of "pf_ctl pf" "pf_close pf"] last c show ?thesis
      by (auto simp: server_close_def release_def)
  qed
qed

section \<open>Answers of the pool and functors of the loop\<close>

lemma run_functors_safe:
  assumes "wf_on A s" and "functor_conn ` set fs \<subseteq> A"
  shows "\<exists>s'. run_functors (run_functor pf) fs s = Some s' \<and> wf_on A s'"
  using assms
proof (induction fs arbitrary: s)
  case Nil
  then show ?case by simp
next
  case (Cons f fs)
  obtain i reqId payload where f: "f = SendResponse i reqId payload" by (cases f)
  with Cons.prems have i: "i \<in> A" by simp
  from conn_send_safe [OF Cons.prems(1) wf_live [OF Cons.prems(1)]] i obtain s1
    where "conn_send pf i (packWithId (pf_order pf) reqId payload) s = Some s1" "wf_on (insert i A) s1" by blast
  with Cons.IH [of s1] Cons.prems(2) f i show ?case
    by (auto simp: run_functor_def insert_absorb)
qed

lemma drop_functors_safe:
  assumes "wf_on (functor_conn ` set fs) s"
  shows "\<exists>s'. drop_functors pf fs s = Some s' \<and> server_wf s' \<and> frees s s'"
  using assms
proof (induction fs arbitrary: s)
  case Nil
  then show ?case by (simp add: frees_refl)
next
  case (Cons f fs)
  show ?case
  proof (cases "functor_conn f \<in> functor_conn ` set fs")
    case True
    with Cons.IH [of s] Cons.prems show ?thesis by (simp add: insert_absorb)
  next
    case False
    with release_safe [of "functor_conn f" "functor_conn ` set fs" s pf] Cons.prems obtain s1
      where "release pf (functor_conn f) s = Some s1" "wf_on (functor_conn ` set fs) s1" "frees s s1" by auto
    with Cons.IH [of s1] False frees_trans show ?thesis by fastforce
  qed
qed

lemma functors_taken_wf:
  assumes "server_wf s"
  shows "wf_on (functor_conn ` set (pendingFunctors s)) (s\<lparr>pendingFunctors := []\<rparr>)"
proof -
  let ?s = "s\<lparr>pendingFunctors := []\<rparr>"
  have "referenced i s \<longleftrightarrow> referenced i ?s \<or> i \<in> functor_conn ` set (pendingFunctors s)" for i
    by (auto simp: referenced_def)
  moreover have "conn_ok i ?s = conn_ok i s" for i by (simp add: conn_ok_def)
  ultimately show ?thesis using assms unfolding wf_on_def by (simp add: listening_def)
qed

lemma drain_safe:
  assumes "server_wf s"
  shows "\<exists>s1 s'. doPendingFunctors (run_functor pf) s = Some s1 \<and> drop_functors pf (pendingFunctors s) s1 = Some s'
    \<and> run_pending pf s = Some s' \<and> server_wf s' \<and> frees s1 s'"
proof -
  obtain s1 where s1: "doPendingFunctors (run_functor pf) s = Some s1" "wf_on (functor_conn ` set (pendingFunctors s)) s1"
    using run_functors_safe [OF functors_taken_wf [OF assms] order.refl] unfolding doPendingFunctors_def by blast
  from drop_functors_safe [OF s1(2), of pf] s1(1) show ?thesis by (auto simp: run_pending_def)
qed

definition services_defined :: "'u pb_runtime \<Rightarrow> 'msg message_ops \<Rightarrow> ('mth, 'msg) service_registry \<Rightarrow> bool" where
  "services_defined rt ops reg \<longleftrightarrow> (\<forall>request. \<exists>rsp. dispatchRequest rt ops reg request = Returned rsp)"

lemma task_taken_wf:
  assumes "server_wf s" and "k < length (pool_tasks s)"
  shows "wf_on {task_conn (pool_tasks s ! k)}
    (s\<lparr>pool_tasks := take k (pool_tasks s) @ drop (Suc k) (pool_tasks s)\<rparr>)"
proof -
  let ?s = "s\<lparr>pool_tasks := take k (pool_tasks s) @ drop (Suc k) (pool_tasks s)\<rparr>"
  have "set (pool_tasks s) = insert (pool_tasks s ! k) (set (pool_tasks ?s))"
    using arg_cong [OF id_take_nth_drop [OF assms(2)], of set] by simp
  then have "referenced i s \<longleftrightarrow> referenced i ?s \<or> i = task_conn (pool_tasks s ! k)" for i
    by (auto simp: referenced_def)
  moreover have "conn_ok i ?s = conn_ok i s" for i by (simp add: conn_ok_def)
  ultimately show ?thesis using assms(1) unfolding wf_on_def by (auto simp: listening_def)
qed

text \<open>A functor is queued, or run at once if the thread is the loop's.\<close>

lemma run_in_loop_safe:
  assumes wf: "wf_on {i} s" and f: "functor_conn f = i"
  shows "\<exists>s'. runInLoop (run_functor pf) me f s = Some s' \<and> wf_on {i} s'"
proof (cases "isInLoopThread me s")
  case True
  with run_functors_safe [OF wf, of "[f]" pf] f show ?thesis by (auto simp: runInLoop_def bind_eq_Some_conv)
next
  case False
  let ?s' = "queueInLoop me f s"
  have q: "conns ?s' = conns s" "heap ?s' = heap s" "connections ?s' = connections s" "pool_tasks ?s' = pool_tasks s"
      "pendingFunctors ?s' = pendingFunctors s @ [f]" "fresh_conn ?s' = fresh_conn s" "fresh_ptr ?s' = fresh_ptr s"
      "acceptor ?s' = acceptor s"
    by (simp_all add: queueInLoop_def push_functor_def wakeup_def Let_def)
  have "referenced j ?s' \<longleftrightarrow> referenced j s \<or> j = i" for j using f by (auto simp: referenced_def q)
  moreover have "conn_ok j ?s' = conn_ok j s" for j by (simp add: conn_ok_def q)
  ultimately have "wf_on {i} ?s'" using wf unfolding wf_on_def by (auto simp: listening_def q)
  with False show ?thesis by (simp add: runInLoop_def)
qed

lemma work_safe:
  assumes wf: "server_wf s" and k: "k < length (pool_tasks s)" and svc: "services_defined (pf_rt pf) ops reg"
  defines "t \<equiv> pool_tasks s ! k"
  shows "\<exists>s1 s'. run_task pf ops reg me t (s\<lparr>pool_tasks := take k (pool_tasks s) @ drop (Suc k) (pool_tasks s)\<rparr>) = Some s1
    \<and> serve_event pf ops reg (Work me k) s = Some s' \<and> server_wf s' \<and> frees s1 s'"
proof -
  let ?s = "s\<lparr>pool_tasks := take k (pool_tasks s) @ drop (Suc k) (pool_tasks s)\<rparr>"
  obtain rsp where rsp: "dispatchRequest (pf_rt pf) ops reg (task_request t) = Returned rsp"
    using svc by (auto simp: services_defined_def)
  let ?f = "SendResponse (task_conn t) (task_id t) (RpcResponse_InternalSerialize (pf_rt pf) rsp)"
  obtain s1 where s1: "runInLoop (run_functor pf) me ?f ?s = Some s1" "wf_on {task_conn t} s1"
    using run_in_loop_safe [OF task_taken_wf [OF wf k], of ?f pf me] by (auto simp: t_def)
  with release_safe [of "task_conn t" "{}" s1 pf] rsp show ?thesis
    by (auto simp: run_task_def complete_task_def simp flip: t_def)
qed

section \<open>Events of channels\<close>

text \<open>Before a channel handles its events the loop stores them in it.\<close>

definition mark :: "ptr \<Rightarrow> uint32 \<Rightarrow> ('u, 'k) server \<Rightarrow> ('u, 'k) server" where
  "mark p ev s = s\<lparr>heap := (heap s)(p := map_option (set_revents ev) (heap s p))\<rparr>"

lemma mark_simps [simp]:
  "conns (mark p ev s) = conns s" "sent (mark p ev s) = sent s" "connections (mark p ev s) = connections s"
  "pool_tasks (mark p ev s) = pool_tasks s" "pendingFunctors (mark p ev s) = pendingFunctors s"
  "fresh_conn (mark p ev s) = fresh_conn s" "fresh_ptr (mark p ev s) = fresh_ptr s" "acceptor (mark p ev s) = acceptor s"
  "threadId (mark p ev s) = threadId s" "heap (mark p ev s) p = map_option (set_revents ev) (heap s p)"
  "referenced i (mark p ev s) = referenced i s" "last_reference i (mark p ev s) = last_reference i s"
  "unsent i (mark p ev s) = unsent i s"
  by (simp_all add: mark_def referenced_def last_reference_def unsent_def)

lemma mark_wf [simp]: "wf_on A (mark p ev s) = wf_on A s"
proof -
  have h: "heap (mark p ev s) q = (if q = p then map_option (set_revents ev) (heap s p) else heap s q)" for q
    by (simp add: mark_def)
  have "conn_ok i (mark p ev s) = conn_ok i s" for i
    by (auto simp: conn_ok_def mark_def isWriting_def set_revents_def)
  moreover have "(\<forall>ch. heap (mark p ev s) q = Some ch \<longrightarrow> wired i ch) \<longleftrightarrow> (\<forall>ch. heap s q = Some ch \<longrightarrow> wired i ch)" for i q
    unfolding h by (cases "heap s q") (auto simp: wired_def set_revents_def)
  then have "(\<forall>i c ch. conns s i = Some c \<longrightarrow> heap (mark p ev s) (conn_channel c) = Some ch \<longrightarrow> wired i ch)
      \<longleftrightarrow> (\<forall>i c ch. conns s i = Some c \<longrightarrow> heap s (conn_channel c) = Some ch \<longrightarrow> wired i ch)"
    by blast
  moreover have "listening (mark p ev s) = listening s"
    by (auto simp: listening_def mark_def set_revents_def)
  ultimately show ?thesis by (simp add: wf_on_def)
qed

lemma process_one:
  assumes "heap s p = Some ch"
  shows "process_events run [(p, ev)] s = handleEvent run p (mark p ev s)"
proof -
  have "mark p ev s = s\<lparr>heap := (heap s)(p \<mapsto> set_revents ev ch)\<rparr>" using assms by (simp add: mark_def)
  moreover have "process_events run [(p, ev)] s = handleEvent run p (s\<lparr>heap := (heap s)(p \<mapsto> set_revents ev ch)\<rparr>)"
    using assms by (cases "handleEvent run p (s\<lparr>heap := (heap s)(p \<mapsto> set_revents ev ch)\<rparr>)") simp_all
  ultimately show ?thesis by simp
qed

text \<open>The acceptor's channel.\<close>

lemma accept_event:
  assumes "server_wf s"
  shows "serve_event pf ops reg (Accept fd peer) s
    = Acceptor_handleRead pf (Some (newConnection pf)) (fd, peer) (mark (acceptor s) EPOLLIN s)"
proof -
  let ?s = "mark (acceptor s) EPOLLIN s"
  obtain ch where ch: "heap s (acceptor s) = Some ch" "readCallback ch = Some AcceptRead"
    using wf_facts(5) [OF assms] by (auto simp: listening_def)
  have "server_wf ?s" using assms by simp
  from newConnection_safe [OF this, of pf fd peer]
  obtain s0 where "newConnection pf fd peer ?s = Some s0" "heap s0 (acceptor s) = heap ?s (acceptor s)" by auto
  then obtain s1 where s1: "Acceptor_handleRead pf (Some (newConnection pf)) (fd, peer) ?s = Some s1"
      "heap s1 (acceptor s) = heap ?s (acceptor s)"
    by (cases "0 \<le> fd") (simp_all add: Acceptor_handleRead_def)
  have "heap ?s (acceptor s) = Some (set_revents EPOLLIN ch)" using ch(1) by simp
  from handle_event_read [OF this, of AcceptRead "server_callback pf (\<lambda>_. ReadErr EAGAIN) (fd, peer)" s1] ch s1
  have "handleEvent (server_callback pf (\<lambda>_. ReadErr EAGAIN) (fd, peer)) (acceptor s) ?s = Some s1"
    by (simp add: set_revents_def epoll_bits server_callback_def)
  with process_one [OF ch(1)] s1(1) show ?thesis by simp
qed

text \<open>A connection's channel runs the callback of the event; after a read event it has to be alive.\<close>

lemma write_event:
  assumes "server_wf s" and "conns s i = Some c"
  shows "conn_event pf r i EPOLLOUT s = handleWrite (pf_ctl pf) (pf_write pf i (sent s i) (unsent i s)) i
    (mark (conn_channel c) EPOLLOUT s)"
proof -
  obtain ch where ch: "heap s (conn_channel c) = Some ch" "wired i ch"
    using alive_live(2) [OF assms] wf_facts(4) [OF assms(1) assms(2)] assms(2) by (auto simp: conn_ok_def)
  have h: "heap (mark (conn_channel c) EPOLLOUT s) (conn_channel c) = Some (set_revents EPOLLOUT ch)" using ch(1) by simp
  show ?thesis
    using ch unfolding conn_event_def assms(2) option.case process_one [OF ch(1)] handleEvent_def h
    by (simp add: wired_def set_revents_def epoll_bits call_def server_callback_def)
qed

lemma close_event:
  assumes "server_wf s" and "conns s i = Some c" and "ev = EPOLLHUP \<or> ev = EPOLLERR"
  shows "conn_event pf r i ev s = server_close pf i (mark (conn_channel c) ev s)"
proof -
  obtain ch where ch: "heap s (conn_channel c) = Some ch" "wired i ch"
    using alive_live(2) [OF assms(1,2)] wf_facts(4) [OF assms(1,2)] assms(2) by (auto simp: conn_ok_def)
  have h: "heap (mark (conn_channel c) ev s) (conn_channel c) = Some (set_revents ev ch)" using ch(1) by simp
  show ?thesis
    using ch(2) assms(3) unfolding conn_event_def assms(2) option.case process_one [OF ch(1)] handleEvent_def h
    by (elim disjE) (simp_all add: wired_def set_revents_def epoll_bits call_def server_callback_def handleClose_def)
qed

lemma read_event:
  assumes "server_wf s" and "conns s i = Some c"
    and "handleRead (Some (onMessage pf)) (Some (server_close pf)) r i (mark (conn_channel c) EPOLLIN s) = Some s1"
    and "heap s1 (conn_channel c) = None
      \<or> events_only (heap (mark (conn_channel c) EPOLLIN s) (conn_channel c)) (heap s1 (conn_channel c))"
  shows "conn_event pf r i EPOLLIN s = (if heap s1 (conn_channel c) = None then None else Some s1)"
proof -
  let ?s = "mark (conn_channel c) EPOLLIN s"
  obtain ch where ch: "heap s (conn_channel c) = Some ch" "wired i ch"
    using alive_live(2) [OF assms(1,2)] wf_facts(4) [OF assms(1,2)] assms(2) by (auto simp: conn_ok_def)
  have h: "heap ?s (conn_channel c) = Some (set_revents EPOLLIN ch)" using ch(1) by simp
  have "server_callback pf (\<lambda>_. r) no_answer (HandleRead i) ?s = Some s1"
    using assms(3) by (simp add: server_callback_def)
  from handle_event_read [where run = "server_callback pf (\<lambda>_. r) no_answer" and cb = "HandleRead i", OF h _ _ _ this] ch(2)
  have "handleEvent (server_callback pf (\<lambda>_. r) no_answer) (conn_channel c) ?s = (case heap s1 (conn_channel c) of
      None \<Rightarrow> None
    | Some ch1 \<Rightarrow> if ch_revents ch1 AND EPOLLOUT \<noteq> 0
        then call (server_callback pf (\<lambda>_. r) no_answer) (writeCallback ch1) s1 else Some s1)"
    by (simp add: set_revents_def epoll_bits wired_def)
  with assms(4) h process_one [OF ch(1)] assms(2) show ?thesis
    by (auto simp: conn_event_def events_only_Some set_revents_def epoll_bits simp del: process_events.simps)
qed

text \<open>Read events that deliver data or nothing.\<close>

lemma data_event:
  assumes rt: "pb_runtime_ok (pf_rt pf)" and wf: "server_wf s" and c: "conns s i = Some c"
    and r: "r = ReadErr EAGAIN \<or> (\<exists>bs. r = ReadOk bs \<and> bs \<noteq> [])"
  defines "s0 \<equiv> mark (conn_channel c) EPOLLIN s"
  shows "\<exists>s'. conn_event pf r i EPOLLIN s = Some s' \<and> reads_on i s0 s' \<and> server_wf s'
    \<and> handleRead (Some (onMessage pf)) (Some (server_close pf)) r i s0 = Some s'"
proof -
  have wf0: "wf_on {i} s0" using alive_live(3) [OF wf c] by (simp add: s0_def)
  from handleRead_safe [OF rt wf0 r, of "Some (server_close pf)"] obtain s'
    where s': "handleRead (Some (onMessage pf)) (Some (server_close pf)) r i s0 = Some s'" "reads_on i s0 s'" by blast
  then have t: "touches i s0 s'" "wf_on {i} s'" by (simp_all add: reads_on_def)
  have c0: "conns s0 i = Some c" using c by (simp add: s0_def)
  with t(1) have e: "events_only (heap s0 (conn_channel c)) (heap s' (conn_channel c))"
    unfolding touches_def by auto
  have "heap s (conn_channel c) \<noteq> None" using alive_live(2) [OF wf c] c by (auto simp: conn_ok_def)
  with e have alive: "heap s' (conn_channel c) \<noteq> None"
    by (cases "heap s' (conn_channel c)") (auto simp: s0_def events_only_None)
  have "conn_event pf r i EPOLLIN s = Some s'"
    using read_event [OF wf c s'(1) [unfolded s0_def]] e alive unfolding s0_def by auto
  moreover have "referenced i s'"
    using alive_live(1) [OF wf c] s'(2) by (auto simp: reads_on_def touches_def referenced_def s0_def)
  then have "server_wf s'" using wf_weaken [OF t(2), of "{}"] by simp
  ultimately show ?thesis using s' by blast
qed

text \<open>Read events that end in \<open>handleClose\<close>: the buffer is as it was, and the connection is closed.\<close>

lemma closing_read:
  assumes wf: "server_wf s" and c: "conns s i = Some c" and r: "r = ReadOk [] \<or> (\<exists>e. r = ReadErr e \<and> e \<noteq> EAGAIN)"
  defines "s0 \<equiv> mark (conn_channel c) EPOLLIN s"
  shows "\<exists>b s'. server_close pf i (set_conn i (c\<lparr>inputBuffer := b\<rparr>) s0) = Some s'
    \<and> server_wf (set_conn i (c\<lparr>inputBuffer := b\<rparr>) s0) \<and> contents b = contents (inputBuffer c)
    \<and> conn_event pf r i EPOLLIN s = (if last_reference i s then None else Some s')"
proof -
  have wf0: "wf_on {i} s0" and c0: "conns s0 i = Some c" using alive_live(3) [OF wf c] c by (simp_all add: s0_def)
  have inv: "buf_inv (inputBuffer c)" using alive_live(2) [OF wf c] c by (auto simp: conn_ok_def)
  define b where "b = snd (snd (readFd r 0 (inputBuffer c)))"
  have b: "buf_inv b" "contents b = contents (inputBuffer c)"
    using r inv fill_input_readFd [OF inv, of "[]"] srv.inv_fill [OF inv, of "[]"] srv.abs_fill [OF inv, of "[]"]
    by (auto simp: b_def readFd_Err)
  let ?s1 = "set_conn i (c\<lparr>inputBuffer := b\<rparr>) s0"
  have "reads_on i s0 ?s1" by (rule new_input_safe [OF wf0 c0 b(1)])
  then have wf1: "wf_on {i} ?s1" by (simp add: reads_on_def)
  moreover have "referenced i ?s1" using alive_live(1) [OF wf c] by (simp add: referenced_def set_conn_def s0_def)
  ultimately have wf1: "server_wf ?s1" using wf_weaken by blast
  have c1: "conns ?s1 i = Some (c\<lparr>inputBuffer := b\<rparr>)" by simp
  from server_close_safe [OF wf1 c1, of pf] obtain s' where s': "server_close pf i ?s1 = Some s'"
      "heap s' (conn_channel c) = (if last_reference i s then None else heap s0 (conn_channel c))"
    by (auto simp: last_reference_def set_conn_def s0_def)
  have read: "handleRead (Some (onMessage pf)) (Some (server_close pf)) r i s0 = Some s'"
    using r c0 s'(1) fill_input_readFd [OF inv, of "[]"]
    by (auto simp: handleRead_def handleClose_def readFd_Err b_def EWOULDBLOCK_def EAGAIN_def Let_def)
  have "heap s (conn_channel c) \<noteq> None" using alive_live(2) [OF wf c] c by (auto simp: conn_ok_def)
  then have "conn_event pf r i EPOLLIN s = (if last_reference i s then None else Some s')"
    using read_event [OF wf c read [unfolded s0_def]] s'(2) by (auto simp: s0_def)
  with s'(1) wf1 b(2) show ?thesis by blast
qed

text \<open>
  Every closing event, unless it is faulty, is the close callback on the connection, from a state that
  differs from the given one in its channel and the consumed part of its input buffer at most.
\<close>

definition nearly :: "nat \<Rightarrow> ('u, 'k) server \<Rightarrow> ('u, 'k) server \<Rightarrow> bool" where
  "nearly i s s0 \<longleftrightarrow> connections s0 = connections s \<and> pool_tasks s0 = pool_tasks s \<and> sent s0 = sent s
     \<and> pendingFunctors s0 = pendingFunctors s \<and> fresh_conn s0 = fresh_conn s \<and> threadId s0 = threadId s
     \<and> (\<forall>j. j \<noteq> i \<longrightarrow> conns s0 j = conns s j) \<and> unsent i s0 = unsent i s
     \<and> map_option (\<lambda>c. contents (inputBuffer c)) (conns s0 i) = map_option (\<lambda>c. contents (inputBuffer c)) (conns s i)"

lemma nearly_mark: "nearly i s (mark p ev s)"
  by (simp add: nearly_def)

lemma closing_event:
  assumes wf: "server_wf s" and ev: "closes i ev" "event_enabled ev s" "\<not> closed_while_reading ev s"
  shows "\<exists>s0 s' c. serve_event pf ops reg ev s = Some s' \<and> server_close pf i s0 = Some s' \<and> server_wf s0
    \<and> conns s0 i = Some c \<and> nearly i s s0"
proof -
  have alive: "conns s i \<noteq> None" using ev(1,2) by (cases ev) auto
  then obtain c where c: "conns s i = Some c" by blast
  have near: "nearly i s (set_conn i (c\<lparr>inputBuffer := b\<rparr>) (mark p EPOLLIN s))"
    if "contents b = contents (inputBuffer c)" for b p
    using c that by (simp add: nearly_def set_conn_def unsent_def)
  have reading: ?thesis if "serve_event pf ops reg ev s = conn_event pf r i EPOLLIN s" "\<not> last_reference i s"
      "r = ReadOk [] \<or> (\<exists>e. r = ReadErr e \<and> e \<noteq> EAGAIN)" for r
    using closing_read [OF wf c that(3), of pf] that(1,2) near by fastforce
  have polled: ?thesis if "serve_event pf ops reg ev s = conn_event pf r i e s" "e = EPOLLHUP \<or> e = EPOLLERR" for r e
  proof -
    have "conns (mark (conn_channel c) e s) i = Some c" using c by simp
    with server_close_safe [of "mark (conn_channel c) e s" i c pf] wf close_event [OF wf c that(2), of pf r] that(1)
    show ?thesis using nearly_mark c by fastforce
  qed
  show ?thesis
  proof (cases ev)
    case (Eof j)
    with ev show ?thesis by (intro reading [of "ReadOk []"]) simp_all
  next
    case (ReadFails j e)
    with ev show ?thesis by (intro reading [of "ReadErr e"]) simp_all
  next
    case (PeerClosed j)
    with ev show ?thesis by (intro polled [of "ReadErr EAGAIN" EPOLLHUP]) simp_all
  next
    case (PeerError j)
    with ev show ?thesis by (intro polled [of "ReadErr EAGAIN" EPOLLERR]) simp_all
  qed (use ev(1) in simp_all)
qed

lemma faulty_undefined:
  assumes "server_wf s" and "event_enabled ev s" and "closed_while_reading ev s"
  shows "serve_event pf ops reg ev s = None"
proof (cases ev)
  case (Eof i)
  with assms obtain c where "conns s i = Some c" by auto
  from closing_read [OF assms(1) this, of "ReadOk []" pf] assms(3) Eof show ?thesis by auto
next
  case (ReadFails i e)
  with assms obtain c where "conns s i = Some c" by auto
  from closing_read [OF assms(1) this, of "ReadErr e" pf] assms(2,3) ReadFails show ?thesis by auto
qed (use assms(3) in simp_all)

section \<open>The server is a guarded system\<close>

definition serving :: "('u, 'k) platform \<Rightarrow> 'msg message_ops \<Rightarrow> ('mth, 'msg) service_registry \<Rightarrow> ('u, 'k) server \<Rightarrow> bool" where
  "serving pf ops reg s \<longleftrightarrow> pb_runtime_ok (pf_rt pf) \<and> services_defined (pf_rt pf) ops reg \<and> server_wf s"

lemma serve_progress:
  assumes "serving pf ops reg s" and en: "event_enabled ev s" and ok: "\<not> closed_while_reading ev s"
  shows "\<exists>s'. serve_event pf ops reg ev s = Some s' \<and> serving pf ops reg s'"
proof -
  have wf: "server_wf s" and rt: "pb_runtime_ok (pf_rt pf)" and svc: "services_defined (pf_rt pf) ops reg"
    using assms(1) by (simp_all add: serving_def)
  have close: "\<exists>s'. serve_event pf ops reg ev s = Some s' \<and> server_wf s'" if "closes i ev" for i
  proof -
    from closing_event [OF wf that en ok, of pf ops reg] obtain s0 s' c
      where "serve_event pf ops reg ev s = Some s'" "server_close pf i s0 = Some s'" "server_wf s0" "conns s0 i = Some c"
      by blast
    with server_close_safe [of s0 i c pf] show ?thesis by auto
  qed
  have "\<exists>s'. serve_event pf ops reg ev s = Some s' \<and> server_wf s'"
  proof (cases ev)
    case (Accept fd peer)
    with newConnection_safe [of "mark (acceptor s) EPOLLIN s" pf fd peer] wf accept_event [OF wf, of pf ops reg fd peer]
    show ?thesis by (auto simp: Acceptor_handleRead_def)
  next
    case (Data i bs)
    with en data_event [OF rt wf, of i _ "ReadOk bs"] show ?thesis by auto
  next
    case (Retry i)
    with en data_event [OF rt wf, of i _ "ReadErr EAGAIN"] show ?thesis by auto
  next
    case (CanWrite i)
    with en obtain c where c: "conns s i = Some c" by auto
    let ?s = "mark (conn_channel c) EPOLLOUT s"
    have "conn_ok i ?s" using alive_live(2) [of ?s i c] wf c by simp
    from write_safe [of "{}" ?s i "pf_ctl pf" "pf_write pf i (sent s i) (unsent i s)", OF _ this] wf
      write_event [OF wf c, of pf "ReadErr EAGAIN"] CanWrite
    show ?thesis by auto
  next
    case (Work me k)
    with en work_safe [OF wf _ svc, of k me] show ?thesis by auto
  next
    case Drain
    with drain_safe [OF wf, of pf] show ?thesis by auto
  next
    case Wakeup
    with wf show ?thesis
      by (auto simp: server_callback_def read_wakeup_def wf_on_def referenced_def conn_ok_def listening_def)
  qed (use close in auto)
  with rt svc show ?thesis by (auto simp: serving_def)
qed

interpretation server_runs: guarded_system "serving pf ops reg" event_enabled closed_while_reading
  "serve_event pf ops reg" for pf ops reg
  by unfold_locales (rule serve_progress, auto simp: serving_def intro: faulty_undefined)

lemma started_wf:
  assumes "RpcServer_new sys_bind sockfd addr p lp = Proceed s0" and "pendingFunctors lp = []"
    and "RpcServer_start sys_listen ctl p s0 = Proceed (Some s1)"
  shows "server_wf s1"
proof -
  have "conns s1 = Map.empty \<and> connections s1 = {} \<and> pool_tasks s1 = [] \<and> pendingFunctors s1 = [] \<and> listening s1"
    using assms
    by (auto simp: RpcServer_new_def RpcServer_start_def Acceptor_new_def Acceptor_listen_def enableReading_def
        change_events_def listening_def setReadCallback_def Let_def split: process.splits option.splits)
  then show ?thesis by (simp add: wf_on_def referenced_def)
qed

section \<open>Properties\<close>

text \<open>
  C24: the end of a connection is the only way into undefined behaviour.  From a started server, for every
  sequence of accepted connections, arriving data (well-formed or not), spurious read events, ends of streams,
  failing reads, write events with any partial writes, hangups, errors, tasks finished by any thread in any
  order, drained functors and wakeups, on any number of connections and each handled by
  \<open>Channel::handleEvent\<close>: the run reaches a destroyed object exactly if some read event meets the end of the
  stream or an error of \<open>read\<close> on a connection that no task of the pool and no functor of the loop refers to
  (then the close callback destroys the channel whose event is being handled).  In every other run each
  connection is alive exactly as long as the server, a task or a functor refers to it, and each living
  connection has its channel, its buffers intact and its unsent bytes watched for.  The services must be
  defined on every request.
\<close>

theorem server_faults_at_eof:
  assumes "pb_runtime_ok (pf_rt pf)" and "services_defined (pf_rt pf) ops reg"
    and "RpcServer_new sys_bind sockfd addr p lp = Proceed s0" and "pendingFunctors lp = []"
    and "RpcServer_start sys_listen ctl p s0 = Proceed (Some s1)"
  shows "case run_all event_enabled (serve_event pf ops reg) evs s1 of
      None \<Rightarrow> faults event_enabled closed_while_reading (serve_event pf ops reg) evs s1
    | Some s \<Rightarrow> \<not> faults event_enabled closed_while_reading (serve_event pf ops reg) evs s1
        \<and> (\<forall>i. conns s i \<noteq> None \<longleftrightarrow> referenced i s) \<and> (\<forall>i. conns s i = None \<or> conn_ok i s)"
proof -
  have start: "serving pf ops reg s1" using assms(1,2) started_wf [OF assms(3-5)] by (simp add: serving_def)
  show ?thesis
  proof (cases "faults event_enabled closed_while_reading (serve_event pf ops reg) evs s1")
    case True
    with server_runs.runs_undefined [OF start True] show ?thesis by simp
  next
    case False
    with server_runs.runs_defined [OF start False] obtain s
      where s: "run_all event_enabled (serve_event pf ops reg) evs s1 = Some s" "server_wf s" by (auto simp: serving_def)
    have live: "referenced i s" "conn_ok i s" if "conns s i \<noteq> None" for i
      using wf_facts(1) [OF s(2) that] wf_live [OF s(2), of i] by simp_all
    have "conns s i \<noteq> None" if "referenced i s" for i
      using conn_ok_some [OF wf_live [OF s(2), of i]] that by auto
    with live have "\<forall>i. conns s i \<noteq> None \<longleftrightarrow> referenced i s" "\<forall>i. conns s i = None \<or> conn_ok i s" by blast+
    with s(1) False show ?thesis by (simp del: not_None_eq)
  qed
qed

lemma echo_defined: "services_defined varint_runtime echo_ops (service_register echo_service Map.empty)"
  by (auto simp: services_defined_def dispatch_defs echo_ops_def echo_service_def service_register_def
      split: option.splits)

definition sample_loop :: "(callback, loop_functor, int \<rightharpoonup> uint32 \<times> ptr) EventLoop" where
  "sample_loop = \<lparr>kernel = Map.empty, events_size = 16, channels = Map.empty, heap = Map.empty, looping = False,
     quitting = False, threadId = 0, pendingFunctors = [], wakeups = 0\<rparr>"

lemma sample_server_starts:
  "\<exists>s0 s1. RpcServer_new (\<lambda>_ _. 0) 5 InetAddress_default 1 sample_loop = Proceed (s0 :: (bytes, int \<rightharpoonup> uint32 \<times> ptr) server)
     \<and> RpcServer_start (\<lambda>_. 0) map_ctl 1 s0 = Proceed (Some s1)"
  by (simp add: RpcServer_new_def RpcServer_start_def Acceptor_new_def Acceptor_listen_def Socket_new_def Socket_bind_def
      Socket_listen_def sample_loop_def enableReading_def change_events_def Let_def)

text \<open>Without an end of stream or a failing read there is no fault.\<close>

lemma no_faults:
  fixes s :: "('u, 'k) server"
  assumes "\<forall>ev \<in> set evs. \<forall>i e. ev \<noteq> Eof i \<and> ev \<noteq> ReadFails i e"
  shows "\<not> faults en closed_while_reading step evs s"
proof
  assume "faults en closed_while_reading step evs s"
  from faults_event [OF this] obtain ev and s1 :: "('u, 'k) server"
    where "ev \<in> set evs" "closed_while_reading ev s1" by (elim bexE exE) simp
  with assms have "\<forall>i e. ev \<noteq> Eof i \<and> ev \<noteq> ReadFails i e" by blast
  with \<open>closed_while_reading ev s1\<close> show False by (cases ev) simp_all
qed

lemma server_faults_at_eof_witness:
  "\<exists>s1 s. run_all event_enabled (serve_event sample_platform echo_ops (service_register echo_service Map.empty))
     [Accept 7 ''a'', Accept 8 ''b'', Data 0 ''junk'', Data 1 (packWithId BigEndian 1 ''x''), Work 3 0, PeerClosed 1, Drain] s1
     = Some s \<and> (\<forall>i. conns s i \<noteq> None \<longleftrightarrow> referenced i s)"
proof -
  obtain s0 s1 :: "(bytes, int \<rightharpoonup> uint32 \<times> ptr) server"
    where "RpcServer_new (\<lambda>_ _. 0) 5 InetAddress_default 1 sample_loop = Proceed s0"
      "RpcServer_start (\<lambda>_. 0) map_ctl 1 s0 = Proceed (Some s1)"
    using sample_server_starts by blast
  note run = server_faults_at_eof [OF _ _ this(1) _ this(2), of sample_platform echo_ops
      "service_register echo_service Map.empty"]
  let ?evs = "[Accept 7 ''a'', Accept 8 ''b'', Data 0 ''junk'', Data 1 (packWithId BigEndian 1 ''x''), Work 3 0,
      PeerClosed 1, Drain]"
  have "\<not> faults event_enabled closed_while_reading
      (serve_event sample_platform echo_ops (service_register echo_service Map.empty)) ?evs s1"
    by (rule no_faults) simp
  with run [of ?evs] vrt.pb_runtime_ok_axioms echo_defined show ?thesis
    by (auto simp: sample_platform_def sample_loop_def split: option.splits)
qed

text \<open>A client that connects and disconnects is enough for the fault.\<close>

lemma disconnect_faults:
  assumes "pb_runtime_ok (pf_rt pf)" and "services_defined (pf_rt pf) ops reg"
    and "RpcServer_new sys_bind sockfd addr p lp = Proceed s0" and "pendingFunctors lp = []"
    and "RpcServer_start sys_listen ctl p s0 = Proceed (Some s1)" and "0 \<le> fd"
  shows "run_all event_enabled (serve_event pf ops reg) [Accept fd peer, Eof (fresh_conn s1)] s1 = None"
proof -
  have start: "serving pf ops reg s1" using assms(1,2) started_wf [OF assms(3-5)] by (simp add: serving_def)
  then have wf: "server_wf s1" by (simp add: serving_def)
  let ?i = "fresh_conn s1" and ?s = "mark (acceptor s1) EPOLLIN s1"
  obtain s2 where s2: "newConnection pf fd peer ?s = Some s2" using newConnection_safe [of ?s pf fd peer] wf by auto
  have "pool_tasks s1 = []" "pendingFunctors s1 = []"
    using assms(3-5)
    by (auto simp: RpcServer_new_def RpcServer_start_def Acceptor_new_def Acceptor_listen_def enableReading_def
        change_events_def Let_def split: process.splits option.splits)
  then have "conns s2 ?i \<noteq> None" "last_reference ?i s2"
    using s2 by (auto simp: newConnection_def connectEstablished_def TcpConnection_new_def set_conn_def
        enableReading_def change_events_def last_reference_def Let_def split: option.splits)
  moreover have "serve_event pf ops reg (Accept fd peer) s1 = Some s2"
    using accept_event [OF wf] s2 assms(6) by (simp add: Acceptor_handleRead_def)
  ultimately have "faults event_enabled closed_while_reading (serve_event pf ops reg) [Accept fd peer, Eof ?i] s1"
    by (simp add: faults_Cons del: serve_event.simps)
  from server_runs.runs_undefined [OF start this] show ?thesis .
qed

text \<open>
  C25: connections do not disturb each other.  Whatever event a connection has, data, a write event, its
  end or an error, every other connection keeps its state, what was sent on it and its tasks in the pool, in
  order.
\<close>

theorem connections_isolated:
  assumes "serving pf ops reg s" and "event_enabled ev s" and "serve_event pf ops reg ev s = Some s'"
    and "ev = Data i bs \<or> ev = Retry i \<or> ev = CanWrite i \<or> closes i ev" and "j \<noteq> i"
  shows "conns s' j = conns s j \<and> sent s' j = sent s j
    \<and> filter (\<lambda>t. task_conn t = j) (pool_tasks s') = filter (\<lambda>t. task_conn t = j) (pool_tasks s)"
proof -
  have wf: "server_wf s" and rt: "pb_runtime_ok (pf_rt pf)" using assms(1) by (simp_all add: serving_def)
  have alive: "\<exists>c. conns s i = Some c" using assms(2,4) by (cases ev) auto
  then obtain c where c: "conns s i = Some c" by blast
  have read: ?thesis if "reads_on i (mark p EPOLLIN s) s'" for p
    using that assms(5) by (auto simp: reads_on_def touches_def filter_empty_conv)
  from assms(4) show ?thesis
  proof (elim disjE)
    assume "ev = Data i bs"
    with data_event [OF rt wf c, of "ReadOk bs"] assms(2,3) read show ?thesis by auto
  next
    assume "ev = Retry i"
    with data_event [OF rt wf c, of "ReadErr EAGAIN"] assms(2,3) read show ?thesis by auto
  next
    assume "ev = CanWrite i"
    with assms(3) write_event [OF wf c, of pf "ReadErr EAGAIN"]
    have "handleWrite (pf_ctl pf) (pf_write pf i (sent s i) (unsent i s)) i (mark (conn_channel c) EPOLLOUT s) = Some s'"
      by simp
    from write_touches [OF this, of c] c assms(5) show ?thesis by (auto simp: touches_def)
  next
    assume cl: "closes i ev"
    have "\<not> closed_while_reading ev s" using server_runs.step_good [OF assms(1-3)] by blast
    from closing_event [OF wf cl assms(2) this, of pf ops reg] assms(3) obtain s0 c0
      where s0: "server_close pf i s0 = Some s'" "server_wf s0" "conns s0 i = Some c0" "nearly i s s0" by auto
    from server_close_safe [OF s0(2,3), of pf] s0(1,4) assms(5) show ?thesis by (auto simp: nearly_def frees_def)
  qed
qed

lemma two_connections:
  "\<exists>s. newConnection sample_platform 8 ''b'' sample_server = Some s \<and> conns s 2 \<noteq> None
     \<and> conns s 1 = conns sample_server 1"
  by (auto simp: newConnection_def connectEstablished_def TcpConnection_new_def set_conn_def
      enableReading_def change_events_def Let_def sample_server_def)

lemma sample_server_wf: "server_wf sample_server"
  using sample_server_ok(1)
  by (auto simp: wf_on_def referenced_def sample_server_tasks)
    (auto simp: sample_server_def TcpConnection_new_def set_conn_def wired_def listening_def setReadCallback_def
      setWriteCallback_def setCloseCallback_def setErrorCallback_def split: if_splits)

lemma connections_isolated_witness:
  "\<exists>s s'. serve_event sample_platform echo_ops (service_register echo_service Map.empty) (Data 2 ''junk'') s = Some s'
     \<and> conns s' 1 = conns sample_server 1"
proof -
  obtain s where s: "newConnection sample_platform 8 ''b'' sample_server = Some s" "conns s 2 \<noteq> None"
      "conns s 1 = conns sample_server 1" using two_connections by blast
  let ?reg = "service_register echo_service Map.empty"
  have "serving sample_platform echo_ops ?reg s"
    using newConnection_safe [OF sample_server_wf, of sample_platform 8 "''b''"] s(1) vrt.pb_runtime_ok_axioms echo_defined
    by (auto simp: serving_def sample_platform_def)
  moreover have "event_enabled (Data 2 ''junk'') s" using s(2) by simp
  ultimately obtain s' where "serve_event sample_platform echo_ops ?reg (Data 2 ''junk'') s = Some s'"
    using serve_progress by fastforce
  with connections_isolated [OF \<open>serving sample_platform echo_ops ?reg s\<close> \<open>event_enabled (Data 2 ''junk'') s\<close> this,
      of 2 "''junk''" 1] s(3)
  show ?thesis by auto
qed

end
