(* ===== verification/Client_Steps.thy ===== *)
theory Client_Steps
  imports Rpc_Channel Fifo_Executor
begin

text \<open>
  A channel of \<^verbatim>\<open>src/rpc/rpc_channel.cpp\<close> used by many threads.  The functions of \<open>Rpc_Channel\<close> run one call
  at a time; here they are taken apart into the sections between which other threads may run: the
  critical sections under \<open>connMutex_\<close> and \<open>pendingMutex_\<close>, the atomic increment of \<open>nextId_\<close>, sending, waiting,
  and the callback.  A step relation interleaves any number of calling threads with the loop thread that
  handles responses.  Writing a frame to the connection is one section: the data races of \<^verbatim>\<open>TcpConnection\<close> are
  not modelled.
\<close>

section \<open>The sections of the loop thread\<close>

text \<open>\<open>onRpcResponse\<close> before its first lock; \<open>None\<close> is a parser that does not return.\<close>

definition decode_response ::
  "('u, 'g, 'r) client_env \<Rightarrow> nat \<Rightarrow> ('u, 'g, 'r) RpcChannel
     \<Rightarrow> (('u, 'g, 'r) RpcChannel \<times> (uint64 \<times> 'u RpcResponse) option) option" where
  "decode_response env conn ch =
     (case tryUnpackWithId (ce_order env) (inbufs ch conn) 0 of (packedData, reqId, b') \<Rightarrow>
       (let ch1 = ch\<lparr>inbufs := (inbufs ch)(conn := b')\<rparr> in
        if packedData = [] then Some (ch1, None)
        else map_option (\<lambda>(rsp, ok). (ch1, if ok then Some (reqId, rsp) else None))
               (RpcResponse_ParseFromString (ce_rt env) (RpcResponse_default (ce_rt env)) packedData)))"

text \<open>The two critical sections, and what follows them.\<close>

definition sync_section ::
  "('u, 'g, 'r) client_env \<Rightarrow> uint64 \<Rightarrow> 'u RpcResponse \<Rightarrow> ('u, 'g, 'r) RpcChannel \<Rightarrow> bool \<times> ('u, 'g, 'r) RpcChannel" where
  "sync_section env reqId rsp ch =
     (if reqId \<in> pendingSync ch
      then (True, ch\<lparr>promises := (promises ch)(reqId \<mapsto> RpcResponse_copy (ce_rt env) rsp),
                     pendingSync := pendingSync ch - {reqId}\<rparr>)
      else (False, ch))"

definition async_section ::
  "uint64 \<Rightarrow> ('u, 'g, 'r) RpcChannel \<Rightarrow> PendingAsync option \<times> ('u, 'g, 'r) RpcChannel" where
  "async_section reqId ch =
     (case pendingAsync ch reqId of
        Some pending \<Rightarrow> (Some pending, ch\<lparr>pendingAsync := (pendingAsync ch)(reqId := None)\<rparr>)
      | None \<Rightarrow> (None, ch))"

definition run_callback ::
  "('u, 'g, 'r) client_env \<Rightarrow> PendingAsync \<Rightarrow> 'u RpcResponse \<Rightarrow> ('u, 'g, 'r) RpcChannel
     \<Rightarrow> ('u, 'g, 'r) RpcChannel option" where
  "run_callback env pending rsp ch =
     map_option (\<lambda>c. c\<lparr>closures_run := closures_run c @ [pa_done pending]\<rparr>)
       (if error_code rsp \<noteq> NO_ERROR
        then Some (fail_controller (pa_controller pending) (error_msg rsp) ch)
        else map_option (\<lambda>(m, _). ch\<lparr>responses := (responses ch)(pa_response pending := m)\<rparr>)
               (ce_parse env (responses ch (pa_response pending)) (result rsp)))"

datatype 'u loop_pc = Polling | Parsed uint64 "'u RpcResponse" | Unclaimed uint64 "'u RpcResponse"
  | Calling PendingAsync "'u RpcResponse"

fun loop_advance ::
  "('u, 'g, 'r) client_env \<Rightarrow> 'u loop_pc \<Rightarrow> ('u, 'g, 'r) RpcChannel
     \<Rightarrow> ('u loop_pc \<times> ('u, 'g, 'r) RpcChannel) option" where
  "loop_advance env Polling ch = None"
| "loop_advance env (Parsed reqId rsp) ch =
     (case sync_section env reqId rsp ch of
        (True, ch1) \<Rightarrow> Some (Polling, ch1)
      | (False, ch1) \<Rightarrow> Some (Unclaimed reqId rsp, ch1))"
| "loop_advance env (Unclaimed reqId rsp) ch =
     (case async_section reqId ch of
        (Some pending, ch1) \<Rightarrow> Some (Calling pending rsp, ch1)
      | (None, ch1) \<Rightarrow> Some (Polling, ch1))"
| "loop_advance env (Calling pending rsp) ch =
     map_option (\<lambda>ch1. (Polling, ch1)) (run_callback env pending rsp ch)"

text \<open>With no other thread in between, the sections are \<open>onRpcResponse\<close>.\<close>

lemma sections_are_onRpcResponse:
  "onRpcResponse env conn ch =
     Option.bind (decode_response env conn ch) (\<lambda>(ch1, r).
       case r of None \<Rightarrow> Some ch1
       | Some (reqId, rsp) \<Rightarrow>
           (case sync_section env reqId rsp ch1 of
              (True, ch2) \<Rightarrow> Some ch2
            | (False, ch2) \<Rightarrow>
                (case async_section reqId ch2 of
                   (None, ch3) \<Rightarrow> Some ch3
                 | (Some pending, ch3) \<Rightarrow> run_callback env pending rsp ch3)))"
  by (simp add: onRpcResponse_def decode_response_def sync_section_def async_section_def run_callback_def
      Let_def split: prod.split option.split)

section \<open>The sections of a calling thread\<close>

text \<open>\<open>getConnection\<close> between its two locks: parse the address, dial, make the connection.\<close>

definition dial ::
  "('u, 'g, 'r) client_env \<Rightarrow> string \<Rightarrow> ('u, 'g, 'r) RpcChannel \<Rightarrow> conn_result \<times> ('u, 'g, 'r) RpcChannel" where
  "dial env addr ch =
     (if CHR '':'' \<notin> set addr then (NoConn, ch)
      else (let ip = takeWhile (\<lambda>c. c \<noteq> CHR '':'') addr;
                rest = tl (dropWhile (\<lambda>c. c \<noteq> CHR '':'') addr)
            in case stoi rest of
                 StoiValue n \<Rightarrow>
                   (let sockfd = createNonBlockingConnection (ce_net env) ip (word_of_int n)
                    in if sockfd < 0 then (NoConn, ch)
                       else (Conn (new_conn ch),
                             ch\<lparr>new_conn := Suc (new_conn ch),
                                inbufs := (inbufs ch)(new_conn ch := Buffer_new kInitialSize)\<rparr>))
               | _ \<Rightarrow> (ConnThrew, ch)))"

definition store_conn :: "string \<Rightarrow> nat \<Rightarrow> ('u, 'g, 'r) RpcChannel \<Rightarrow> ('u, 'g, 'r) RpcChannel" where
  "store_conn addr conn ch = ch\<lparr>chan_conns := (chan_conns ch)(addr \<mapsto> conn)\<rparr>"

lemma sections_are_getConnection:
  "getConnection env addr ch =
     (case chan_conns ch addr of
        Some conn \<Rightarrow> (Conn conn, ch)
      | None \<Rightarrow> (case dial env addr ch of
                   (Conn conn, ch1) \<Rightarrow> (Conn conn, store_conn addr conn ch1)
                 | r \<Rightarrow> r))"
  by (simp add: getConnection_def dial_def store_conn_def Let_def split: option.split stoi_result.split)

text \<open>
  A call is synchronous, with the controller and response object of its caller, or asynchronous.  Its
  position follows \<open>getConnection\<close> and \<open>doCall\<close> or \<open>doCallAsync\<close>; \<open>call_id\<close> keeps the id it took.
\<close>

datatype call_kind = Sync nat nat | Async PendingAsync

datatype call_pc = Looking string | Dialling string | Storing string nat | Connected nat
  | Numbered nat uint64 | Registered nat uint64 | Waiting nat uint64 | Expired nat uint64 | Finished call_result

record call =
  call_kind :: call_kind
  call_method :: method_desc
  call_request :: bytes
  call_at :: call_pc
  call_id :: "uint64 option"

definition call_frame :: "('u, 'g, 'r) client_env \<Rightarrow> call \<Rightarrow> uint64 \<Rightarrow> bytes" where
  "call_frame env c reqId = packWithId (ce_order env) reqId
     (RpcRequest_InternalSerialize (ce_rt env) (make_request (ce_rt env) (call_method c) (call_request c)))"

definition register_call :: "call_kind \<Rightarrow> uint64 \<Rightarrow> ('u, 'g, 'r) RpcChannel \<Rightarrow> ('u, 'g, 'r) RpcChannel" where
  "register_call k reqId ch =
     (case k of
        Sync cid rid \<Rightarrow> ch\<lparr>pendingSync := insert reqId (pendingSync ch), promises := (promises ch)(reqId := None)\<rparr>
      | Async p \<Rightarrow> ch\<lparr>pendingAsync := (pendingAsync ch)(reqId \<mapsto> p)\<rparr>)"

definition connect_failed :: "call_kind \<Rightarrow> ('u, 'g, 'r) RpcChannel \<Rightarrow> ('u, 'g, 'r) RpcChannel" where
  "connect_failed k ch =
     (case k of
        Sync cid rid \<Rightarrow> fail_controller cid ''connection failed'' ch
      | Async p \<Rightarrow> (let ch1 = fail_controller (pa_controller p) ''connect failed'' ch
                    in ch1\<lparr>closures_run := closures_run ch1 @ [pa_done p]\<rparr>))"

text \<open>The return of a synchronous call whose future is ready.\<close>

definition take_response ::
  "('u, 'g, 'r) client_env \<Rightarrow> nat \<Rightarrow> nat \<Rightarrow> 'u RpcResponse \<Rightarrow> ('u, 'g, 'r) RpcChannel
     \<Rightarrow> (call_result \<times> ('u, 'g, 'r) RpcChannel) option" where
  "take_response env cid rid rsp ch =
     (if error_code rsp \<noteq> NO_ERROR then Some (CallFailed, fail_controller cid (error_msg rsp) ch)
      else map_option (\<lambda>(r, _). (CallOk, ch\<lparr>responses := (responses ch)(rid := r)\<rparr>))
             (ce_parse env (responses ch rid) (result rsp)))"

definition take_id :: "('u, 'g, 'r) RpcChannel \<Rightarrow> ('u, 'g, 'r) RpcChannel" where
  "take_id ch = ch\<lparr>nextId := nextId ch + 1\<rparr>"

definition transmit :: "nat \<Rightarrow> bytes \<Rightarrow> ('u, 'g, 'r) RpcChannel \<Rightarrow> ('u, 'g, 'r) RpcChannel" where
  "transmit conn packed ch = ch\<lparr>outbox := outbox ch @ [(conn, packed)]\<rparr>"

text \<open>With the read events of the loop in one place, the sections are \<open>doCall\<close>; \<open>doCallAsync\<close> is their first half.\<close>

lemma sections_are_doCall:
  "doCall env att m cid request rid ch =
     (case lookup_and_connect env att ''no available servers'' ''connection failed'' cid ch of
        (ConnThrew, ch1) \<Rightarrow> (CallThrew, ch1)
      | (NoConn, ch1) \<Rightarrow> (CallFailed, ch1)
      | (Conn conn, ch1) \<Rightarrow>
          (let reqId = nextId ch1;
               c = \<lparr>call_kind = Sync cid rid, call_method = m, call_request = request,
                    call_at = Numbered conn reqId, call_id = Some reqId\<rparr>;
               ch2 = transmit conn (call_frame env c reqId) (register_call (call_kind c) reqId (take_id ch1))
           in case client_reads env (at_arrivals att) ch2 of
                None \<Rightarrow> (CallDiverged, ch2)
              | Some ch3 \<Rightarrow>
                  (case promises ch3 reqId of
                     None \<Rightarrow> (CallFailed, fail_controller cid ''request timeout'' (removePending reqId ch3))
                   | Some rsp \<Rightarrow> (case take_response env cid rid rsp ch3 of
                                   None \<Rightarrow> (CallDiverged, ch3)
                                 | Some r \<Rightarrow> r))))"
  by (auto simp: doCall_def take_id_def transmit_def register_call_def call_frame_def take_response_def Let_def
      split: prod.split conn_result.split option.split)

lemma sections_are_doCallAsync:
  "doCallAsync env att m cid request rid done ch =
     (case lookup_and_connect env att ''no servers'' ''connect failed'' cid ch of
        (ConnThrew, ch1) \<Rightarrow> (CallThrew, ch1)
      | (NoConn, ch1) \<Rightarrow> (CallFailed, ch1\<lparr>closures_run := closures_run ch1 @ [done]\<rparr>)
      | (Conn conn, ch1) \<Rightarrow>
          (let reqId = nextId ch1;
               p = \<lparr>pa_response = rid, pa_done = done, pa_controller = cid\<rparr>;
               c = \<lparr>call_kind = Async p, call_method = m, call_request = request,
                    call_at = Numbered conn reqId, call_id = Some reqId\<rparr>
           in (CallOk, transmit conn (call_frame env c reqId) (register_call (call_kind c) reqId (take_id ch1)))))"
  by (auto simp: doCallAsync_def take_id_def transmit_def register_call_def call_frame_def Let_def
      split: prod.split conn_result.split)

text \<open>
  One section of a call; \<open>late\<close> says that the time of a waiting call is up.  \<open>None\<close> means that the call
  cannot go on: it waits, has returned, or parses without end.
\<close>

definition go :: "call_pc \<Rightarrow> call \<Rightarrow> ('u, 'g, 'r) RpcChannel \<Rightarrow> (call \<times> ('u, 'g, 'r) RpcChannel) option" where
  "go pc c ch = Some (c\<lparr>call_at := pc\<rparr>, ch)"

definition advance ::
  "('u, 'g, 'r) client_env \<Rightarrow> bool \<Rightarrow> call \<Rightarrow> ('u, 'g, 'r) RpcChannel \<Rightarrow> (call \<times> ('u, 'g, 'r) RpcChannel) option" where
  "advance env late c ch =
     (case call_at c of
        Looking addr \<Rightarrow>
          (case chan_conns ch addr of Some conn \<Rightarrow> go (Connected conn) c ch | None \<Rightarrow> go (Dialling addr) c ch)
      | Dialling addr \<Rightarrow>
          (case dial env addr ch of
             (Conn conn, ch1) \<Rightarrow> go (Storing addr conn) c ch1
           | (NoConn, ch1) \<Rightarrow> go (Finished CallFailed) c (connect_failed (call_kind c) ch1)
           | (ConnThrew, ch1) \<Rightarrow> go (Finished CallThrew) c ch1)
      | Storing addr conn \<Rightarrow> go (Connected conn) c (store_conn addr conn ch)
      | Connected conn \<Rightarrow> go (Numbered conn (nextId ch)) (c\<lparr>call_id := Some (nextId ch)\<rparr>) (take_id ch)
      | Numbered conn reqId \<Rightarrow> go (Registered conn reqId) c (register_call (call_kind c) reqId ch)
      | Registered conn reqId \<Rightarrow>
          (case call_kind c of
             Sync _ _ \<Rightarrow> go (Waiting conn reqId) c (transmit conn (call_frame env c reqId) ch)
           | Async _ \<Rightarrow> go (Finished CallOk) c (transmit conn (call_frame env c reqId) ch))
      | Waiting conn reqId \<Rightarrow>
          (case promises ch reqId of
             Some rsp \<Rightarrow>
               (case call_kind c of
                  Sync cid rid \<Rightarrow>
                    Option.bind (take_response env cid rid rsp ch) (\<lambda>(r, ch1). go (Finished r) c ch1)
                | Async _ \<Rightarrow> None)
           | None \<Rightarrow> if late then go (Expired conn reqId) c ch else None)
      | Expired conn reqId \<Rightarrow>
          (case call_kind c of
             Sync cid _ \<Rightarrow>
               go (Finished CallFailed) c (fail_controller cid ''request timeout'' (removePending reqId ch))
           | Async _ \<Rightarrow> None)
      | Finished r \<Rightarrow> None)"

section \<open>Interleavings\<close>

text \<open>
  The channel, its calls, the position of the loop thread, and the responses parsed so far.
\<close>

record ('u, 'g, 'r) client_run =
  chan :: "('u, 'g, 'r) RpcChannel"
  calls :: "call list"
  loop_at :: "'u loop_pc"
  received :: "(uint64 \<times> 'u RpcResponse) list"

definition client_start :: "('u, 'g, 'r) client_run \<Rightarrow> bool" where
  "client_start s \<longleftrightarrow> (\<exists>client name lbType gen ctls rsps. chan s = RpcChannel_new client name lbType gen ctls rsps)
     \<and> calls s = [] \<and> loop_at s = Polling \<and> received s = []"

definition closures :: "call list \<Rightarrow> nat set" where
  "closures cs = {pa_done p |c p. c \<in> set cs \<and> call_kind c = Async p}"

text \<open>The ids of the requests that were sent.\<close>

fun was_sent :: "call_pc \<Rightarrow> bool" where
  "was_sent (Waiting _ _) = True"
| "was_sent (Expired _ _) = True"
| "was_sent (Finished _) = True"
| "was_sent _ = False"

definition sent_ids :: "call list \<Rightarrow> uint64 set" where
  "sent_ids cs = {k. \<exists>c \<in> set cs. call_id c = Some k \<and> was_sent (call_at c)}"

text \<open>
  A closure is used for one call.  An honest server answers only ids that were sent; without
  honesty it may send any bytes.
\<close>

inductive client_step ::
  "('u, 'g, 'r) client_env \<Rightarrow> bool \<Rightarrow> ('u, 'g, 'r) client_run \<Rightarrow> ('u, 'g, 'r) client_run \<Rightarrow> bool"
  for env honest where
  begin_sync:
    "client_step env honest s (s\<lparr>calls := calls s @ [\<lparr>call_kind = Sync cid rid, call_method = m,
       call_request = request, call_at = Looking addr, call_id = None\<rparr>]\<rparr>)"
| begin_async: "pa_done p \<notin> closures (calls s) \<Longrightarrow>
    client_step env honest s (s\<lparr>calls := calls s @ [\<lparr>call_kind = Async p, call_method = m,
       call_request = request, call_at = Looking addr, call_id = None\<rparr>]\<rparr>)"
| caller: "i < length (calls s) \<Longrightarrow> advance env late (calls s ! i) (chan s) = Some (c, ch) \<Longrightarrow>
    client_step env honest s (s\<lparr>chan := ch, calls := (calls s)[i := c]\<rparr>)"
| arrive_nothing: "loop_at s = Polling \<Longrightarrow>
    decode_response env conn ((chan s)\<lparr>inbufs := (inbufs (chan s))(conn := fill_input data (inbufs (chan s) conn))\<rparr>)
      = Some (ch, None) \<Longrightarrow>
    client_step env honest s (s\<lparr>chan := ch\<rparr>)"
| arrive_response: "loop_at s = Polling \<Longrightarrow>
    decode_response env conn ((chan s)\<lparr>inbufs := (inbufs (chan s))(conn := fill_input data (inbufs (chan s) conn))\<rparr>)
      = Some (ch, Some (reqId, rsp)) \<Longrightarrow>
    (honest \<longrightarrow> reqId \<in> sent_ids (calls s)) \<Longrightarrow>
    client_step env honest s (s\<lparr>chan := ch, loop_at := Parsed reqId rsp, received := received s @ [(reqId, rsp)]\<rparr>)"
| handle: "loop_advance env (loop_at s) (chan s) = Some (pc, ch) \<Longrightarrow>
    client_step env honest s (s\<lparr>chan := ch, loop_at := pc\<rparr>)"

definition client_reachable :: "('u, 'g, 'r) client_env \<Rightarrow> bool \<Rightarrow> ('u, 'g, 'r) client_run \<Rightarrow> bool" where
  "client_reachable env honest s \<longleftrightarrow> (\<exists>s0. client_start s0 \<and> (client_step env honest)\<^sup>*\<^sup>* s0 s)"

section \<open>What a section leaves alone\<close>

definition same_at :: "uint64 \<Rightarrow> ('u, 'g, 'r) RpcChannel \<Rightarrow> ('u, 'g, 'r) RpcChannel \<Rightarrow> bool" where
  "same_at k ch ch' \<longleftrightarrow> (k \<in> pendingSync ch' \<longleftrightarrow> k \<in> pendingSync ch) \<and> promises ch' k = promises ch k
     \<and> pendingAsync ch' k = pendingAsync ch k"

text \<open>The part of a channel that matches responses to calls.\<close>

definition matching :: "('u, 'g, 'r) RpcChannel
    \<Rightarrow> uint64 set \<times> (uint64 \<Rightarrow> 'u RpcResponse option) \<times> (uint64 \<Rightarrow> PendingAsync option) \<times> uint64 \<times> nat list" where
  "matching ch = (pendingSync ch, promises ch, pendingAsync ch, nextId ch, closures_run ch)"

lemma matching_frames:
  "matching (fail_controller cid reason ch) = matching ch"
  "matching (store_conn addr conn ch) = matching ch"
  "matching (transmit conn packed ch) = matching ch"
  "matching (ch\<lparr>inbufs := b\<rparr>) = matching ch"
  "matching (ch\<lparr>responses := r\<rparr>) = matching ch"
  by (simp_all add: matching_def fail_controller_def set_controller_def store_conn_def transmit_def)

lemma matching_dial: "dial env addr ch = (r, ch') \<Longrightarrow> matching ch' = matching ch"
  by (auto simp: dial_def matching_def Let_def split: if_splits stoi_result.splits)

lemma matching_decode: "decode_response env conn ch = Some (ch', r) \<Longrightarrow> matching ch' = matching ch"
  by (auto simp: decode_response_def matching_def Let_def split: prod.splits if_splits)

lemma matching_take: "take_response env cid rid rsp ch = Some (r, ch') \<Longrightarrow> matching ch' = matching ch"
  by (auto simp: take_response_def matching_frames split: if_splits)

lemma take_response_ok: "take_response env cid rid rsp ch = Some (CallOk, ch') \<Longrightarrow> error_code rsp = NO_ERROR"
  by (auto simp: take_response_def split: if_splits)

lemma matching_callback:
  "run_callback env p rsp ch = Some ch' \<Longrightarrow>
   pendingSync ch' = pendingSync ch \<and> promises ch' = promises ch \<and> pendingAsync ch' = pendingAsync ch
   \<and> nextId ch' = nextId ch \<and> closures_run ch' = closures_run ch @ [pa_done p]"
  by (auto simp: run_callback_def fail_controller_def set_controller_def split: if_splits)

lemma same_at_matching: "matching ch' = matching ch \<Longrightarrow> same_at k ch ch'"
  by (simp add: matching_def same_at_def)

section \<open>The invariant\<close>

text \<open>Ids are issued in order from 0; they are distinct as long as the counter has not wrapped.\<close>

definition issued :: "call list \<Rightarrow> nat" where
  "issued cs = card {i. i < length cs \<and> call_id (cs ! i) \<noteq> None}"

definition ids_ok :: "call list \<Rightarrow> uint64 \<Rightarrow> bool" where
  "ids_ok cs n \<longleftrightarrow> n = word_of_nat (issued cs)
     \<and> (\<forall>i k. i < length cs \<and> call_id (cs ! i) = Some k \<longrightarrow> unat k < issued cs)
     \<and> (\<forall>i j k. i < length cs \<and> j < length cs \<and> call_id (cs ! i) = Some k \<and> call_id (cs ! j) = Some k \<longrightarrow> i = j)"

fun pc_ok :: "call \<Rightarrow> bool" where
  "pc_ok \<lparr>call_kind = k, call_method = m, call_request = r, call_at = pc, call_id = n\<rparr> =
     (case pc of
        Numbered _ reqId \<Rightarrow> n = Some reqId
      | Registered _ reqId \<Rightarrow> n = Some reqId
      | Waiting _ reqId \<Rightarrow> n = Some reqId \<and> (\<exists>cid rid. k = Sync cid rid)
      | Expired _ reqId \<Rightarrow> n = Some reqId \<and> (\<exists>cid rid. k = Sync cid rid)
      | Finished r \<Rightarrow> r = CallOk \<longrightarrow> n \<noteq> None
      | _ \<Rightarrow> n = None)"

definition in_loop :: "'u loop_pc \<Rightarrow> nat \<Rightarrow> bool" where
  "in_loop l d \<longleftrightarrow> (\<exists>p rsp. l = Calling p rsp \<and> pa_done p = d)"

lemma in_loop_simps [simp]:
  "\<not> in_loop Polling d" "\<not> in_loop (Parsed k rsp) d" "\<not> in_loop (Unclaimed k rsp) d"
  "in_loop (Calling p rsp) d \<longleftrightarrow> pa_done p = d"
  by (simp_all add: in_loop_def)

text \<open>A registered synchronous call waits, or its promise holds a response that arrived under its id.\<close>

definition awaiting :: "('u, 'g, 'r) RpcChannel \<Rightarrow> (uint64 \<times> 'u RpcResponse) list \<Rightarrow> uint64 \<Rightarrow> bool" where
  "awaiting ch rs k \<longleftrightarrow> (k \<in> pendingSync ch \<and> promises ch k = None)
     \<or> (k \<notin> pendingSync ch \<and> (\<exists>rsp. promises ch k = Some rsp \<and> (k, rsp) \<in> set rs))"

text \<open>
  A registered asynchronous call is pending, or a response under its id is in the hands of the loop, or
  was, and its closure was run.
\<close>

definition one_place ::
  "('u, 'g, 'r) RpcChannel \<Rightarrow> 'u loop_pc \<Rightarrow> (uint64 \<times> 'u RpcResponse) list \<Rightarrow> PendingAsync \<Rightarrow> uint64 \<Rightarrow> bool" where
  "one_place ch l rs p k \<longleftrightarrow>
     (pendingAsync ch k = Some p \<and> \<not> in_loop l (pa_done p) \<and> pa_done p \<notin> set (closures_run ch))
   \<or> (pendingAsync ch k = None \<and> (in_loop l (pa_done p) \<longleftrightarrow> pa_done p \<notin> set (closures_run ch))
      \<and> (\<exists>rsp. (k, rsp) \<in> set rs))"

definition call_ok ::
  "('u, 'g, 'r) RpcChannel \<Rightarrow> 'u loop_pc \<Rightarrow> (uint64 \<times> 'u RpcResponse) list \<Rightarrow> call \<Rightarrow> bool" where
  "call_ok ch l rs c \<longleftrightarrow>
     (case call_kind c of
        Sync _ _ \<Rightarrow>
          (case call_at c of
             Numbered _ k \<Rightarrow> k \<notin> pendingSync ch
           | Registered _ k \<Rightarrow> awaiting ch rs k
           | Waiting _ k \<Rightarrow> awaiting ch rs k
           | Finished r \<Rightarrow> \<forall>k. call_id c = Some k \<longrightarrow> k \<notin> pendingSync ch
               \<and> (r = CallOk \<longrightarrow> (\<exists>rsp. promises ch k = Some rsp \<and> (k, rsp) \<in> set rs \<and> error_code rsp = NO_ERROR))
           | _ \<Rightarrow> True)
      | Async p \<Rightarrow>
          (case call_at c of
             Registered _ k \<Rightarrow> one_place ch l rs p k
           | Finished r \<Rightarrow>
               (case call_id c of
                  Some k \<Rightarrow> one_place ch l rs p k
                | None \<Rightarrow> \<not> in_loop l (pa_done p) \<and> (pa_done p \<in> set (closures_run ch) \<longleftrightarrow> r = CallFailed))
           | _ \<Rightarrow> \<not> in_loop l (pa_done p) \<and> pa_done p \<notin> set (closures_run ch)
                 \<and> (\<forall>k. call_id c = Some k \<longrightarrow> pendingAsync ch k = None)))"

fun loop_ok :: "call list \<Rightarrow> (uint64 \<times> 'u RpcResponse) list \<Rightarrow> 'u loop_pc \<Rightarrow> bool" where
  "loop_ok cs rs Polling = True"
| "loop_ok cs rs (Parsed k rsp) = ((k, rsp) \<in> set rs)"
| "loop_ok cs rs (Unclaimed k rsp) = ((k, rsp) \<in> set rs)"
| "loop_ok cs rs (Calling p rsp) =
     (\<exists>c k. c \<in> set cs \<and> call_kind c = Async p \<and> call_id c = Some k \<and> (k, rsp) \<in> set rs)"

text \<open>Who owns an entry.\<close>

definition owned :: "call list \<Rightarrow> ('u, 'g, 'r) RpcChannel \<Rightarrow> bool" where
  "owned cs ch \<longleftrightarrow>
     (\<forall>k. k \<in> pendingSync ch \<longrightarrow> (\<exists>c cid rid. c \<in> set cs \<and> call_kind c = Sync cid rid \<and> call_id c = Some k))
   \<and> (\<forall>k p. pendingAsync ch k = Some p \<longrightarrow> (\<exists>c. c \<in> set cs \<and> call_kind c = Async p \<and> call_id c = Some k))
   \<and> set (closures_run ch) \<subseteq> closures cs \<and> distinct (closures_run ch)"

definition closures_unique :: "call list \<Rightarrow> bool" where
  "closures_unique cs \<longleftrightarrow> (\<forall>i j p q. i < length cs \<and> j < length cs \<and> call_kind (cs ! i) = Async p
     \<and> call_kind (cs ! j) = Async q \<and> pa_done p = pa_done q \<longrightarrow> i = j)"

definition client_inv :: "('u, 'g, 'r) client_run \<Rightarrow> bool" where
  "client_inv s \<longleftrightarrow> ids_ok (calls s) (nextId (chan s)) \<and> closures_unique (calls s) \<and> owned (calls s) (chan s)
     \<and> loop_ok (calls s) (received s) (loop_at s)
     \<and> (\<forall>c \<in> set (calls s). pc_ok c \<and> call_ok (chan s) (loop_at s) (received s) c)"

lemma call_ok_frame:
  assumes "call_ok ch l rs c" and "pc_ok c" and same: "\<And>k. call_id c = Some k \<Longrightarrow> same_at k ch ch'"
    and "\<And>p. call_kind c = Async p \<Longrightarrow> (pa_done p \<in> set (closures_run ch') \<longleftrightarrow> pa_done p \<in> set (closures_run ch))
      \<and> in_loop l' (pa_done p) = in_loop l (pa_done p)"
    and "set rs \<subseteq> set rs'"
  shows "call_ok ch' l' rs' c"
  using assms unfolding subset_iff
  by (cases c) (auto simp: call_ok_def same_at_def awaiting_def one_place_def split: call_kind.splits call_pc.splits option.splits)

lemma nth_updated: "j < length cs \<Longrightarrow> cs[i := c] ! j = (if i = j then c else cs ! j)"
  by auto

text \<open>Ids and closures name calls.\<close>

lemma ids_name: "ids_ok cs n \<Longrightarrow> c \<in> set cs \<Longrightarrow> c' \<in> set cs \<Longrightarrow> call_id c = Some k \<Longrightarrow> call_id c' = Some k \<Longrightarrow> c = c'"
  unfolding ids_ok_def in_set_conv_nth by metis

lemma closures_name:
  "closures_unique cs \<Longrightarrow> c \<in> set cs \<Longrightarrow> c' \<in> set cs \<Longrightarrow> call_kind c = Async p \<Longrightarrow> call_kind c' = Async q
   \<Longrightarrow> pa_done p = pa_done q \<Longrightarrow> c = c'"
  unfolding closures_unique_def in_set_conv_nth by metis

lemma issued_append: "call_id c = None \<Longrightarrow> issued (cs @ [c]) = issued cs"
  unfolding issued_def by (rule arg_cong [of _ _ card]) (auto simp: nth_append)

lemma issued_update: "call_id c = call_id (cs ! i) \<Longrightarrow> issued (cs[i := c]) = issued cs"
  unfolding issued_def by (rule arg_cong [of _ _ card]) (auto simp: nth_updated split: if_splits)

lemma issued_new:
  assumes "i < length cs" and "call_id (cs ! i) = None" and "call_id c = Some k"
  shows "issued (cs[i := c]) = Suc (issued cs)"
proof -
  have "{j. j < length (cs[i := c]) \<and> call_id (cs[i := c] ! j) \<noteq> None}
      = insert i {j. j < length cs \<and> call_id (cs ! j) \<noteq> None}"
    using assms by (auto simp: nth_list_update)
  with assms(2) show ?thesis by (simp add: issued_def)
qed

lemma ids_ok_append:
  assumes "ids_ok cs n" and "call_id c = None"
  shows "ids_ok (cs @ [c]) n"
proof -
  have ids: "call_id ((cs @ [c]) ! i) = Some k \<Longrightarrow> i < length (cs @ [c]) \<Longrightarrow> i < length cs \<and> call_id (cs ! i) = Some k" for i k
    using assms(2) by (cases "i < length cs") (auto simp: nth_append less_Suc_eq)
  show ?thesis using assms(1) ids unfolding ids_ok_def issued_append [OF assms(2)] by blast
qed

lemma ids_ok_update:
  assumes "ids_ok cs n" and same: "call_id c = call_id (cs ! i)"
  shows "ids_ok (cs[i := c]) n"
proof -
  have ids: "call_id (cs[i := c] ! j) = call_id (cs ! j)" if "j < length cs" for j
    using same that by (simp add: nth_updated)
  show ?thesis using assms(1) unfolding ids_ok_def issued_update [OF same] length_list_update by (metis ids)
qed

lemma ids_ok_new:
  assumes "ids_ok cs n" and i: "i < length cs" "call_id (cs ! i) = None" "call_id c = Some n"
    and bound: "issued (cs[i := c]) \<le> 2 ^ 64"
  shows "ids_ok (cs[i := c]) (n + 1)"
proof -
  have n: "n = word_of_nat (issued cs)" and old: "\<And>j k. j < length cs \<Longrightarrow> call_id (cs ! j) = Some k \<Longrightarrow> unat k < issued cs"
    and dist: "\<And>j l k. j < length cs \<Longrightarrow> l < length cs \<Longrightarrow> call_id (cs ! j) = Some k \<Longrightarrow> call_id (cs ! l) = Some k \<Longrightarrow> j = l"
    using assms(1) unfolding ids_ok_def by blast+
  have new: "issued (cs[i := c]) = Suc (issued cs)" by (rule issued_new [OF i])
  with bound have "unat n = issued cs" unfolding n by (simp add: unat_of_nat take_bit_eq_mod del: of_nat_add)
  with old have fresh: "call_id (cs ! j) \<noteq> Some n" if "j < length cs" for j using that by fastforce
  have "n + 1 = word_of_nat (Suc (issued cs))" by (simp add: n)
  moreover have "unat k < Suc (issued cs)" if "j < length cs" "call_id (cs[i := c] ! j) = Some k" for j k
    using that i(3) \<open>unat n = issued cs\<close> old [of j k] by (cases "j = i") auto
  moreover have "j = l" if "j < length cs" "l < length cs" "call_id (cs[i := c] ! j) = Some k" "call_id (cs[i := c] ! l) = Some k" for j l k
    using that i(1,3) fresh dist [of j l k] by (auto simp: nth_list_update split: if_splits)
  ultimately show ?thesis unfolding ids_ok_def new length_list_update by blast
qed

lemma closures_append:
  "closures (cs @ [c]) = closures cs \<union> (case call_kind c of Async p \<Rightarrow> {pa_done p} | Sync _ _ \<Rightarrow> {})"
  by (auto simp: closures_def split: call_kind.splits)

text \<open>Nothing about a call depends on the calls that began after it.\<close>

lemma inv_begin:
  assumes inv: "client_inv s" and c: "call_at c = Looking addr" "call_id c = None"
    and fresh: "\<And>p. call_kind c = Async p \<Longrightarrow> pa_done p \<notin> closures (calls s)"
  shows "client_inv (s\<lparr>calls := calls s @ [c]\<rparr>)"
proof -
  note I = inv [unfolded client_inv_def]
  have "closures_unique (calls s @ [c])"
  proof -
    have old: "i = j" if "i < length (calls s)" "j < length (calls s)" "call_kind (calls s ! i) = Async p"
        "call_kind (calls s ! j) = Async q" "pa_done p = pa_done q" for i j p q
      using I that unfolding closures_unique_def by blast
    have new: False if "i < length (calls s)" "call_kind (calls s ! i) = Async p" "call_kind c = Async q"
        "pa_done p = pa_done q" for i p q
      using fresh [OF that(3)] that nth_mem [OF that(1)] by (auto simp: closures_def)
    show ?thesis
      unfolding closures_unique_def using old new by (auto simp: nth_append less_Suc_eq) (metis new)+
  qed
  moreover have "owned (calls s @ [c]) (chan s)"
    using I unfolding owned_def closures_append set_append by blast
  moreover have "loop_ok (calls s @ [c]) (received s) (loop_at s)"
    using I by (cases "loop_at s") (simp_all, blast)
  moreover have "call_ok (chan s) (loop_at s) (received s) c"
  proof (cases "call_kind c")
    case (Async p)
    have "pa_done p \<notin> set (closures_run (chan s))" using fresh [OF Async] I by (auto simp: owned_def)
    moreover have "\<not> in_loop (loop_at s) (pa_done p)"
      using fresh [OF Async] I by (cases "loop_at s") (auto simp: closures_def)
    ultimately show ?thesis using Async c by (simp add: call_ok_def)
  qed (use c in \<open>simp add: call_ok_def\<close>)
  moreover have "pc_ok c" using c by (cases c) simp
  ultimately show ?thesis using I ids_ok_append [of "calls s" "nextId (chan s)" c] c(2)
    by (simp add: client_inv_def)
qed

text \<open>Updating one call keeps the kinds and ids of all.\<close>

lemma call_kept:
  assumes "call_kind c = call_kind (cs ! i)" and "\<And>k. call_id (cs ! i) = Some k \<Longrightarrow> call_id c = Some k" and "d \<in> set cs"
  shows "\<exists>d'. d' \<in> set (cs[i := c]) \<and> call_kind d' = call_kind d \<and> (\<forall>k. call_id d = Some k \<longrightarrow> call_id d' = Some k)"
proof -
  obtain j where j: "j < length cs" "d = cs ! j" using assms(3) by (auto simp: in_set_conv_nth)
  then have "cs[i := c] ! j \<in> set (cs[i := c])" by (intro nth_mem) simp
  moreover have "call_kind (cs[i := c] ! j) = call_kind d \<and> (\<forall>k. call_id d = Some k \<longrightarrow> call_id (cs[i := c] ! j) = Some k)"
    using j assms(1,2) by (simp add: nth_updated)
  ultimately show ?thesis by blast
qed

text \<open>A section of one call touches its own entries only.\<close>

lemma call_owned:
  assumes inv: "client_inv s" and i: "i < length (calls s)"
    and kind: "call_kind c = call_kind (calls s ! i)" and keep: "\<And>k. call_id (calls s ! i) = Some k \<Longrightarrow> call_id c = Some k"
    and others: "\<And>k. call_id c \<noteq> Some k \<Longrightarrow> same_at k (chan s) ch"
    and runs: "closures_run ch = closures_run (chan s) \<or> (\<exists>p. call_kind c = Async p
      \<and> pa_done p \<notin> set (closures_run (chan s)) \<and> closures_run ch = closures_run (chan s) @ [pa_done p])"
    and own: "\<And>k. call_id c = Some k \<Longrightarrow> (k \<in> pendingSync ch \<longrightarrow> (\<exists>cid rid. call_kind c = Sync cid rid))
      \<and> (\<forall>p. pendingAsync ch k = Some p \<longrightarrow> call_kind c = Async p)"
  shows "owned ((calls s)[i := c]) ch"
proof -
  note I = inv [unfolded client_inv_def]
  let ?cs = "(calls s)[i := c]"
  have c: "c \<in> set ?cs" using i by (rule set_update_memI)
  note kept = call_kept [OF kind keep]
  have came: "d = c \<or> (d \<in> set (calls s) \<and> (\<exists>j. j < length (calls s) \<and> j \<noteq> i \<and> d = ?cs ! j))" if "d \<in> set ?cs" for d
    using that by (auto simp: in_set_conv_nth nth_updated)
  have "closures ?cs = closures (calls s)"
    using kept came kind nth_mem [OF i] unfolding closures_def by (safe; metis)
  moreover have "pa_done p \<in> closures ?cs" if "call_kind c = Async p" for p
    using c that unfolding closures_def by blast
  moreover have "set (closures_run (chan s)) \<subseteq> closures (calls s)" "distinct (closures_run (chan s))"
    using I by (simp_all add: owned_def)
  ultimately have "set (closures_run ch) \<subseteq> closures ?cs \<and> distinct (closures_run ch)"
    using runs by auto
  moreover have "\<exists>d cid rid. d \<in> set ?cs \<and> call_kind d = Sync cid rid \<and> call_id d = Some k" if "k \<in> pendingSync ch" for k
  proof (cases "call_id c = Some k")
    case True
    with own [OF True] that c show ?thesis by blast
  next
    case False
    with others that have "k \<in> pendingSync (chan s)" by (simp add: same_at_def)
    with I kept show ?thesis unfolding owned_def by metis
  qed
  moreover have "\<exists>d. d \<in> set ?cs \<and> call_kind d = Async p \<and> call_id d = Some k" if "pendingAsync ch k = Some p" for k p
  proof (cases "call_id c = Some k")
    case True
    with own [OF True] that c show ?thesis by blast
  next
    case False
    with others that have "pendingAsync (chan s) k = Some p" by (simp add: same_at_def)
    with I kept show ?thesis unfolding owned_def by metis
  qed
  ultimately show ?thesis unfolding owned_def by blast
qed

lemma inv_call:
  assumes inv: "client_inv s" and i: "i < length (calls s)"
    and kind: "call_kind c = call_kind (calls s ! i)" and keep: "\<And>k. call_id (calls s ! i) = Some k \<Longrightarrow> call_id c = Some k"
    and ids: "ids_ok ((calls s)[i := c]) (nextId ch)"
    and others: "\<And>k. call_id c \<noteq> Some k \<Longrightarrow> same_at k (chan s) ch"
    and runs: "closures_run ch = closures_run (chan s) \<or> (\<exists>p. call_kind c = Async p
      \<and> pa_done p \<notin> set (closures_run (chan s)) \<and> closures_run ch = closures_run (chan s) @ [pa_done p])"
    and own: "\<And>k. call_id c = Some k \<Longrightarrow> (k \<in> pendingSync ch \<longrightarrow> (\<exists>cid rid. call_kind c = Sync cid rid))
      \<and> (\<forall>p. pendingAsync ch k = Some p \<longrightarrow> call_kind c = Async p)"
    and ok: "pc_ok c" "call_ok ch (loop_at s) (received s) c"
  shows "client_inv (s\<lparr>chan := ch, calls := (calls s)[i := c]\<rparr>)"
proof -
  note I = inv [unfolded client_inv_def]
  let ?cs = "(calls s)[i := c]"
  have c: "c \<in> set ?cs" using i by (rule set_update_memI)
  have kinds: "call_kind (?cs ! j) = call_kind (calls s ! j)" if "j < length (calls s)" for j
    using kind that by (simp add: nth_updated)
  have unique: "closures_unique ?cs"
    using I kinds unfolding closures_unique_def length_list_update by metis
  note kept = call_kept [OF kind keep]
  have came: "d = c \<or> (d \<in> set (calls s) \<and> (\<exists>j. j < length (calls s) \<and> j \<noteq> i \<and> d = ?cs ! j))" if "d \<in> set ?cs" for d
    using that by (auto simp: in_set_conv_nth nth_updated)
  have "owned ?cs ch" by (rule call_owned [OF inv i kind keep others runs own])
  moreover have "loop_ok ?cs (received s) (loop_at s)"
  proof (cases "loop_at s")
    case (Calling p rsp)
    then obtain d k where "d \<in> set (calls s)" "call_kind d = Async p" "call_id d = Some k" "(k, rsp) \<in> set (received s)"
      using I by auto
    with kept [of d] Calling show ?thesis by fastforce
  qed (use I in simp_all)
  moreover have "pc_ok d \<and> call_ok ch (loop_at s) (received s) d" if "d \<in> set ?cs" for d
  proof (cases "d = c")
    case False
    with came [OF that] obtain j where j: "d \<in> set (calls s)" "j < length (calls s)" "j \<noteq> i" "d = ?cs ! j" by blast
    then have d: "pc_ok d" "call_ok (chan s) (loop_at s) (received s) d" using I by blast+
    have "same_at k (chan s) ch" if "call_id d = Some k" for k
      using others [of k] ids_name [OF ids c \<open>d \<in> set ?cs\<close> _ that] False by blast
    moreover have "pa_done p \<in> set (closures_run ch) \<longleftrightarrow> pa_done p \<in> set (closures_run (chan s))" if "call_kind d = Async p" for p
      using runs closures_name [OF unique c \<open>d \<in> set ?cs\<close> _ that] False by fastforce
    ultimately show ?thesis using call_ok_frame [OF d(2,1)] d(1) by blast
  qed (use ok in simp)
  ultimately show ?thesis using unique ids unfolding client_inv_def by simp
qed

text \<open>Most sections leave the matching of responses as it is.\<close>

lemma inv_quiet:
  assumes inv: "client_inv s" and i: "i < length (calls s)"
    and c': "c' = (calls s ! i)\<lparr>call_at := pc\<rparr>" and quiet: "matching ch = matching (chan s)"
    and ok: "pc_ok c'" "call_ok (chan s) (loop_at s) (received s) c'"
  shows "client_inv (s\<lparr>chan := ch, calls := (calls s)[i := c']\<rparr>)"
proof (rule inv_call [OF inv i])
  have same: "pendingSync ch = pendingSync (chan s)" "promises ch = promises (chan s)"
      "pendingAsync ch = pendingAsync (chan s)" "nextId ch = nextId (chan s)" "closures_run ch = closures_run (chan s)"
    using quiet by (simp_all add: matching_def)
  note I = inv [unfolded client_inv_def]
  have mem: "calls s ! i \<in> set (calls s)" using i by simp
  show "ids_ok ((calls s)[i := c']) (nextId ch)"
    using I ids_ok_update [of "calls s" "nextId (chan s)" c' i] same c' by simp
  show "call_ok ch (loop_at s) (received s) c'"
    by (rule call_ok_frame [OF ok(2,1)]) (use same in \<open>simp_all add: same_at_def\<close>)
  show "(k \<in> pendingSync ch \<longrightarrow> (\<exists>cid rid. call_kind c' = Sync cid rid))
      \<and> (\<forall>p. pendingAsync ch k = Some p \<longrightarrow> call_kind c' = Async p)"
    if "call_id c' = Some k" for k
  proof -
    have id: "call_id (calls s ! i) = Some k" using that c' by simp
    have "d = calls s ! i" if "d \<in> set (calls s)" "call_id d = Some k" for d
      using ids_name [of "calls s" "nextId (chan s)" d "calls s ! i" k] I that mem id by blast
    moreover have "call_kind c' = call_kind (calls s ! i)" using c' by simp
    ultimately show ?thesis using I same unfolding owned_def by metis
  qed
qed (use assms quiet in \<open>auto simp: same_at_matching matching_def\<close>)

lemma call_of: "i < length (calls s) \<Longrightarrow> client_inv s \<Longrightarrow> pc_ok (calls s ! i) \<and> call_ok (chan s) (loop_at s) (received s) (calls s ! i)"
  by (simp add: client_inv_def)

lemmas call_defs = call_ok_def awaiting_def one_place_def same_at_def go_def

text \<open>The entries under the id of a call are its own.\<close>

lemma own_entries:
  assumes inv: "client_inv s" and i: "i < length (calls s)" and id: "call_id (calls s ! i) = Some q"
  shows "(q \<in> pendingSync (chan s) \<longrightarrow> (\<exists>cid rid. call_kind (calls s ! i) = Sync cid rid))
    \<and> (\<forall>p. pendingAsync (chan s) q = Some p \<longrightarrow> call_kind (calls s ! i) = Async p)"
proof -
  note I = inv [unfolded client_inv_def]
  have mem: "calls s ! i \<in> set (calls s)" using i by simp
  have "d = calls s ! i" if "d \<in> set (calls s)" "call_id d = Some q" for d
    using ids_name [of "calls s" "nextId (chan s)" d "calls s ! i" q] I that mem id by blast
  then show ?thesis using I unfolding owned_def by metis
qed

lemma fresh_entries:
  assumes inv: "client_inv s" and "\<And>d. d \<in> set (calls s) \<Longrightarrow> call_id d \<noteq> Some q"
  shows "q \<notin> pendingSync (chan s)" and "pendingAsync (chan s) q = None"
  using inv assms(2) unfolding client_inv_def owned_def by (metis, metis option.exhaust)

text \<open>The sections of a calling thread, by the position of the call.\<close>

lemma caller_keep:
  assumes inv: "client_inv s" and i: "i < length (calls s)"
    and c: "calls s ! i = \<lparr>call_kind = k, call_method = m, call_request = r, call_at = pc, call_id = n\<rparr>"
    and c': "c' = \<lparr>call_kind = k, call_method = m, call_request = r, call_at = pc', call_id = n\<rparr>"
    and "matching ch = matching (chan s)"
    and "pc_ok (calls s ! i) \<Longrightarrow> call_ok (chan s) (loop_at s) (received s) (calls s ! i) \<Longrightarrow>
      pc_ok c' \<and> call_ok (chan s) (loop_at s) (received s) c'"
  shows "client_inv (s\<lparr>chan := ch, calls := (calls s)[i := c']\<rparr>)"
  using inv_quiet [OF inv i, of c' pc' ch] call_of [OF i inv] assms(4-6) c by simp

lemma caller_looking:
  assumes inv: "client_inv s" and i: "i < length (calls s)"
    and c: "calls s ! i = \<lparr>call_kind = k, call_method = m, call_request = r, call_at = Looking addr, call_id = n\<rparr>"
    and adv: "advance env late (calls s ! i) (chan s) = Some (c', ch)"
  shows "client_inv (s\<lparr>chan := ch, calls := (calls s)[i := c']\<rparr>)"
proof (cases "chan_conns (chan s) addr")
  case None
  with adv c have e: "c' = (calls s ! i)\<lparr>call_at := Dialling addr\<rparr>" "ch = chan s" by (auto simp: advance_def go_def)
  show ?thesis
    by (rule caller_keep [OF inv i c, of _ "Dialling addr"])
      (use e c in \<open>auto simp: call_defs split: call_kind.splits\<close>)
next
  case (Some conn)
  with adv c have e: "c' = (calls s ! i)\<lparr>call_at := Connected conn\<rparr>" "ch = chan s" by (auto simp: advance_def go_def)
  show ?thesis
    by (rule caller_keep [OF inv i c, of _ "Connected conn"])
      (use e c in \<open>auto simp: call_defs split: call_kind.splits\<close>)
qed

lemma caller_storing:
  assumes inv: "client_inv s" and i: "i < length (calls s)"
    and c: "calls s ! i = \<lparr>call_kind = k, call_method = m, call_request = r, call_at = Storing addr conn, call_id = n\<rparr>"
    and adv: "advance env late (calls s ! i) (chan s) = Some (c', ch)"
  shows "client_inv (s\<lparr>chan := ch, calls := (calls s)[i := c']\<rparr>)"
proof -
  have e: "c' = (calls s ! i)\<lparr>call_at := Connected conn\<rparr>" "ch = store_conn addr conn (chan s)"
    using adv c by (auto simp: advance_def go_def)
  show ?thesis
    by (rule caller_keep [OF inv i c, of _ "Connected conn"])
      (use e c in \<open>auto simp: call_defs matching_frames split: call_kind.splits\<close>)
qed

lemma caller_registered:
  assumes inv: "client_inv s" and i: "i < length (calls s)"
    and c: "calls s ! i = \<lparr>call_kind = k, call_method = m, call_request = r, call_at = Registered conn q, call_id = n\<rparr>"
    and adv: "advance env late (calls s ! i) (chan s) = Some (c', ch)"
  shows "client_inv (s\<lparr>chan := ch, calls := (calls s)[i := c']\<rparr>)"
proof (cases k)
  case (Sync cid rid)
  with adv c have e: "c' = (calls s ! i)\<lparr>call_at := Waiting conn q\<rparr>" "matching ch = matching (chan s)"
    by (auto simp: advance_def go_def matching_frames)
  show ?thesis
    by (rule caller_keep [OF inv i c, of _ "Waiting conn q"]) (use e c Sync in \<open>auto simp: call_defs\<close>)
next
  case (Async p)
  with adv c have e: "c' = (calls s ! i)\<lparr>call_at := Finished CallOk\<rparr>" "matching ch = matching (chan s)"
    by (auto simp: advance_def go_def matching_frames)
  show ?thesis
    by (rule caller_keep [OF inv i c, of _ "Finished CallOk"]) (use e c Async in \<open>auto simp: call_defs\<close>)
qed

lemma caller_waiting:
  assumes inv: "client_inv s" and i: "i < length (calls s)"
    and c: "calls s ! i = \<lparr>call_kind = k, call_method = m, call_request = r, call_at = Waiting conn q, call_id = n\<rparr>"
    and adv: "advance env late (calls s ! i) (chan s) = Some (c', ch)"
  shows "client_inv (s\<lparr>chan := ch, calls := (calls s)[i := c']\<rparr>)"
proof -
  obtain cid rid where k: "k = Sync cid rid" "n = Some q" using call_of [OF i inv] c by auto
  show ?thesis
  proof (cases "promises (chan s) q")
    case None
    with adv c k have e: "c' = (calls s ! i)\<lparr>call_at := Expired conn q\<rparr>" "ch = chan s"
      by (auto simp: advance_def go_def split: if_splits)
    show ?thesis
      by (rule caller_keep [OF inv i c, of _ "Expired conn q"]) (use e c None k in \<open>auto simp: call_defs\<close>)
  next
    case (Some rsp)
    with adv c k obtain a where a: "take_response env cid rid rsp (chan s) = Some (a, ch)"
        "c' = (calls s ! i)\<lparr>call_at := Finished a\<rparr>"
      by (auto simp: advance_def go_def bind_eq_Some_conv)
    show ?thesis
      by (rule caller_keep [OF inv i c, of _ "Finished a"])
        (use a c Some k take_response_ok matching_take in \<open>auto simp: call_defs\<close>)
  qed
qed

lemma caller_expired:
  assumes inv: "client_inv s" and i: "i < length (calls s)"
    and c: "calls s ! i = \<lparr>call_kind = k, call_method = m, call_request = r, call_at = Expired conn q, call_id = n\<rparr>"
    and adv: "advance env late (calls s ! i) (chan s) = Some (c', ch)"
  shows "client_inv (s\<lparr>chan := ch, calls := (calls s)[i := c']\<rparr>)"
proof -
  obtain cid rid where k: "k = Sync cid rid" "n = Some q" using call_of [OF i inv] c by auto
  with adv c have e: "c' = (calls s ! i)\<lparr>call_at := Finished CallFailed\<rparr>"
      "ch = fail_controller cid ''request timeout'' (removePending q (chan s))"
    by (auto simp: advance_def go_def)
  have m: "matching ch = matching (removePending q (chan s))" by (simp add: e matching_frames)
  show ?thesis
  proof (rule inv_call [OF inv i])
    show "ids_ok ((calls s)[i := c']) (nextId ch)"
      using inv e m ids_ok_update [of "calls s" "nextId (chan s)" c' i]
      by (simp add: client_inv_def matching_def removePending_def)
    show "(j \<in> pendingSync ch \<longrightarrow> (\<exists>cid rid. call_kind c' = Sync cid rid))
        \<and> (\<forall>p. pendingAsync ch j = Some p \<longrightarrow> call_kind c' = Async p)" if "call_id c' = Some j" for j
      using that m e k c own_entries [OF inv i, of j] by (auto simp: matching_def removePending_def)
  qed (use m e c k call_of [OF i inv] in \<open>auto simp: matching_def removePending_def call_defs\<close>)
qed

lemma caller_numbered:
  assumes inv: "client_inv s" and i: "i < length (calls s)"
    and c: "calls s ! i = \<lparr>call_kind = k, call_method = m, call_request = r, call_at = Numbered conn q, call_id = n\<rparr>"
    and adv: "advance env late (calls s ! i) (chan s) = Some (c', ch)"
  shows "client_inv (s\<lparr>chan := ch, calls := (calls s)[i := c']\<rparr>)"
proof -
  have n: "n = Some q" using call_of [OF i inv] c by simp
  have e: "c' = (calls s ! i)\<lparr>call_at := Registered conn q\<rparr>" "ch = register_call k q (chan s)"
    using adv c by (auto simp: advance_def go_def)
  have same: "nextId ch = nextId (chan s)" "closures_run ch = closures_run (chan s)"
    by (simp_all add: e register_call_def split: call_kind.split)
  show ?thesis
  proof (rule inv_call [OF inv i])
    show "ids_ok ((calls s)[i := c']) (nextId ch)"
      using inv e(1) same ids_ok_update [of "calls s" "nextId (chan s)" c' i] by (simp add: client_inv_def)
    show "same_at j (chan s) ch" if "call_id c' \<noteq> Some j" for j
      using that e c n by (auto simp: same_at_def register_call_def split: call_kind.split)
    show "(j \<in> pendingSync ch \<longrightarrow> (\<exists>cid rid. call_kind c' = Sync cid rid))
        \<and> (\<forall>p. pendingAsync ch j = Some p \<longrightarrow> call_kind c' = Async p)" if "call_id c' = Some j" for j
      using that e c n own_entries [OF inv i, of j]
      by (cases "pendingAsync (chan s) j") (auto simp: register_call_def split: call_kind.splits)
    show "call_ok ch (loop_at s) (received s) c'"
      using e c n call_of [OF i inv] by (auto simp: register_call_def call_defs split: call_kind.splits)
  qed (use e c n same in simp_all)
qed

lemma caller_connected:
  assumes inv: "client_inv s" and i: "i < length (calls s)"
    and c: "calls s ! i = \<lparr>call_kind = k, call_method = m, call_request = r, call_at = Connected conn, call_id = n\<rparr>"
    and adv: "advance env late (calls s ! i) (chan s) = Some (c', ch)"
    and bound: "issued ((calls s)[i := c']) \<le> 2 ^ 64"
  shows "client_inv (s\<lparr>chan := ch, calls := (calls s)[i := c']\<rparr>)"
proof -
  have n: "n = None" using call_of [OF i inv] c by simp
  have e: "c' = (calls s ! i)\<lparr>call_id := Some (nextId (chan s)), call_at := Numbered conn (nextId (chan s))\<rparr>"
      "ch = take_id (chan s)"
    using adv c by (auto simp: advance_def go_def)
  have ids: "ids_ok ((calls s)[i := c']) (nextId ch)"
    using ids_ok_new [of "calls s" "nextId (chan s)" i c'] inv i c n e bound by (simp add: take_id_def client_inv_def)
  have fresh: "call_id d \<noteq> Some (nextId (chan s))" if mem: "d \<in> set (calls s)" for d
  proof
    assume d: "call_id d = Some (nextId (chan s))"
    obtain j where j: "j < length (calls s)" "d = calls s ! j" using mem by (auto simp: in_set_conv_nth)
    then have "j \<noteq> i" using d c n by auto
    moreover have "call_id ((calls s)[i := c'] ! i) = Some (nextId (chan s))" using i e by simp
    moreover have "call_id ((calls s)[i := c'] ! j) = Some (nextId (chan s))" using j d \<open>j \<noteq> i\<close> by simp
    ultimately show False using ids i j(1) unfolding ids_ok_def length_list_update by blast
  qed
  have same: "pendingSync ch = pendingSync (chan s)" "promises ch = promises (chan s)"
      "pendingAsync ch = pendingAsync (chan s)" "closures_run ch = closures_run (chan s)"
    using e by (simp_all add: take_id_def)
  show ?thesis
    by (rule inv_call [OF inv i _ _ ids])
      (use e c n same fresh_entries [OF inv fresh] call_of [OF i inv] in \<open>auto simp: call_defs split: call_kind.splits\<close>)
qed

lemma caller_dialling:
  assumes inv: "client_inv s" and i: "i < length (calls s)"
    and c: "calls s ! i = \<lparr>call_kind = k, call_method = m, call_request = r, call_at = Dialling addr, call_id = n\<rparr>"
    and adv: "advance env late (calls s ! i) (chan s) = Some (c', ch)"
  shows "client_inv (s\<lparr>chan := ch, calls := (calls s)[i := c']\<rparr>)"
proof -
  have n: "n = None" using call_of [OF i inv] c by simp
  obtain a ch1 where d: "dial env addr (chan s) = (a, ch1)" by fastforce
  note m = matching_dial [OF d]
  note keep = caller_keep [OF inv i c]
  show ?thesis
  proof (cases a)
    case (Conn conn)
    with adv c d have "c' = (calls s ! i)\<lparr>call_at := Storing addr conn\<rparr>" "ch = ch1" by (auto simp: advance_def go_def)
    then show ?thesis
      by (intro keep [of _ "Storing addr conn"]) (use c m in \<open>auto simp: call_defs split: call_kind.splits\<close>)
  next
    case ConnThrew
    with adv c d have "c' = (calls s ! i)\<lparr>call_at := Finished CallThrew\<rparr>" "ch = ch1" by (auto simp: advance_def go_def)
    then show ?thesis
      by (intro keep [of _ "Finished CallThrew"]) (use c m n in \<open>auto simp: call_defs split: call_kind.splits\<close>)
  next
    case NoConn
    with adv c d have e: "c' = (calls s ! i)\<lparr>call_at := Finished CallFailed\<rparr>" "ch = connect_failed k ch1"
      by (auto simp: advance_def go_def)
    show ?thesis
    proof (cases k)
      case (Sync cid rid)
      show ?thesis
        by (rule keep [of _ "Finished CallFailed"])
          (use e c Sync m n in \<open>auto simp: connect_failed_def matching_frames call_defs\<close>)
    next
      case (Async p)
      have f: "pendingSync ch = pendingSync (chan s)" "promises ch = promises (chan s)"
          "pendingAsync ch = pendingAsync (chan s)" "nextId ch = nextId (chan s)"
          "closures_run ch = closures_run (chan s) @ [pa_done p]"
        using e(2) Async m
        by (simp_all add: connect_failed_def fail_controller_def set_controller_def matching_def Let_def)
      have "ids_ok ((calls s)[i := c']) (nextId ch)"
        using inv e(1) f(4) ids_ok_update [of "calls s" "nextId (chan s)" c' i] by (simp add: client_inv_def)
      then show ?thesis
        by (intro inv_call [OF inv i]) (use e c n f Async call_of [OF i inv] in \<open>auto simp: call_defs\<close>)
    qed
  qed
qed

text \<open>Any section of a calling thread.\<close>

lemma caller_inv:
  assumes inv: "client_inv s" and i: "i < length (calls s)"
    and adv: "advance env late (calls s ! i) (chan s) = Some (c', ch)"
    and bound: "issued ((calls s)[i := c']) \<le> 2 ^ 64"
  shows "client_inv (s\<lparr>chan := ch, calls := (calls s)[i := c']\<rparr>)"
proof -
  obtain k m r pc n where c: "calls s ! i = \<lparr>call_kind = k, call_method = m, call_request = r, call_at = pc, call_id = n\<rparr>"
    by (cases "calls s ! i")
  show ?thesis
  proof (cases pc)
    case (Finished r)
    with adv c show ?thesis by (simp add: advance_def)
  next
    case (Connected conn)
    from caller_connected [OF inv i c [unfolded Connected] adv bound] show ?thesis .
  qed (use c caller_looking [OF inv i _ adv] caller_dialling [OF inv i _ adv] caller_storing [OF inv i _ adv]
    caller_numbered [OF inv i _ adv] caller_registered [OF inv i _ adv] caller_waiting [OF inv i _ adv]
    caller_expired [OF inv i _ adv] in \<open>metis\<close>)+
qed

text \<open>A section of the loop thread.\<close>

lemma inv_loop:
  assumes inv: "client_inv s" and "nextId ch = nextId (chan s)" and "owned (calls s) ch" and "loop_ok (calls s) rs l"
    and "\<And>c. c \<in> set (calls s) \<Longrightarrow> pc_ok c \<Longrightarrow> call_ok (chan s) (loop_at s) (received s) c \<Longrightarrow> call_ok ch l rs c"
  shows "client_inv (s\<lparr>chan := ch, loop_at := l, received := rs\<rparr>)"
  using assms by (simp add: client_inv_def)

lemma arrive_inv:
  assumes inv: "client_inv s" and "loop_at s = Polling" and m: "matching ch = matching (chan s)"
    and "loop_ok (calls s) rs l" and "\<not> (\<exists>d. in_loop l d)" and "set (received s) \<subseteq> set rs"
  shows "client_inv (s\<lparr>chan := ch, loop_at := l, received := rs\<rparr>)"
proof (rule inv_loop [OF inv])
  show "owned (calls s) ch" using inv m by (simp add: client_inv_def owned_def matching_def)
  show "call_ok ch l rs c" if "pc_ok c" "call_ok (chan s) (loop_at s) (received s) c" for c
    using call_ok_frame [OF that(2,1) same_at_matching [OF m], of l rs] assms(2,5,6) m by (simp add: matching_def)
qed (use assms in \<open>simp_all add: matching_def\<close>)

lemma received_id: "s\<lparr>chan := ch, loop_at := l, received := received s\<rparr> = s\<lparr>chan := ch, loop_at := l\<rparr>"
  by simp

lemma handle_parsed:
  assumes rt: "pb_runtime_ok (ce_rt env)" and inv: "client_inv s" and at: "loop_at s = Parsed k rsp"
    and adv: "loop_advance env (Parsed k rsp) (chan s) = Some (l, ch)"
  shows "client_inv (s\<lparr>chan := ch, loop_at := l\<rparr>)"
proof -
  note I = inv [unfolded client_inv_def]
  note loop = inv_loop [OF inv, of ch "received s" l, unfolded received_id]
  show ?thesis
  proof (cases "k \<in> pendingSync (chan s)")
    case False
    with adv have "l = Unclaimed k rsp" "ch = chan s" by (auto simp: sync_section_def)
    then show ?thesis
      using I at by (intro loop) (auto intro: call_ok_frame simp: same_at_def)
  next
    case True
    with adv pb_runtime_ok.response_copied [OF rt] have e: "l = Polling"
        "ch = (chan s)\<lparr>promises := (promises (chan s))(k \<mapsto> rsp), pendingSync := pendingSync (chan s) - {k}\<rparr>"
      by (auto simp: sync_section_def)
    have rcv: "(k, rsp) \<in> set (received s)" using I at by simp
    show ?thesis
    proof (rule loop)
      show "call_ok ch l (received s) c"
        if "c \<in> set (calls s)" "pc_ok c" "call_ok (chan s) (loop_at s) (received s) c" for c
        using that(2,3) rcv at e True
        by (cases c) (auto simp: call_defs split: call_kind.splits call_pc.splits option.splits)
    qed (use I at e in \<open>auto simp: owned_def\<close>)
  qed
qed

lemma handle_unclaimed:
  assumes inv: "client_inv s" and at: "loop_at s = Unclaimed k rsp"
    and adv: "loop_advance env (Unclaimed k rsp) (chan s) = Some (l, ch)"
  shows "client_inv (s\<lparr>chan := ch, loop_at := l\<rparr>)"
proof -
  note I = inv [unfolded client_inv_def]
  note loop = inv_loop [OF inv, of ch "received s" l, unfolded received_id]
  show ?thesis
  proof (cases "pendingAsync (chan s) k")
    case None
    with adv have "l = Polling" "ch = chan s" by (auto simp: async_section_def)
    then show ?thesis
      using I at by (intro loop) (auto intro: call_ok_frame simp: same_at_def)
  next
    case (Some p)
    with adv have e: "l = Calling p rsp" "ch = (chan s)\<lparr>pendingAsync := (pendingAsync (chan s))(k := None)\<rparr>"
      by (auto simp: async_section_def)
    obtain d where d: "d \<in> set (calls s)" "call_kind d = Async p" "call_id d = Some k"
      using I Some unfolding owned_def by blast
    have rcv: "(k, rsp) \<in> set (received s)" using I at by simp
    show ?thesis
    proof (rule loop)
      show "call_ok ch l (received s) c"
        if c: "c \<in> set (calls s)" "pc_ok c" "call_ok (chan s) (loop_at s) (received s) c" for c
      proof (cases "c = d")
        case True
        with c(2,3) d(2,3) Some at e rcv show ?thesis
          by (cases c) (auto simp: call_defs split: call_pc.splits)
      next
        case False
        with ids_name [OF conjunct1 [OF I] c(1) d(1) _ d(3)] have "call_id c \<noteq> Some k" by blast
        moreover have "pa_done q \<noteq> pa_done p" if "call_kind c = Async q" for q
          using closures_name [OF conjunct1 [OF conjunct2 [OF I]] c(1) d(1) that d(2)] False by blast
        ultimately show ?thesis
          using call_ok_frame [OF c(3,2), of ch l "received s"] e at by (force simp: same_at_def)
      qed
    qed (use I at e d in \<open>auto simp: owned_def\<close>)
  qed
qed

lemma handle_calling:
  assumes inv: "client_inv s" and at: "loop_at s = Calling p rsp"
    and adv: "loop_advance env (Calling p rsp) (chan s) = Some (l, ch)"
  shows "client_inv (s\<lparr>chan := ch, loop_at := l\<rparr>)"
proof -
  note I = inv [unfolded client_inv_def]
  from adv have r: "run_callback env p rsp (chan s) = Some ch" "l = Polling" by auto
  note f = matching_callback [OF r(1)]
  obtain d k where d: "d \<in> set (calls s)" "call_kind d = Async p" "call_id d = Some k" using I at by auto
  have "pc_ok d" "call_ok (chan s) (loop_at s) (received s) d" using I d(1) by blast+
  then have new: "pa_done p \<notin> set (closures_run (chan s))" and gone: "call_ok ch l (received s) d"
    using d(2,3) at r(2) f by (cases d, auto simp: call_defs split: call_pc.splits)+
  show ?thesis
  proof (rule inv_loop [OF inv, of ch "received s" l, unfolded received_id])
    show "call_ok ch l (received s) c"
      if c: "c \<in> set (calls s)" "pc_ok c" "call_ok (chan s) (loop_at s) (received s) c" for c
    proof (cases "c = d")
      case False
      have "pa_done q \<noteq> pa_done p" if "call_kind c = Async q" for q
        using closures_name [OF conjunct1 [OF conjunct2 [OF I]] c(1) d(1) that d(2)] False by blast
      then show ?thesis
        using call_ok_frame [OF c(3,2), of ch l "received s"] f r(2) at by (force simp: same_at_def)
    qed (use gone in simp)
    have "pa_done p \<in> closures (calls s)" using d(1,2) by (auto simp: closures_def)
    with I f new show "owned (calls s) ch" by (auto simp: owned_def)
  qed (use f r(2) in simp_all)
qed

lemma handle_inv:
  assumes "pb_runtime_ok (ce_rt env)" and "client_inv s"
    and "loop_advance env (loop_at s) (chan s) = Some (l, ch)"
  shows "client_inv (s\<lparr>chan := ch, loop_at := l\<rparr>)"
proof (cases "loop_at s")
  case Polling
  with assms(3) show ?thesis by simp
next
  case (Parsed k rsp)
  show ?thesis by (rule handle_parsed [OF assms(1,2) Parsed assms(3) [unfolded Parsed]])
next
  case (Unclaimed k rsp)
  show ?thesis by (rule handle_unclaimed [OF assms(2) Unclaimed assms(3) [unfolded Unclaimed]])
next
  case (Calling p rsp)
  show ?thesis by (rule handle_calling [OF assms(2) Calling assms(3) [unfolded Calling]])
qed

section \<open>Reachable states\<close>

lemma issued_le:
  assumes "call_id (cs ! i) \<noteq> None \<Longrightarrow> call_id c \<noteq> None"
  shows "issued cs \<le> issued (cs[i := c])"
  unfolding issued_def by (rule card_mono) (use assms in \<open>auto simp: nth_updated\<close>)

lemma advance_keeps:
  assumes "advance env late c ch = Some (c', ch')" and "call_id c \<noteq> None"
  shows "call_id c' \<noteq> None"
  using assms
  by (auto simp: advance_def go_def bind_eq_Some_conv split: call_pc.splits option.splits conn_result.splits
      prod.splits call_kind.splits if_splits)

lemma step_issued: "client_step env honest s s' \<Longrightarrow> issued (calls s) \<le> issued (calls s')"
proof (induction rule: client_step.induct)
  case (caller i s late c ch)
  show ?case using issued_le [of "calls s" i c] advance_keeps [OF caller(2)] by simp
qed (simp_all add: issued_append)

lemma step_inv:
  assumes rt: "pb_runtime_ok (ce_rt env)" and "client_step env honest s s'" and "client_inv s"
    and "issued (calls s') \<le> 2 ^ 64"
  shows "client_inv s'"
  using assms(2-4)
proof (induction rule: client_step.induct)
  case (begin_sync s cid rid m request addr)
  then show ?case by (intro inv_begin) auto
next
  case (begin_async p s m request addr)
  then show ?case by (intro inv_begin) auto
next
  case (caller i s late c ch)
  then show ?case using caller_inv [of s i env late c ch] by simp
next
  case (arrive_nothing s conn data ch)
  have "matching ch = matching (chan s)"
    using matching_decode [OF arrive_nothing(2)] by (simp add: matching_frames)
  with arrive_inv [of s ch "received s" "loop_at s"] arrive_nothing show ?case by (simp add: client_inv_def)
next
  case (arrive_response s conn data ch reqId rsp)
  have "matching ch = matching (chan s)"
    using matching_decode [OF arrive_response(2)] by (simp add: matching_frames)
  with arrive_inv [of s ch "received s @ [(reqId, rsp)]" "Parsed reqId rsp"] arrive_response show ?case
    by (simp add: subset_insertI)
next
  case (handle s pc ch)
  then show ?case using handle_inv [OF rt] by blast
qed

lemma start_inv: "client_start s \<Longrightarrow> client_inv s"
  by (auto simp: client_start_def client_inv_def ids_ok_def issued_def closures_unique_def owned_def RpcChannel_new_def)

text \<open>What an honest server adds: a response in the hands of the loop belongs to a request that was sent.\<close>

fun honest_ok :: "'u loop_pc \<Rightarrow> call list \<Rightarrow> ('u, 'g, 'r) RpcChannel \<Rightarrow> bool" where
  "honest_ok (Parsed k rsp) cs ch = (k \<in> sent_ids cs)"
| "honest_ok (Unclaimed k rsp) cs ch = (k \<in> sent_ids cs \<and> k \<notin> pendingSync ch)"
| "honest_ok _ cs ch = True"

lemma advance_sent:
  assumes "advance env late c ch = Some (c', ch')" and "was_sent (call_at c)" and "call_id c = Some k"
  shows "was_sent (call_at c') \<and> call_id c' = Some k"
  using assms
  by (auto simp: advance_def go_def bind_eq_Some_conv split: call_pc.splits option.splits call_kind.splits if_splits)

lemma advance_registers:
  assumes "advance env late c ch = Some (c', ch')" and "k \<in> pendingSync ch'" and "k \<notin> pendingSync ch"
  shows "\<exists>conn. call_at c = Numbered conn k"
proof -
  have q: "pendingSync d = pendingSync e" if "matching d = matching e" for d e :: "('a, 'b, 'c) RpcChannel"
    using that by (simp add: matching_def)
  show ?thesis
    using assms q [OF matching_dial] q [OF matching_take] q [OF matching_frames(1)] q [OF matching_frames(2)]
      q [OF matching_frames(3)]
    by (auto simp: advance_def go_def bind_eq_Some_conv take_id_def removePending_def connect_failed_def
        register_call_def Let_def split: call_pc.splits option.splits conn_result.splits prod.splits call_kind.splits
        if_splits)
qed

lemma sent_append: "sent_ids cs \<subseteq> sent_ids (cs @ [c])"
  by (auto simp: sent_ids_def)

lemma sent_update:
  assumes i: "i < length cs" and adv: "advance env late (cs ! i) ch = Some (c, ch')"
  shows "sent_ids cs \<subseteq> sent_ids (cs[i := c])"
proof
  fix k assume "k \<in> sent_ids cs"
  then obtain d where d: "d \<in> set cs" "call_id d = Some k" "was_sent (call_at d)" by (auto simp: sent_ids_def)
  then obtain j where j: "j < length cs" "d = cs ! j" by (auto simp: in_set_conv_nth)
  have "call_id (cs[i := c] ! j) = Some k \<and> was_sent (call_at (cs[i := c] ! j))"
    using advance_sent [OF adv] d j by (auto simp: nth_updated)
  then show "k \<in> sent_ids (cs[i := c])" using j(1) by (auto simp: sent_ids_def intro!: bexI [OF _ nth_mem])
qed

lemma honest_mono:
  "honest_ok l cs ch \<Longrightarrow> sent_ids cs \<subseteq> sent_ids cs' \<Longrightarrow> (\<And>k. k \<in> sent_ids cs \<Longrightarrow> k \<in> pendingSync ch' \<Longrightarrow> k \<in> pendingSync ch)
   \<Longrightarrow> honest_ok l cs' ch'"
  by (cases l) auto

lemma step_honest:
  assumes "client_step env True s s'" and "client_inv s" and "honest_ok (loop_at s) (calls s) (chan s)"
  shows "honest_ok (loop_at s') (calls s') (chan s')"
  using assms
proof (induction rule: client_step.induct)
  case (begin_sync s cid rid m request addr)
  then show ?case using honest_mono [OF _ sent_append] by simp
next
  case (begin_async p s m request addr)
  then show ?case using honest_mono [OF _ sent_append] by simp
next
  case (caller i s late c ch)
  have "k \<in> pendingSync (chan s)" if k: "k \<in> sent_ids (calls s)" "k \<in> pendingSync ch" for k
  proof (rule ccontr)
    assume "k \<notin> pendingSync (chan s)"
    with advance_registers [OF caller(2) k(2)] obtain conn where n: "call_at (calls s ! i) = Numbered conn k" by blast
    have "pc_ok (calls s ! i)" using call_of [OF caller(1,3)] by blast
    then have id: "call_id (calls s ! i) = Some k" using n by (cases "calls s ! i") simp
    obtain d where d: "d \<in> set (calls s)" "call_id d = Some k" "was_sent (call_at d)" using k(1) by (auto simp: sent_ids_def)
    have "d = calls s ! i"
      using ids_name [OF _ d(1) nth_mem [OF caller(1)] d(2) id] caller(3) unfolding client_inv_def by blast
    with d(3) n show False by simp
  qed
  from honest_mono [OF caller(4) sent_update [OF caller(1,2)] this] show ?case by simp
next
  case (handle s pc ch)
  then show ?case
    by (cases "loop_at s") (auto simp: sync_section_def async_section_def split: if_splits option.splits)
qed simp_all

text \<open>While fewer than \<open>2 ^ 64\<close> ids were issued, every reachable state is sound.\<close>

definition sound :: "('u, 'g, 'r) client_env \<Rightarrow> bool \<Rightarrow> ('u, 'g, 'r) client_run \<Rightarrow> bool" where
  "sound env honest s \<longleftrightarrow> (pb_runtime_ok (ce_rt env) \<and> issued (calls s) \<le> 2 ^ 64 \<longrightarrow>
     client_inv s \<and> (honest \<longrightarrow> honest_ok (loop_at s) (calls s) (chan s)))"

interpretation crun: step_system client_start "client_step env honest" "sound env honest" for env honest
proof
  show "sound env honest s" if "client_start s" for s
    using that by (auto simp: sound_def start_inv) (simp add: client_start_def)
  show "sound env honest s'" if "sound env honest s" "client_step env honest s s'" for s s'
    using that step_issued [OF that(2)] step_inv [OF _ that(2)] step_honest [of env s s']
    by (cases honest) (auto simp: sound_def)
qed

lemma client_reachable_inv:
  assumes "pb_runtime_ok (ce_rt env)" and "client_reachable env honest s" and "issued (calls s) \<le> 2 ^ 64"
  shows "client_inv s"
  using assms crun.steps_inv [of _ env honest s] by (auto simp: client_reachable_def sound_def)

lemma reachable_honest:
  assumes "pb_runtime_ok (ce_rt env)" and "client_reachable env True s" and "issued (calls s) \<le> 2 ^ 64"
  shows "honest_ok (loop_at s) (calls s) (chan s)"
  using assms crun.steps_inv [of _ env True s] by (auto simp: client_reachable_def sound_def)

text \<open>Running a schedule: who moves next.\<close>

lemma reachable_start: "client_start s \<Longrightarrow> client_reachable env honest s"
  by (auto simp: client_reachable_def)

lemma reachable_step: "client_reachable env honest s \<Longrightarrow> client_step env honest s s' \<Longrightarrow> client_reachable env honest s'"
  by (auto simp: client_reachable_def intro: rtranclp.rtrancl_into_rtrancl)

fun run_calls ::
  "('u, 'g, 'r) client_env \<Rightarrow> nat list \<Rightarrow> ('u, 'g, 'r) client_run \<Rightarrow> ('u, 'g, 'r) client_run option" where
  "run_calls env [] s = Some s"
| "run_calls env (i # is) s =
     (if i < length (calls s)
      then Option.bind (advance env False (calls s ! i) (chan s))
             (\<lambda>(c, ch). run_calls env is (s\<lparr>chan := ch, calls := (calls s)[i := c]\<rparr>))
      else None)"

lemma run_calls_reachable:
  "run_calls env is s = Some s' \<Longrightarrow> client_reachable env honest s \<Longrightarrow> client_reachable env honest s'"
proof (induction env "is" s rule: run_calls.induct)
  case (2 env i "is" s)
  then obtain c ch where i: "i < length (calls s)" "advance env False (calls s ! i) (chan s) = Some (c, ch)"
      "run_calls env is (s\<lparr>chan := ch, calls := (calls s)[i := c]\<rparr>) = Some s'"
    by (auto simp: bind_eq_Some_conv split: if_splits)
  from 2(1) [OF i(1) i(2) refl i(3) reachable_step [OF 2(3) client_step.caller [OF i(1,2)]]] show ?case .
qed simp

text \<open>
  A channel never forgets a connection: whatever happens to it, later calls to its address find an entry
  and do not dial again.
\<close>

lemma conns_frames:
  "chan_conns (fail_controller cid reason ch) = chan_conns ch"
  "run_callback env p rsp ch = Some ch' \<Longrightarrow> chan_conns ch' = chan_conns ch"
  "dial env addr ch = (r, ch') \<Longrightarrow> chan_conns ch' = chan_conns ch"
  "take_response env cid rid rsp ch = Some (q, ch') \<Longrightarrow> chan_conns ch' = chan_conns ch"
  "decode_response env conn ch = Some (ch', d) \<Longrightarrow> chan_conns ch' = chan_conns ch"
  by (auto simp: fail_controller_def set_controller_def run_callback_def dial_def take_response_def
      decode_response_def Let_def split: if_splits stoi_result.splits prod.splits)

lemma advance_conns: "advance env late c ch = Some (c', ch') \<Longrightarrow> dom (chan_conns ch) \<subseteq> dom (chan_conns ch')"
  by (auto simp: advance_def go_def bind_eq_Some_conv store_conn_def take_id_def register_call_def transmit_def
      removePending_def connect_failed_def Let_def conns_frames
      split: call_pc.splits option.splits conn_result.splits prod.splits call_kind.splits if_splits dest: conns_frames(2-))

lemma step_conns: "client_step env honest s s' \<Longrightarrow> dom (chan_conns (chan s)) \<subseteq> dom (chan_conns (chan s'))"
proof (induction rule: client_step.induct)
  case (caller i s late c ch)
  then show ?case using advance_conns by force
next
  case (handle s pc ch)
  then show ?case
    by (cases "loop_at s")
      (auto simp: sync_section_def async_section_def conns_frames split: if_splits option.splits)
qed (auto simp: conns_frames)

theorem connections_stay:
  "(client_step env honest)\<^sup>*\<^sup>* s s' \<Longrightarrow> addr \<in> dom (chan_conns (chan s)) \<Longrightarrow>
   call_at c = Looking addr \<Longrightarrow> \<exists>conn. advance env late c (chan s') = go (Connected conn) c (chan s')"
proof -
  assume "(client_step env honest)\<^sup>*\<^sup>* s s'" and "addr \<in> dom (chan_conns (chan s))" and c: "call_at c = Looking addr"
  then have "addr \<in> dom (chan_conns (chan s'))"
    by (induction rule: rtranclp_induct) (use step_conns in blast)+
  then show ?thesis using c by (auto simp: advance_def)
qed

section \<open>Runs for examples\<close>

definition sample_start :: "(bytes, unit, bytes) client_run" where
  "sample_start = \<lparr>chan = RpcChannel_new (RegistryClient_new Map.empty ''r'' 80 30 2) ''M'' ROUND_ROBIN ()
       (\<lambda>_. CustomController_new) (\<lambda>_. []), calls = [], loop_at = Polling, received = []\<rparr>"

lemma sample_start_ok: "client_start sample_start"
  by (simp add: client_start_def sample_start_def) blast

lemma sample_dial: "\<exists>ch conn. dial sample_env ''h:1'' sample_channel = (Conn conn, ch)"
  using stoi_show [of 1]
  by (simp add: dial_def createNonBlockingConnection_def sample_env_def show_nat.simps char_of_def bit_0)

text \<open>The loop receives a response that belongs to no synchronous call.\<close>

lemma delivered:
  assumes rt: "pb_runtime_ok (ce_rt env)" and s: "client_reachable env True s" "loop_at s = Polling"
      "idle_input (chan s) conn" "k \<in> sent_ids (calls s)" "k \<notin> pendingSync (chan s)"
    and rsp: "proper_response (ce_rt env) rsp"
  shows "\<exists>b s'. client_reachable env True s' \<and> loop_at s' = Unclaimed k rsp \<and> calls s' = calls s
    \<and> chan s' = (chan s)\<lparr>inbufs := (inbufs (chan s))(conn := b)\<rparr> \<and> idle_input (chan s') conn"
proof -
  let ?data = "response_frame BigEndian (ce_rt env) k rsp"
  let ?d = "RpcResponse_InternalSerialize (ce_rt env) rsp"
  let ?ch = "(chan s)\<lparr>inbufs := (inbufs (chan s))(conn := fill_input ?data (inbufs (chan s) conn))\<rparr>"
  have d: "fits ?d" "?d \<noteq> []" "RpcResponse_wf (ce_rt env) rsp" using rsp by (simp_all add: proper_response_def)
  have "buf_inv (inbufs ?ch conn)" "contents (inbufs ?ch conn) = ?data @ []"
    using s(3) fill_input_spec by (simp_all add: idle_input_def)
  with rc.unpack_frame [OF this(1) d(1), of BigEndian k "[]" "ce_order env"]
  obtain b where b: "tryUnpackWithId (ce_order env) (inbufs ?ch conn) 0 = (?d, k, b)" "buf_inv b" "contents b = []"
    by (auto simp: response_frame_def)
  let ?ch' = "(chan s)\<lparr>inbufs := (inbufs (chan s))(conn := b)\<rparr>"
  have "decode_response env conn ?ch = Some (?ch', Some (k, rsp))"
    using b(1) d(2) pb_runtime_ok.response_reads_back [OF rt d(3)] by (simp add: decode_response_def Let_def)
  from client_step.arrive_response [OF s(2) this, of True] s(1,4)
  have "client_reachable env True (s\<lparr>chan := ?ch', loop_at := Parsed k rsp, received := received s @ [(k, rsp)]\<rparr>)"
    (is "client_reachable _ _ ?s1") using reachable_step by blast
  moreover have "client_step env True ?s1 (?s1\<lparr>chan := ?ch', loop_at := Unclaimed k rsp\<rparr>)"
    by (rule client_step.handle) (use s(5) in \<open>simp add: sync_section_def\<close>)
  ultimately have "client_reachable env True (?s1\<lparr>chan := ?ch', loop_at := Unclaimed k rsp\<rparr>)" using reachable_step by blast
  then show ?thesis
    using b(2,3) by (intro exI [of _ b] exI [of _ "?s1\<lparr>chan := ?ch', loop_at := Unclaimed k rsp\<rparr>"])
      (simp add: idle_input_def)
qed

text \<open>The loop answers a pending asynchronous call.\<close>

lemma called_back:
  assumes "client_reachable env honest s" and "loop_at s = Unclaimed k rsp" and "pendingAsync (chan s) k = Some p"
    and "run_callback env p rsp ((chan s)\<lparr>pendingAsync := (pendingAsync (chan s))(k := None)\<rparr>) = Some ch"
  shows "client_reachable env honest (s\<lparr>chan := ch, loop_at := Polling\<rparr>)"
proof -
  let ?ch = "(chan s)\<lparr>pendingAsync := (pendingAsync (chan s))(k := None)\<rparr>"
  have "client_step env honest s (s\<lparr>chan := ?ch, loop_at := Calling p rsp\<rparr>)"
    by (rule client_step.handle) (use assms(2,3) in \<open>simp add: async_section_def\<close>)
  from reachable_step [OF assms(1) this]
  have "client_reachable env honest (s\<lparr>chan := ?ch, loop_at := Calling p rsp\<rparr>)" .
  moreover have "client_step env honest (s\<lparr>chan := ?ch, loop_at := Calling p rsp\<rparr>)
      ((s\<lparr>chan := ?ch, loop_at := Calling p rsp\<rparr>)\<lparr>chan := ch, loop_at := Polling\<rparr>)"
    by (rule client_step.handle) (use assms(4) in simp)
  ultimately have "client_reachable env honest ((s\<lparr>chan := ?ch, loop_at := Calling p rsp\<rparr>)\<lparr>chan := ch, loop_at := Polling\<rparr>)"
    by (rule reachable_step)
  then show ?thesis by simp
qed

section \<open>Properties of concurrent calls\<close>

text \<open>Which calls an answer can no longer reach.\<close>

definition answered :: "('u, 'g, 'r) client_run \<Rightarrow> call \<Rightarrow> bool" where
  "answered s c \<longleftrightarrow> (case call_kind c of
     Sync _ _ \<Rightarrow> (\<exists>k. call_id c = Some k \<and> promises (chan s) k \<noteq> None)
   | Async p \<Rightarrow> pa_done p \<in> set (closures_run (chan s)))"

definition gave_up :: "call \<Rightarrow> bool" where
  "gave_up c \<longleftrightarrow> (case call_kind c of
     Sync _ _ \<Rightarrow> (\<exists>conn k. call_at c = Expired conn k) \<or> (\<exists>r. call_at c = Finished r)
   | Async _ \<Rightarrow> False)"

text \<open>The connections that something keeps alive: the map of the channel, or a call that still uses it.\<close>

fun uses_conn :: "call_pc \<Rightarrow> nat \<Rightarrow> bool" where
  "uses_conn (Looking _) conn = False"
| "uses_conn (Dialling _) conn = False"
| "uses_conn (Storing _ x) conn = (x = conn)"
| "uses_conn (Connected x) conn = (x = conn)"
| "uses_conn (Numbered x _) conn = (x = conn)"
| "uses_conn (Registered x _) conn = (x = conn)"
| "uses_conn (Waiting x _) conn = (x = conn)"
| "uses_conn (Expired x _) conn = (x = conn)"
| "uses_conn (Finished _) conn = False"

definition held :: "('u, 'g, 'r) client_run \<Rightarrow> nat \<Rightarrow> bool" where
  "held s conn \<longleftrightarrow> conn \<in> Map.ran (chan_conns (chan s)) \<or> (\<exists>c \<in> set (calls s). uses_conn (call_at c) conn)"

fun pc_rank :: "call_pc \<Rightarrow> nat" where
  "pc_rank (Looking _) = 8"
| "pc_rank (Dialling _) = 7"
| "pc_rank (Storing _ _) = 6"
| "pc_rank (Connected _) = 5"
| "pc_rank (Numbered _ _) = 4"
| "pc_rank (Registered _ _) = 3"
| "pc_rank (Waiting _ _) = 2"
| "pc_rank (Expired _ _) = 1"
| "pc_rank (Finished _) = 0"

lemma advance_rank: "advance env late c ch = Some (c', ch') \<Longrightarrow> pc_rank (call_at c') < pc_rank (call_at c)"
  by (auto simp: advance_def go_def bind_eq_Some_conv split: call_pc.splits option.splits conn_result.splits
      prod.splits call_kind.splits if_splits)

lemma advance_late:
  fixes env :: "('u, 'g, 'r) client_env" and ch :: "('u, 'g, 'r) RpcChannel"
  assumes "pc_ok c" and "\<And>r. call_at c \<noteq> Finished r" and total: "\<And>m bs. ce_parse env m bs \<noteq> None"
  shows "advance env True c ch \<noteq> None"
proof -
  have "\<exists>x y. Option.bind (take_response env cid rid rsp ch) (\<lambda>(r, ch1). go (Finished r) d ch1) = Some (x, y)"
    for cid rid rsp d
    using total [of "responses ch rid" "result rsp"] by (auto simp: take_response_def go_def)
  moreover have "\<exists>x y. go pc d ch' = Some (x, y)" for pc d and ch' :: "('u, 'g, 'r) RpcChannel" by (simp add: go_def)
  ultimately show ?thesis
    using assms(1,2) by (cases c) (auto simp: advance_def split: call_pc.splits option.splits conn_result.splits
      prod.splits call_kind.splits)
qed

lemma dial_uniform:
  "dial env addr ch0 = (Conn conn0, ch1) \<Longrightarrow>
   dial env addr ch = (Conn (new_conn ch),
     ch\<lparr>new_conn := Suc (new_conn ch), inbufs := (inbufs ch)(new_conn ch := Buffer_new kInitialSize)\<rparr>)"
  by (auto simp: dial_def Let_def split: if_splits stoi_result.splits)

lemma race_run:
  fixes env :: "('u, 'g, 'r) client_env" and ch0 :: "('u, 'g, 'r) RpcChannel" and s :: "('u, 'g, 'r) client_run"
  assumes "dial env addr ch0 = (Conn conn0, ch1)" and "client_start s" and "pa_done p \<noteq> pa_done q"
  shows "\<exists>s' c d. client_reachable env honest s' \<and> calls s' = [c, d]
    \<and> call_kind c = Async p \<and> call_at c = Finished CallOk \<and> call_kind d = Async q \<and> call_at d = Finished CallOk
    \<and> outbox (chan s') = [(0, call_frame env c 0), (1, call_frame env d 1)]
    \<and> pendingAsync (chan s') 0 = Some p \<and> pendingAsync (chan s') 1 = Some q
    \<and> call_id c = Some 0 \<and> call_id d = Some 1 \<and> chan_conns (chan s') = [addr \<mapsto> 1] \<and> loop_at s' = Polling
    \<and> pendingSync (chan s') = {} \<and> closures_run (chan s') = [] \<and> idle_input (chan s') 0"
proof -
  define c0 where "c0 a = \<lparr>call_kind = Async a, call_method = (''S'', ''M''), call_request = [], call_at = Looking addr,
    call_id = None\<rparr>" for a
  let ?s1 = "s\<lparr>calls := [c0 p]\<rparr>"
  let ?s2 = "s\<lparr>calls := [c0 p, c0 q]\<rparr>"
  have s: "calls s = []" and "\<exists>client name lbType gen ctls rsps. chan s = RpcChannel_new client name lbType gen ctls rsps"
    using assms(2) by (auto simp: client_start_def)
  then have new: "chan_conns (chan s) = Map.empty" "nextId (chan s) = 0" "new_conn (chan s) = 0" "outbox (chan s) = []"
      "pendingAsync (chan s) = Map.empty" "pendingSync (chan s) = {}" "closures_run (chan s) = []"
    by (auto simp: RpcChannel_new_def)
  have polling: "loop_at s = Polling" using assms(2) by (simp add: client_start_def)
  have idle: "idle_input ch 0 \<longleftrightarrow> buf_inv (inbufs ch 0) \<and> contents (inbufs ch 0) = []" for ch :: "('u, 'g, 'r) RpcChannel"
    by (simp add: idle_input_def)
  have "client_step env honest s ?s1"
    using client_step.begin_async [of p s env honest "(''S'', ''M'')" "[]" addr] s by (simp add: c0_def closures_def)
  moreover have "client_step env honest ?s1 ?s2"
    using client_step.begin_async [of q ?s1 env honest "(''S'', ''M'')" "[]" addr] assms(3) by (simp add: c0_def closures_def)
  ultimately have "client_reachable env honest ?s2"
    using reachable_step reachable_start [OF assms(2)] by blast
  moreover have "\<exists>s'. run_calls env [0, 1, 0, 0, 0, 0, 0, 1, 1, 1, 1, 1] ?s2 = Some s' \<and> (\<exists>c d. calls s' = [c, d]
    \<and> call_kind c = Async p \<and> call_at c = Finished CallOk \<and> call_kind d = Async q \<and> call_at d = Finished CallOk
    \<and> outbox (chan s') = [(0, call_frame env c 0), (1, call_frame env d 1)]
    \<and> pendingAsync (chan s') 0 = Some p \<and> pendingAsync (chan s') 1 = Some q
    \<and> call_id c = Some 0 \<and> call_id d = Some 1 \<and> chan_conns (chan s') = [addr \<mapsto> 1] \<and> loop_at s' = Polling
    \<and> pendingSync (chan s') = {} \<and> closures_run (chan s') = [] \<and> idle_input (chan s') 0)"
    by (simp add: c0_def advance_def go_def new dial_uniform [OF assms(1)] store_conn_def take_id_def
        register_call_def transmit_def call_frame_def polling idle)
  ultimately show ?thesis using run_calls_reachable by blast
qed

lemma issued_length: "issued cs \<le> length cs"
  unfolding issued_def by (rule order_trans [OF card_mono [of "{..< length cs}"]]) auto

text \<open>A run in which the first of two calls was answered.\<close>

definition sample_pending :: "nat \<Rightarrow> PendingAsync" where
  "sample_pending n = \<lparr>pa_response = n, pa_done = n, pa_controller = n\<rparr>"

lemma answered_run:
  "\<exists>s c d. client_reachable sample_env True s \<and> calls s = [c, d] \<and> loop_at s = Polling
     \<and> call_kind c = Async (sample_pending 0) \<and> call_at c = Finished CallOk \<and> call_id c = Some 0
     \<and> pendingAsync (chan s) 0 = None \<and> pendingSync (chan s) = {} \<and> closures_run (chan s) = [0]
     \<and> idle_input (chan s) 0"
proof -
  obtain ch conn where dial: "dial sample_env ''h:1'' sample_channel = (Conn conn, ch)" using sample_dial by blast
  have "pa_done (sample_pending 0) \<noteq> pa_done (sample_pending 1)" by (simp add: sample_pending_def)
  from race_run [OF dial sample_start_ok this, of True] obtain s c d where s: "client_reachable sample_env True s"
      "calls s = [c, d]" "call_kind c = Async (sample_pending 0)" "call_at c = Finished CallOk" "call_id c = Some 0"
      "pendingAsync (chan s) 0 = Some (sample_pending 0)" "loop_at s = Polling" "pendingSync (chan s) = {}"
      "closures_run (chan s) = []" "idle_input (chan s) 0"
    by blast
  have rt: "pb_runtime_ok (ce_rt sample_env)" by (simp add: sample_env_def vrt.pb_runtime_ok_axioms)
  have rsp: "proper_response (ce_rt sample_env) (ok_response ''x'')" by (simp add: sample_env_def ok_response_proper)
  from delivered [OF rt s(1,7,10) _ _ rsp, of 0] s obtain s1 b where s1: "client_reachable sample_env True s1"
      "loop_at s1 = Unclaimed 0 (ok_response ''x'')" "calls s1 = calls s"
      "chan s1 = (chan s)\<lparr>inbufs := (inbufs (chan s))(0 := b)\<rparr>" "idle_input (chan s1) 0"
    by (auto simp: sent_ids_def)
  have pending: "pendingAsync (chan s1) 0 = Some (sample_pending 0)" using s1(4) s(6) by simp
  have code: "error_code (ok_response ''x'') = NO_ERROR" by (simp add: ok_response_def set_error_code_def set_result_def)
  obtain ch' where ch': "run_callback sample_env (sample_pending 0) (ok_response ''x'')
      ((chan s1)\<lparr>pendingAsync := (pendingAsync (chan s1))(0 := None)\<rparr>) = Some ch'" "inbufs ch' = inbufs (chan s1)"
    using code by (simp add: run_callback_def sample_env_def)
  note f = matching_callback [OF ch'(1)]
  have "idle_input ch' 0" using s1(5) ch'(2) by (simp add: idle_input_def)
  with called_back [OF s1(1,2) pending ch'(1)] f s1(3,4) s show ?thesis
    by (intro exI [of _ "s1\<lparr>chan := ch', loop_at := Polling\<rparr>"] exI [of _ c] exI [of _ d]) (simp add: sample_pending_def)
qed

text \<open>
  C10: calls complete once.  In every interleaving of calling threads with the loop thread, whatever the
  server sends, a call that returned successfully has an id of its own.  A synchronous call returned because
  a response without error arrived under its id.  An asynchronous call is in exactly one place: still
  pending, being answered by the loop, or answered, and then its closure ran once, for a response under its
  id.
\<close>

theorem calls_complete_once:
  assumes "pb_runtime_ok (ce_rt env)" and "client_reachable env honest s" and "issued (calls s) \<le> 2 ^ 64"
    and "c \<in> set (calls s)" and "call_at c = Finished CallOk"
  shows "\<exists>k. call_id c = Some k \<and> (\<forall>d \<in> set (calls s). call_id d = Some k \<longrightarrow> d = c)
    \<and> (case call_kind c of
         Sync _ _ \<Rightarrow> k \<notin> pendingSync (chan s)
           \<and> (\<exists>rsp. (k, rsp) \<in> set (received s) \<and> error_code rsp = NO_ERROR)
       | Async p \<Rightarrow>
           (if pa_done p \<in> set (closures_run (chan s))
            then pendingAsync (chan s) k = None \<and> \<not> in_loop (loop_at s) (pa_done p)
              \<and> (\<exists>rsp. (k, rsp) \<in> set (received s))
            else pendingAsync (chan s) k = (if in_loop (loop_at s) (pa_done p) then None else Some p)))
    \<and> distinct (closures_run (chan s))"
proof -
  note I = client_reachable_inv [OF assms(1-3), unfolded client_inv_def]
  have c: "pc_ok c" "call_ok (chan s) (loop_at s) (received s) c" using I assms(4) by blast+
  then obtain k where k: "call_id c = Some k" using assms(5) by (cases c) auto
  then have "\<forall>d \<in> set (calls s). call_id d = Some k \<longrightarrow> d = c" using ids_name I assms(4) by blast
  with c(2) k assms(5) I show ?thesis
    by (auto simp: call_ok_def one_place_def owned_def split: call_kind.splits)
qed

lemma calls_complete_once_witness:
  "\<exists>(s :: (bytes, unit, bytes) client_run) c rsp. client_reachable sample_env True s \<and> c \<in> set (calls s)
     \<and> call_kind c = Async (sample_pending 0) \<and> closures_run (chan s) = [0] \<and> (0, rsp) \<in> set (received s)"
proof -
  obtain s c d where s: "client_reachable sample_env True s" "calls s = [c, d]"
      "call_kind c = Async (sample_pending 0)" "call_at c = Finished CallOk" "call_id c = Some 0"
      "closures_run (chan s) = [0]"
    using answered_run by blast
  have "pb_runtime_ok (ce_rt sample_env)" by (simp add: sample_env_def vrt.pb_runtime_ok_axioms)
  moreover have "issued (calls s) \<le> 2 ^ 64" using issued_length [of "calls s"] s(2) by simp
  ultimately obtain rsp where "(0, rsp) \<in> set (received s)"
    using calls_complete_once [of sample_env True s c] s by (auto simp: sample_pending_def)
  with s show ?thesis by (intro exI [of _ s] exI [of _ c] exI [of _ rsp]) simp
qed

text \<open>What a read event makes of a complete frame: a response, unless its payload is empty or does not parse.\<close>

definition response_in :: "('u, 'g, 'r) client_env \<Rightarrow> uint64 \<Rightarrow> bytes \<Rightarrow> (uint64 \<times> 'u RpcResponse) option" where
  "response_in env k p =
     (if p = [] then None
      else case RpcResponse_ParseFromString (ce_rt env) (RpcResponse_default (ce_rt env)) p of
             Some (rsp, ok) \<Rightarrow> if ok then Some (k, rsp) else None
           | None \<Rightarrow> None)"

lemma frame_decoded:
  assumes rt: "pb_runtime_ok (ce_rt env)" and inv: "buf_inv (inbufs ch conn)" and "fits p"
    and c: "contents (inbufs ch conn) @ data = packWithId e k p @ rest"
  shows "\<exists>b. contents b = rest
    \<and> decode_response env conn (ch\<lparr>inbufs := (inbufs ch)(conn := fill_input data (inbufs ch conn))\<rparr>)
      = Some (ch\<lparr>inbufs := (inbufs ch)(conn := b)\<rparr>, response_in env k p)"
proof -
  let ?b = "fill_input data (inbufs ch conn)"
  have "buf_inv ?b" "contents ?b = packWithId e k p @ rest" using fill_input_spec [OF inv] c by simp_all
  from rc.unpack_frame [OF this(1) \<open>fits p\<close> this(2), of "ce_order env"]
  obtain b where b: "tryUnpackWithId (ce_order env) ?b 0 = (p, k, b)" "contents b = rest" by blast
  obtain rsp ok where "RpcResponse_ParseFromString (ce_rt env) (RpcResponse_default (ce_rt env)) p = Some (rsp, ok)"
    using pb_runtime_ok.response_parse_returns [OF rt] by (metis prod.exhaust)
  with b show ?thesis by (intro exI [of _ b]) (simp add: decode_response_def response_in_def Let_def)
qed

lemma unclaimed_response:
  assumes "pb_runtime_ok (ce_rt env)" and "client_reachable env True s" and "issued (calls s) \<le> 2 ^ 64"
    and "loop_at s = Unclaimed k rsp" and "pendingAsync (chan s) k = None"
  shows "\<exists>c \<in> set (calls s). call_id c = Some k \<and> (answered s c \<or> gave_up c)"
proof -
  note I = client_reachable_inv [OF assms(1-3), unfolded client_inv_def]
  have "k \<in> sent_ids (calls s)" "k \<notin> pendingSync (chan s)"
    using reachable_honest [OF assms(1-3)] assms(4) by simp_all
  then obtain c where c: "c \<in> set (calls s)" "call_id c = Some k" "was_sent (call_at c)" by (auto simp: sent_ids_def)
  have "pc_ok c" "call_ok (chan s) (loop_at s) (received s) c" using I c(1) by blast+
  then have "answered s c \<or> gave_up c"
    using c(2,3) assms(4,5) \<open>k \<notin> pendingSync (chan s)\<close>
    by (cases c) (auto simp: answered_def gave_up_def call_defs split: call_kind.splits call_pc.splits)
  with c show ?thesis by blast
qed

text \<open>
  C11: only three kinds of responses are dropped.  When the server answers only what it was asked, the read
  event that completes a frame takes exactly this frame off the buffer; it hands the response in it to the
  loop unless the payload is empty or does not parse, and leaves the pending calls alone.  A response that
  was handed to the loop is dropped as unknown only if its call was answered before or gave up waiting: no
  interleaving of registering, sending and matching makes a call miss it.
\<close>

theorem no_response_lost:
  assumes "pb_runtime_ok (ce_rt env)" and "client_reachable env True s" and "issued (calls s) \<le> 2 ^ 64"
  shows "(loop_at s = Unclaimed k rsp \<and> pendingAsync (chan s) k = None \<longrightarrow>
      (\<exists>c \<in> set (calls s). call_id c = Some k \<and> (answered s c \<or> gave_up c)))
    \<and> (buf_inv (inbufs (chan s) conn) \<and> fits p
        \<and> contents (inbufs (chan s) conn) @ data = packWithId e k' p @ rest \<longrightarrow>
      (\<exists>b ch'. ch' = (chan s)\<lparr>inbufs := (inbufs (chan s))(conn := b)\<rparr> \<and> contents b = rest
        \<and> matching ch' = matching (chan s)
        \<and> decode_response env conn ((chan s)\<lparr>inbufs := (inbufs (chan s))(conn := fill_input data (inbufs (chan s) conn))\<rparr>)
          = Some (ch', response_in env k' p)))"
  using unclaimed_response [OF assms, of k rsp] frame_decoded [OF assms(1), of "chan s" conn p data e k' rest]
  by (auto simp: matching_def)

lemma no_response_lost_witness:
  "\<exists>(s :: (bytes, unit, bytes) client_run) c ch. client_reachable sample_env True s
     \<and> loop_at s = Unclaimed 0 (ok_response ''x'') \<and> c \<in> set (calls s) \<and> call_id c = Some 0
     \<and> (answered s c \<or> gave_up c)
     \<and> decode_response sample_env 0 ((chan s)\<lparr>inbufs := (inbufs (chan s))
         (0 := fill_input (packWithId BigEndian 5 []) (inbufs (chan s) 0))\<rparr>) = Some (ch, None)"
proof -
  obtain s c d where s: "client_reachable sample_env True s" "calls s = [c, d]" "loop_at s = Polling"
      "call_at c = Finished CallOk" "call_id c = Some 0" "pendingAsync (chan s) 0 = None"
      "pendingSync (chan s) = {}" "idle_input (chan s) 0"
    using answered_run by blast
  have rt: "pb_runtime_ok (ce_rt sample_env)" by (simp add: sample_env_def vrt.pb_runtime_ok_axioms)
  have rsp: "proper_response (ce_rt sample_env) (ok_response ''x'')" by (simp add: sample_env_def ok_response_proper)
  from delivered [OF rt s(1,3,8) _ _ rsp, of 0] s obtain s1 b where s1: "client_reachable sample_env True s1"
      "loop_at s1 = Unclaimed 0 (ok_response ''x'')" "calls s1 = calls s"
      "chan s1 = (chan s)\<lparr>inbufs := (inbufs (chan s))(0 := b)\<rparr>" "idle_input (chan s1) 0"
    by (auto simp: sent_ids_def)
  have "issued (calls s1) \<le> 2 ^ 64" using issued_length [of "calls s1"] s(2) s1(3) by simp
  from no_response_lost [OF rt s1(1) this, of 0 "ok_response ''x''" 0 "[]" "packWithId BigEndian 5 []" BigEndian 5 "[]"]
    s1(2,4,5) s(6)
  have "\<exists>c \<in> set (calls s1). call_id c = Some 0 \<and> (answered s1 c \<or> gave_up c)"
    "\<exists>ch. decode_response sample_env 0 ((chan s1)\<lparr>inbufs := (inbufs (chan s1))
         (0 := fill_input (packWithId BigEndian 5 []) (inbufs (chan s1) 0))\<rparr>) = Some (ch, None)"
    by (auto simp: idle_input_def response_in_def fits_def kMaxLen_def)
  with s1(1,2) show ?thesis by blast
qed

text \<open>
  C13: calls return.  Whatever the other threads did, a call that has not returned can go on once its time is
  up, and every section it runs brings it closer to its return, at most eight sections away.
\<close>

theorem calls_return:
  assumes "pb_runtime_ok (ce_rt env)" and "client_reachable env honest s" and "issued (calls s) \<le> 2 ^ 64"
    and "\<forall>m bs. ce_parse env m bs \<noteq> None" and "i < length (calls s)" and "\<forall>r. call_at (calls s ! i) \<noteq> Finished r"
  shows "\<exists>c ch. advance env True (calls s ! i) (chan s) = Some (c, ch)
    \<and> pc_rank (call_at c) < pc_rank (call_at (calls s ! i)) \<and> pc_rank (call_at (calls s ! i)) \<le> 8"
proof -
  have "pc_ok (calls s ! i)" using call_of [OF assms(5) client_reachable_inv [OF assms(1-3)]] by blast
  with advance_late [of "calls s ! i" env "chan s"] assms(4,6)
  obtain c ch where "advance env True (calls s ! i) (chan s) = Some (c, ch)" by auto
  with advance_rank [OF this] show ?thesis by (cases "call_at (calls s ! i)") auto
qed

lemma calls_return_witness:
  "\<exists>(s :: (bytes, unit, bytes) client_run) c ch. client_reachable sample_env True s \<and> length (calls s) = 1
     \<and> advance sample_env True (calls s ! 0) (chan s) = Some (c, ch) \<and> pc_rank (call_at c) < 8"
proof -
  let ?s = "sample_start\<lparr>calls := [\<lparr>call_kind = Sync 0 0, call_method = (''S'', ''M''), call_request = [],
    call_at = Looking ''h:1'', call_id = None\<rparr>]\<rparr>"
  have "client_step sample_env True sample_start ?s"
    using client_step.begin_sync [of sample_env True sample_start 0 0 "(''S'', ''M'')" "[]" "''h:1''"]
    by (simp add: sample_start_def)
  then have r: "client_reachable sample_env True ?s" using reachable_step reachable_start [OF sample_start_ok] by blast
  have rt: "pb_runtime_ok (ce_rt sample_env)" by (simp add: sample_env_def vrt.pb_runtime_ok_axioms)
  have "issued (calls ?s) \<le> 2 ^ 64" using issued_length [of "calls ?s"] by simp
  from calls_return [OF rt r this, of 0] r show ?thesis by (intro exI [of _ ?s]) (auto simp: sample_env_def)
qed

text \<open>
  C12: the first calls of a channel race.  Two threads that call the same new address both dial it, and the
  second connection replaces the first in the map.  Both requests are sent and both asynchronous calls are
  pending, but nothing keeps the connection of the first call alive, on which its response would arrive.
\<close>

theorem first_calls_race:
  fixes env :: "('u, 'g, 'r) client_env" and ch0 :: "('u, 'g, 'r) RpcChannel" and s :: "('u, 'g, 'r) client_run"
  assumes "dial env addr ch0 = (Conn conn0, ch1)" and "client_start s" and "pa_done p \<noteq> pa_done q"
  shows "\<exists>s' c d. client_reachable env honest s' \<and> calls s' = [c, d]
    \<and> call_kind c = Async p \<and> call_at c = Finished CallOk \<and> call_kind d = Async q \<and> call_at d = Finished CallOk
    \<and> outbox (chan s') = [(0, call_frame env c 0), (1, call_frame env d 1)]
    \<and> pendingAsync (chan s') 0 = Some p \<and> pendingAsync (chan s') 1 = Some q
    \<and> held s' 1 \<and> \<not> held s' 0"
proof -
  from race_run [OF assms, of honest] obtain s' c d where r: "client_reachable env honest s'" "calls s' = [c, d]"
      "call_kind c = Async p" "call_at c = Finished CallOk" "call_kind d = Async q" "call_at d = Finished CallOk"
      "outbox (chan s') = [(0, call_frame env c 0), (1, call_frame env d 1)]"
      "pendingAsync (chan s') 0 = Some p" "pendingAsync (chan s') 1 = Some q" "chan_conns (chan s') = [addr \<mapsto> 1]"
    by blast
  moreover from this have "held s' 1" "\<not> held s' 0" by (simp_all add: held_def)
  ultimately show ?thesis by blast
qed

lemma first_calls_race_witness:
  "\<exists>s c d. client_reachable sample_env True s \<and> calls s = [c, d] \<and> pendingAsync (chan s) 0 = Some (sample_pending 0)
     \<and> outbox (chan s) = [(0, call_frame sample_env c 0), (1, call_frame sample_env d 1)] \<and> \<not> held s 0"
proof -
  obtain ch conn where "dial sample_env ''h:1'' sample_channel = (Conn conn, ch)" using sample_dial by blast
  from first_calls_race [OF this sample_start_ok, of "sample_pending 0" "sample_pending 1" True] show ?thesis
    by (auto simp: sample_pending_def)
qed

end
