(* ===== verification/Registry_Program.thy ===== *)
theory Registry_Program
  imports Registry_Client
begin

text \<open>
  The registry program \<^verbatim>\<open>src/registry_center_main.cpp\<close>: its two routes, the requests it serves, and what its
  clients find.  How the HTTP library splits the target of a request into path and parameters is a
  parameter; a request without a route gets the library's answer.
\<close>

section \<open>The program\<close>

datatype http_request = Post string string | Get string

definition registry_handle ::
  "json_parser \<Rightarrow> (json \<Rightarrow> string) \<Rightarrow> (string \<Rightarrow> string) \<Rightarrow> (string \<Rightarrow> string) \<Rightarrow> http_request
     \<Rightarrow> services \<Rightarrow> services \<times> http_response option" where
  "registry_handle parse dump path param req center =
     (case req of
        Post target body \<Rightarrow>
          if path target = ''/register''
          then (case post_register parse body center of (center', res) \<Rightarrow> (center', Some (library_reply res)))
          else (center, None)
      | Get target \<Rightarrow>
          if path target = ''/discover'' then (center, Some (get_discover dump (param target) center))
          else (center, None))"

text \<open>The program serves requests one after another from an empty registry.\<close>

definition registry_center_main ::
  "json_parser \<Rightarrow> (json \<Rightarrow> string) \<Rightarrow> (string \<Rightarrow> string) \<Rightarrow> (string \<Rightarrow> string) \<Rightarrow> http_request list
     \<Rightarrow> services" where
  "registry_center_main parse dump path param reqs =
     fold (\<lambda>req center. fst (registry_handle parse dump path param req center)) reqs Map.empty"

section \<open>What was registered\<close>

text \<open>A request that registers a pair: a JSON object with two non-empty strings.\<close>

definition registers :: "json_parser \<Rightarrow> (string \<Rightarrow> string) \<Rightarrow> http_request \<Rightarrow> string \<times> string \<Rightarrow> bool" where
  "registers parse path req sa \<longleftrightarrow>
     (\<exists>target body kvs. req = Post target body \<and> path target = ''/register'' \<and> parse body = JsonValue (JObject kvs)
        \<and> map_of kvs ''service'' = Some (JString (fst sa)) \<and> map_of kvs ''address'' = Some (JString (snd sa))
        \<and> fst sa \<noteq> [] \<and> snd sa \<noteq> [])"

lemma post_register_effect:
  "fst (post_register parse body center) =
     (case parse body of
        JsonValue (JObject kvs) \<Rightarrow>
          (case (map_of kvs ''service'', map_of kvs ''address'') of
             (Some (JString s), Some (JString a)) \<Rightarrow> if s = [] \<or> a = [] then center else registerService s a center
           | _ \<Rightarrow> center)
      | _ \<Rightarrow> center)"
  by (auto simp: post_register_def Let_def split: option.splits json.splits json_parse.splits elim!: is_string.elims)

lemma handle_entries:
  assumes "center_inv center"
  shows "center_inv (fst (registry_handle parse dump path param req center))
    \<and> center_entries (fst (registry_handle parse dump path param req center))
      = center_entries center \<union> {sa. registers parse path req sa}"
proof (cases req)
  case (Get target)
  then show ?thesis using assms by (auto simp: registry_handle_def registers_def)
next
  case (Post target body)
  have "fst (registry_handle parse dump path param req center)
      = (if path target = ''/register'' then fst (post_register parse body center) else center)"
    using Post by (simp add: registry_handle_def case_prod_unfold)
  then show ?thesis
    using assms Post rcenter.inv_reg [OF assms] rcenter.entries_reg [where c = center]
    by (auto simp: post_register_effect registers_def split: option.splits json.splits json_parse.splits)
qed

lemma served_entries:
  "center_inv (registry_center_main parse dump path param reqs)
   \<and> center_entries (registry_center_main parse dump path param reqs)
     = {sa. \<exists>req \<in> set reqs. registers parse path req sa}"
proof (induction reqs rule: rev_induct)
  case Nil
  show ?case using rcenter.inv_start rcenter.entries_start by (simp add: registry_center_main_def)
next
  case (snoc req reqs)
  then show ?case
    using handle_entries [of "registry_center_main parse dump path param reqs" parse dump path param req]
    by (auto simp: registry_center_main_def)
qed

section \<open>Discovery\<close>

text \<open>
  C31: clients find what was registered, and only that.  Let the registry serve any sequence of requests,
  well-formed or not, and then the lookup of a client that has no fresh entry.  If the sequence registered
  an address of the service, the client receives exactly the addresses registered for it, in ascending
  order, with one request.  The JSON library must read back the answer it prints, and the HTTP library must
  recognise the path and the parameter the client writes.
\<close>

theorem registered_services_found:
  assumes client: "\<not> cache_fresh now service rc" "0 \<le> retryTimes rc" "service \<noteq> []"
    and libraries: "parse (dump (JArray (map JString (sorted_list_of_set as)))) = JsonValue (JArray (map JString (sorted_list_of_set as)))"
      "path (discover_path service) = ''/discover''" "param (discover_path service) = service"
    and registry: "center = registry_center_main parse dump path param reqs"
      "http = (\<lambda>target i. map_option (\<lambda>r. (sent_status r, content r))
          (snd (registry_handle parse dump path param (Get target) center)))"
    and found: "{a. \<exists>req \<in> set reqs. registers parse path req (service, a)} = as" "as \<noteq> {}"
  shows "\<exists>rc'. getAddresses parse http rd co cr now now' service rc = (Addresses (sorted_list_of_set as), 1, rc')"
proof -
  have center: "center_inv center" "discover service center = as"
    using served_entries [of parse dump path param reqs] registry(1) found(1)
      rcenter.disc_entries [of service center] by auto
  have "http (discover_path service) = (\<lambda>i. let r = get_discover dump (param (discover_path service)) center
      in Some (sent_status r, content r))"
    using registry(2) libraries(2) by (simp add: registry_handle_def Let_def)
  then have "fetchFromRegistry parse http service rc = fetchFromRegistry parse
      (\<lambda>path i. let r = get_discover dump (param path) center in Some (sent_status r, content r)) service rc"
    by (simp add: fetchFromRegistry_def)
  then have "getAddresses parse http rd co cr now now' service rc = getAddresses parse
      (\<lambda>path i. let r = get_discover dump (param path) center in Some (sent_status r, content r)) rd co cr now now' service rc"
    unfolding getAddresses_def by metis
  with registry_lookup [where parse = parse and dump = dump and param = param and center = center,
      OF client(1,2) _ libraries(1,3) refl client(3) center(1), of rd co cr now'] center(2) found(2)
  show ?thesis by simp
qed

text \<open>A JSON library that also reads the registration \<open>R\<close>.\<close>

definition sample_json :: json_parser where
  "sample_json b =
     (if b = ''R'' then JsonValue (JObject [(''service'', JString ''M''), (''address'', JString ''h:1'')])
      else JsonValue (JArray (map JString (mark_parse [] b))))"

lemma sample_json_inverts: "sample_json (mark_dump (JArray (map JString as))) = JsonValue (JArray (map JString as))"
proof -
  have "mark_dump (JArray (map JString as)) \<noteq> ''R''"
    by (cases as; cases "hd as") (auto simp: mark_dump_def)
  then show ?thesis by (simp add: sample_json_def mark_inverts)
qed

lemma registered_services_found_witness:
  "\<exists>rc'. getAddresses sample_json
      (\<lambda>target i. map_option (\<lambda>r. (sent_status r, content r))
         (snd (registry_handle sample_json mark_dump (takeWhile (\<lambda>c. c \<noteq> CHR ''?'')) (drop 18) (Get target)
            (registry_center_main sample_json mark_dump (takeWhile (\<lambda>c. c \<noteq> CHR ''?'')) (drop 18)
               [Post ''/register'' ''x'', Get ''/metrics'', Post ''/register'' ''R'']))))
      True True True 5 6 ''M'' (RegistryClient_new Map.empty ''r'' 80 30 2)
     = (Addresses [''h:1''], 1, rc')"
proof -
  let ?path = "takeWhile (\<lambda>c. c \<noteq> CHR ''?'')"
  let ?reqs = "[Post ''/register'' ''x'', Get ''/metrics'', Post ''/register'' ''R'']"
  have found: "{a. \<exists>req \<in> set ?reqs. registers sample_json ?path req (''M'', a)} = {''h:1''}"
    by (auto simp: registers_def sample_json_def)
  have client: "\<not> cache_fresh 5 ''M'' (RegistryClient_new Map.empty ''r'' 80 30 2)"
      "0 \<le> retryTimes (RegistryClient_new Map.empty ''r'' 80 30 2)"
    by (simp_all add: cache_fresh_def RegistryClient_new_def)
  have paths: "?path (discover_path ''M'') = ''/discover''" "drop 18 (discover_path ''M'') = ''M''"
    by (simp_all add: discover_path_def)
  let ?http = "\<lambda>target i. map_option (\<lambda>r. (sent_status r, content r))
    (snd (registry_handle sample_json mark_dump ?path (drop 18) (Get target)
      (registry_center_main sample_json mark_dump ?path (drop 18) ?reqs)))"
  have "\<exists>rc'. getAddresses sample_json ?http True True True 5 6 ''M'' (RegistryClient_new Map.empty ''r'' 80 30 2)
      = (Addresses (sorted_list_of_set {''h:1''}), 1, rc')"
    by (rule registered_services_found [where path = ?path and param = "drop 18" and dump = mark_dump,
          OF client _ _ paths refl refl found]) (simp_all add: sample_json_inverts [of "[''h:1'']", simplified])
  then show ?thesis by simp
qed

end
