(* ===== verification/Server_Answers.thy ===== *)
theory Server_Answers
  imports Server_Steps "HOL-Library.Multiset"
begin

text \<open>
  The server keeps accounts.  What it owes on a connection, the tasks in the pool and the functors that
  wait for the loop, and what it has paid, the frames of the output stream, together are the answers to
  the requests it has read; this survives every event on any number of connections, in any order.
\<close>

section \<open>Accounts\<close>

text \<open>The serialized response a task computes, and the answer it becomes: an id and a payload.\<close>

definition reply ::
  "('u, 'k) platform \<Rightarrow> 'msg message_ops \<Rightarrow> ('mth, 'msg) service_registry \<Rightarrow> 'u RpcRequest \<Rightarrow> bytes" where
  "reply pf ops reg request =
     (case dispatchRequest (pf_rt pf) ops reg request of
        Returned response \<Rightarrow> RpcResponse_InternalSerialize (pf_rt pf) response
      | _ \<Rightarrow> [])"

definition answer_to ::
  "('u, 'k) platform \<Rightarrow> 'msg message_ops \<Rightarrow> ('mth, 'msg) service_registry \<Rightarrow> uint64 \<times> 'u RpcRequest \<Rightarrow> uint64 \<times> bytes" where
  "answer_to pf ops reg q = (fst q, reply pf ops reg (snd q))"

definition task_answer where
  "task_answer pf ops reg t = answer_to pf ops reg (task_id t, task_request t)"

fun functor_answer :: "loop_functor \<Rightarrow> uint64 \<times> bytes" where
  "functor_answer (SendResponse i reqId payload) = (reqId, payload)"

definition answer_frame :: "byte_order \<Rightarrow> uint64 \<times> bytes \<Rightarrow> bytes" where
  "answer_frame e a = packWithId e (fst a) (snd a)"

text \<open>What was promised to connection \<open>i\<close> and not written yet, and everything written.\<close>

definition queued :: "nat \<Rightarrow> loop_functor list \<Rightarrow> (uint64 \<times> bytes) list" where
  "queued i fs = map functor_answer (filter (\<lambda>f. functor_conn f = i) fs)"

definition assigned where
  "assigned pf ops reg i ts = map (task_answer pf ops reg) (filter (\<lambda>t. task_conn t = i) ts)"

definition owed where
  "owed pf ops reg i s = mset (assigned pf ops reg i (pool_tasks s)) + mset (queued i (pendingFunctors s))"

definition output_of :: "nat \<Rightarrow> ('f, 'k, 'm) reactor_scheme \<Rightarrow> bytes" where
  "output_of i s = sent s i @ unsent i s"

definition input_of :: "nat \<Rightarrow> ('f, 'k, 'm) reactor_scheme \<Rightarrow> bytes option" where
  "input_of i s = map_option (\<lambda>c. contents (inputBuffer c)) (conns s i)"

text \<open>The bytes that arrive on connection \<open>i\<close> in a sequence of events.\<close>

fun data_of :: "nat \<Rightarrow> server_event \<Rightarrow> bytes" where
  "data_of i (Data j bs) = (if j = i then bs else [])"
| "data_of i _ = []"

definition arrived :: "nat \<Rightarrow> server_event list \<Rightarrow> bytes" where
  "arrived i evs = concat (map (data_of i) evs)"

text \<open>
  The books are balanced on connection \<open>i\<close>, on which \<open>D\<close> has arrived of a stream of requests \<open>qs\<close>: the
  requests in \<open>D\<close> were read, the bytes behind them wait in the input buffer, and the answers to the
  requests are owed or written, the written ones in the order of \<open>A\<close>.
\<close>

definition books where
  "books pf ops reg e' qs i D A s \<longleftrightarrow>
     (\<exists>c n. conns s i = Some c \<and> n \<le> length qs
        \<and> D = concat (map (request_frame e' (pf_rt pf)) (take n qs)) @ contents (inputBuffer c)
        \<and> rc.cut e' (encode_requests (pf_rt pf) (drop n qs)) (contents (inputBuffer c))
        \<and> output_of i s = concat (map (answer_frame (pf_order pf)) A)
        \<and> mset A + owed pf ops reg i s = mset (map (answer_to pf ops reg) (take n qs)))"

text \<open>Of a destroyed connection it remains that what was sent is the beginning of answers to requests of the stream.\<close>

definition told where
  "told pf ops reg qs i A s \<longleftrightarrow> prefix (sent s i) (concat (map (answer_frame (pf_order pf)) A))
     \<and> mset A \<subseteq># mset (map (answer_to pf ops reg) qs)"

definition balanced where
  "balanced pf ops reg e' qs i D A s \<longleftrightarrow> i < fresh_conn s
     \<and> (if conns s i = None then told pf ops reg qs i A s else books pf ops reg e' qs i D A s)"

lemma queued_simps [simp]:
  "queued i [] = []" "queued i (f # fs) = (if functor_conn f = i then [functor_answer f] else []) @ queued i fs"
  "queued i (fs @ gs) = queued i fs @ queued i gs"
  by (simp_all add: queued_def)

lemma assigned_simps [simp]:
  "assigned pf ops reg i [] = []"
  "assigned pf ops reg i (t # ts) = (if task_conn t = i then [task_answer pf ops reg t] else []) @ assigned pf ops reg i ts"
  "assigned pf ops reg i (ts @ us) = assigned pf ops reg i ts @ assigned pf ops reg i us"
  by (simp_all add: assigned_def)

lemma assigned_none: "\<forall>t \<in> set ts. task_conn t \<noteq> i \<Longrightarrow> assigned pf ops reg i ts = []"
  by (induction ts) auto

lemma assigned_requests:
  "assigned pf ops reg i (map (task_of_request i) qs) = map (answer_to pf ops reg) qs"
  by (induction qs) (simp_all add: task_of_request_def task_answer_def)

lemma data_of_cons [simp]: "arrived i [] = []" "arrived i (ev # evs) = data_of i ev @ arrived i evs"
  by (simp_all add: arrived_def)

lemma answer_frame_simps [simp]: "answer_frame e (reqId, payload) = packWithId e reqId payload"
  by (simp add: answer_frame_def)

text \<open>Answers that are still owed may be written: \<open>xs\<close> moves from the debts to the output.\<close>

lemma books_cong:
  assumes "books pf ops reg e' qs i D A s"
    and "input_of i s' = input_of i s"
    and "output_of i s' = output_of i s @ concat (map (answer_frame (pf_order pf)) xs)"
    and "owed pf ops reg i s = mset xs + owed pf ops reg i s'"
  shows "books pf ops reg e' qs i D (A @ xs) s'"
proof -
  obtain c where c: "conns s i = Some c" using assms(1) unfolding books_def by blast
  then obtain c' where "conns s' i = Some c'" "contents (inputBuffer c') = contents (inputBuffer c)"
    using assms(2) by (auto simp: input_of_def)
  with c assms(1,3,4) show ?thesis by (auto simp: books_def add.assoc)
qed

text \<open>More requests may follow.\<close>

lemma books_more:
  assumes "books pf ops reg e' qs i D A s"
  shows "books pf ops reg e' (qs @ qs') i D A s"
proof -
  obtain c n where c: "conns s i = Some c" "n \<le> length qs"
      "D = concat (map (request_frame e' (pf_rt pf)) (take n qs)) @ contents (inputBuffer c)"
      "rc.cut e' (encode_requests (pf_rt pf) (drop n qs)) (contents (inputBuffer c))"
      "output_of i s = concat (map (answer_frame (pf_order pf)) A)"
      "mset A + owed pf ops reg i s = mset (map (answer_to pf ops reg) (take n qs))"
    using assms unfolding books_def by blast
  have "rc.cut e' (encode_requests (pf_rt pf) (drop n (qs @ qs'))) (contents (inputBuffer c))"
    using c(2,4) by (auto simp: encode_requests_def rc.cut_def)
  moreover have "take n (qs @ qs') = take n qs" "n \<le> length (qs @ qs')" using c(2) by simp_all
  ultimately show ?thesis unfolding books_def using c by (intro exI [of _ c] exI [of _ n]) simp
qed

lemma balanced_more: "balanced pf ops reg e' qs i D A s \<Longrightarrow> balanced pf ops reg e' (qs @ qs') i D A s"
  by (auto simp: balanced_def told_def intro: books_more subset_mset.add_increasing2 split: if_splits)

text \<open>On any connection, alive or not, only answers to requests of the stream were written.\<close>

lemma books_told:
  assumes "books pf ops reg e' qs i D A s"
  shows "told pf ops reg qs i A s"
proof -
  obtain n where n: "output_of i s = concat (map (answer_frame (pf_order pf)) A)"
      "mset A + owed pf ops reg i s = mset (map (answer_to pf ops reg) (take n qs))"
    using assms unfolding books_def by blast
  have "mset (map (answer_to pf ops reg) qs)
      = mset (map (answer_to pf ops reg) (take n qs)) + mset (map (answer_to pf ops reg) (drop n qs))"
    by (metis append_take_drop_id map_append mset_append)
  then have "mset A \<subseteq># mset (map (answer_to pf ops reg) qs)" using n(2) by (metis mset_subset_eq_add_left union_assoc)
  with n(1) show ?thesis by (simp add: told_def output_of_def prefixI flip: n(1))
qed

lemma balanced_told: "balanced pf ops reg e' qs i D A s \<Longrightarrow> told pf ops reg qs i A s"
  by (auto simp: balanced_def books_told split: if_splits)

lemma balanced_books:
  "balanced pf ops reg e' qs i D A s \<Longrightarrow> conns s i = Some c \<Longrightarrow> books pf ops reg e' qs i D A s"
  by (simp add: balanced_def)

text \<open>Destroying connections keeps the books, and so does a mark on a channel.\<close>

lemma balanced_frees:
  assumes "balanced pf ops reg e' qs i D A s" and "frees (s\<lparr>connections := X\<rparr>) s'"
  shows "balanced pf ops reg e' qs i D A s'"
proof (cases "conns s' i = None")
  case True
  with assms(2) balanced_told [OF assms(1)] assms(1) show ?thesis by (simp add: balanced_def told_def frees_def)
next
  case False
  with assms(2) have same: "conns s' i = conns s i" by (auto simp: frees_def)
  with False obtain c where "conns s i = Some c" by auto
  from books_cong [OF balanced_books [OF assms(1) this], of s' "[]"] same assms(2)
  have "books pf ops reg e' qs i D A s'"
    by (simp add: frees_def owed_def output_of_def unsent_def input_of_def)
  moreover have "fresh_conn s' = fresh_conn s" using assms(2) by (simp add: frees_def)
  ultimately show ?thesis using assms(1) False by (auto simp: balanced_def)
qed

lemma balanced_freed: "balanced pf ops reg e' qs i D A s \<Longrightarrow> frees s s' \<Longrightarrow> balanced pf ops reg e' qs i D A s'"
  using balanced_frees [of pf ops reg e' qs i D A s "connections s" s'] by simp

lemma balanced_mark [simp]: "balanced pf ops reg e' qs i D A (mark p ev s) = balanced pf ops reg e' qs i D A s"
  by (simp add: balanced_def books_def told_def owed_def output_of_def)

section \<open>What an event leaves alone on a connection\<close>

lemma change_events_conns:
  "change_events ctl g p s = Some s' \<Longrightarrow> conns s' = conns s \<and> sent s' = sent s"
  by (auto simp: change_events_def Let_def split: option.splits)

lemma send_input:
  "conn_send pf i msg s = Some s' \<Longrightarrow> input_of i s' = input_of i s"
  by (auto simp: input_of_def conn_send_def send_def enableWriting_def Let_def dest!: change_events_conns
      split: option.splits if_splits write_result.splits)

lemma write_input:
  "handleWrite ctl w i s = Some s' \<Longrightarrow> input_of i s' = input_of i s"
  by (auto simp: input_of_def handleWrite_def disableWriting_def Let_def dest!: change_events_conns
      split: option.splits if_splits write_result.splits)

lemma output_other: "conns s' i = conns s i \<Longrightarrow> sent s' i = sent s i \<Longrightarrow> output_of i s' = output_of i s"
  by (simp add: output_of_def unsent_def)

text \<open>The loop runs functors of any connections: each connection gets its own answers, in order.\<close>

lemma run_functors_output:
  assumes "wf_on A s" and "functor_conn ` set fs \<subseteq> A" and "run_functors (run_functor pf) fs s = Some s'"
  shows "input_of i s' = input_of i s
    \<and> output_of i s' = output_of i s @ concat (map (answer_frame (pf_order pf)) (queued i fs))
    \<and> pool_tasks s' = pool_tasks s \<and> pendingFunctors s' = pendingFunctors s
    \<and> connections s' = connections s \<and> fresh_conn s' = fresh_conn s"
  using assms
proof (induction fs arbitrary: s)
  case Nil
  then show ?case by simp
next
  case (Cons f fs)
  obtain j reqId payload where f: "f = SendResponse j reqId payload" by (cases f)
  let ?msg = "packWithId (pf_order pf) reqId payload"
  from Cons.prems f have j: "j \<in> A" by simp
  have ok: "conn_ok j s" using wf_live [OF Cons.prems(1)] j by blast
  from conn_send_safe [OF Cons.prems(1) ok, of pf ?msg] obtain s1
    where s1: "conn_send pf j ?msg s = Some s1" "wf_on (insert j A) s1" "touches j s s1" "pool_tasks s1 = pool_tasks s"
    by blast
  have "run_functor pf f s = Some s1" using s1(1) by (simp add: f run_functor_def)
  then have "run_functors (run_functor pf) fs s1 = Some s'" using Cons.prems(3) by simp
  with Cons.IH [of s1] Cons.prems(2) s1(2) j
  have IH: "input_of i s' = input_of i s1"
      "output_of i s' = output_of i s1 @ concat (map (answer_frame (pf_order pf)) (queued i fs))"
      "pool_tasks s' = pool_tasks s1" "pendingFunctors s' = pendingFunctors s1"
      "connections s' = connections s1" "fresh_conn s' = fresh_conn s1"
    by (auto simp: insert_absorb)
  have "input_of i s1 = input_of i s
      \<and> output_of i s1 = output_of i s @ (if j = i then ?msg else [])"
  proof (cases "j = i")
    case True
    with conn_send_effect [OF ok, of pf ?msg] s1(1) send_input [OF s1(1)] show ?thesis by (auto simp: output_of_def)
  next
    case False
    with s1(3) output_other [of s1 i s] show ?thesis by (simp add: touches_def input_of_def)
  qed
  with IH s1(3,4) f show ?case by (auto simp: touches_def)
qed

lemma balanced_cong:
  assumes "balanced pf ops reg e' qs i D A s" and "fresh_conn s \<le> fresh_conn s'"
    and "i < fresh_conn s \<Longrightarrow> input_of i s' = input_of i s
      \<and> output_of i s' = output_of i s @ concat (map (answer_frame (pf_order pf)) xs)
      \<and> owed pf ops reg i s = mset xs + owed pf ops reg i s'"
    and "conns s i = None \<Longrightarrow> xs = []"
  shows "balanced pf ops reg e' qs i D (A @ xs) s'"
proof (cases "conns s i")
  case None
  have "i < fresh_conn s" using assms(1) by (simp add: balanced_def)
  with None assms(3) have none: "conns s' i = None" by (simp add: input_of_def)
  with None \<open>i < fresh_conn s\<close> assms(3,4) have "sent s' i = sent s i" "xs = []" by (simp_all add: output_of_def unsent_def)
  with None none assms(1,2) show ?thesis by (simp add: balanced_def told_def)
next
  case (Some c)
  have i: "i < fresh_conn s" using assms(1) by (simp add: balanced_def)
  with Some assms(3) obtain c' where "conns s' i = Some c'" by (auto simp: input_of_def)
  with i assms(2,3) books_cong [OF balanced_books [OF assms(1) Some], of s' xs] show ?thesis by (simp add: balanced_def)
qed

lemma balanced_same:
  assumes "balanced pf ops reg e' qs i D A s" and "fresh_conn s' = fresh_conn s"
    and "input_of i s' = input_of i s" and "output_of i s' = output_of i s" and "owed pf ops reg i s' = owed pf ops reg i s"
  shows "balanced pf ops reg e' qs i D A s'"
  using balanced_cong [OF assms(1), of s' "[]"] assms(2-5) by simp

text \<open>An event of another connection.\<close>

lemma balanced_other:
  assumes "balanced pf ops reg e' qs i D A s" and "fresh_conn s \<le> fresh_conn s'"
    and "i < fresh_conn s \<Longrightarrow> conns s' i = conns s i \<and> sent s' i = sent s i"
    and "assigned pf ops reg i (pool_tasks s') = assigned pf ops reg i (pool_tasks s)"
    and "pendingFunctors s' = pendingFunctors s"
  shows "balanced pf ops reg e' qs i D A s'"
  using balanced_cong [OF assms(1,2), of "[]"] assms(3-5) output_other [of s' i s] by (simp add: owed_def input_of_def)

lemma balanced_touches:
  assumes "balanced pf ops reg e' qs i D A s" and "touches j s s'" and "j \<noteq> i"
    and "pool_tasks s' = pool_tasks s @ ts" and "\<forall>t \<in> set ts. task_conn t = j"
  shows "balanced pf ops reg e' qs i D A s'"
proof -
  have "assigned pf ops reg i ts = []" using assigned_none assms(3,5) by metis
  with assms(2-4) show ?thesis by (intro balanced_other [OF assms(1)]) (simp_all add: touches_def)
qed

section \<open>Events\<close>

lemma books_data:
  assumes rt: "pb_runtime_ok (pf_rt pf)" and b: "books pf ops reg e' qs i D A s" and ok: "conn_ok i s" and "bs \<noteq> []"
    and proper: "\<forall>(reqId, req) \<in> set qs. proper_request (pf_rt pf) req"
    and pre: "prefix (D @ bs) (concat (map (request_frame e' (pf_rt pf)) qs))"
    and run: "handleRead (Some (onMessage pf)) (Some (server_close pf)) (ReadOk bs) i s = Some s'"
  shows "books pf ops reg e' qs i (D @ bs) A s'"
proof -
  let ?frames = "\<lambda>qs. concat (map (request_frame e' (pf_rt pf)) qs)"
  obtain c n where c: "conns s i = Some c" and n: "n \<le> length qs" and D: "D = ?frames (take n qs) @ contents (inputBuffer c)"
      and cut: "rc.cut e' (encode_requests (pf_rt pf) (drop n qs)) (contents (inputBuffer c))"
      and out: "output_of i s = concat (map (answer_frame (pf_order pf)) A)"
      and bal: "mset A + owed pf ops reg i s = mset (map (answer_to pf ops reg) (take n qs))"
    using b unfolding books_def by blast
  have inv: "buf_inv (inputBuffer c)" using ok c by (auto simp: conn_ok_def)
  have all: "?frames qs = ?frames (take n qs) @ ?frames (drop n qs)"
    by (metis append_take_drop_id concat_append map_append)
  have "prefix (contents (inputBuffer c) @ bs) (?frames (drop n qs))"
    using pre unfolding D all by (simp only: append_assoc same_prefix_prefix)
  then have pre': "prefix (contents (inputBuffer c) @ bs) (rc.frames e' (encode_requests (pf_rt pf) (drop n qs)))"
    by (simp add: encode_frames)
  have "\<forall>(reqId, req) \<in> set (drop n qs). proper_request (pf_rt pf) req" using proper by (auto dest: in_set_dropD)
  from read_event_tasks [OF rt c inv this \<open>bs \<noteq> []\<close> cut pre']
  obtain qs1 qs2 b' where r: "drop n qs = qs1 @ qs2"
      "s' = set_conn i (c\<lparr>inputBuffer := b'\<rparr>) (s\<lparr>pool_tasks := pool_tasks s @ map (task_of_request i) qs1\<rparr>)"
      "contents (inputBuffer c) @ bs = ?frames qs1 @ contents b'"
      "rc.cut e' (encode_requests (pf_rt pf) qs2) (contents b')"
    using run by (auto simp: encode_frames)
  let ?n = "n + length qs1"
  have split: "take ?n qs = take n qs @ qs1" "drop ?n qs = qs2"
    using r(1) drop_drop [of "length qs1" n qs] by (simp_all add: take_add add.commute)
  have "length (drop n qs) = length (qs1 @ qs2)" using r(1) by simp
  then have len: "?n \<le> length qs" using n by simp
  have "owed pf ops reg i s' = owed pf ops reg i s + mset (map (answer_to pf ops reg) qs1)"
    using assigned_requests [of pf ops reg i qs1] by (simp add: owed_def r(2) set_conn_def)
  then have "mset A + owed pf ops reg i s' = mset (map (answer_to pf ops reg) (take ?n qs))"
    using bal split by (simp flip: add.assoc)
  moreover have "output_of i s' = output_of i s"
    using c by (simp add: output_of_def unsent_def r(2) set_conn_def)
  moreover have "D @ bs = ?frames (take ?n qs) @ contents b'" using D r(3) split by simp
  moreover have "conns s' i = Some (c\<lparr>inputBuffer := b'\<rparr>)" by (simp add: r(2))
  ultimately show ?thesis
    unfolding books_def using r(4) split out len
    by (intro exI [of _ "c\<lparr>inputBuffer := b'\<rparr>"] exI [of _ ?n]) simp
qed

lemma balanced_nearly:
  assumes "balanced pf ops reg e' qs i D A s" and "nearly j s s0"
  shows "balanced pf ops reg e' qs i D A s0"
proof (rule balanced_same [OF assms(1)])
  show "fresh_conn s0 = fresh_conn s" "owed pf ops reg i s0 = owed pf ops reg i s"
    using assms(2) by (simp_all add: nearly_def owed_def)
  show "input_of i s0 = input_of i s" "output_of i s0 = output_of i s"
    using assms(2) by (cases "i = j"; simp add: nearly_def input_of_def output_of_def unsent_def)+
qed

lemma balanced_close:
  assumes wf: "server_wf s" and ev: "closes j ev" "event_enabled ev s" "\<not> closed_while_reading ev s"
    and run: "serve_event pf ops reg ev s = Some s'" and b: "balanced pf ops reg e' qs i D A s"
  shows "balanced pf ops reg e' qs i D A s'"
proof -
  obtain s0 c where s0: "server_close pf j s0 = Some s'" "server_wf s0" "conns s0 j = Some c" "nearly j s s0"
    using closing_event [OF wf ev, of pf ops reg] run by auto
  from server_close_safe [OF s0(2,3), of pf] s0(1) have "frees (s0\<lparr>connections := connections s0 - {j}\<rparr>) s'" by auto
  from balanced_frees [OF balanced_nearly [OF b s0(4)] this] show ?thesis .
qed

lemma newConnection_frame:
  assumes "newConnection pf fd peer s = Some s'"
  shows "pool_tasks s' = pool_tasks s \<and> pendingFunctors s' = pendingFunctors s \<and> sent s' = sent s
    \<and> fresh_conn s' = Suc (fresh_conn s) \<and> connections s' = insert (fresh_conn s) (connections s)
    \<and> (\<forall>j. j \<noteq> fresh_conn s \<longrightarrow> conns s' j = conns s j)
    \<and> (\<exists>c. conns s' (fresh_conn s) = Some c \<and> contents (inputBuffer c) = [] \<and> contents (outputBuffer c) = [])"
  using assms
  by (auto simp: newConnection_def connectEstablished_def TcpConnection_new_def set_conn_def
      enableReading_def change_events_def Let_def split: option.splits)

lemma balanced_accept:
  assumes "newConnection pf fd peer s = Some s'" and "balanced pf ops reg e' qs i D A s"
  shows "balanced pf ops reg e' qs i D A s'"
  using newConnection_frame [OF assms(1)] by (intro balanced_other [OF assms(2)]) auto

text \<open>
  The loop and the pool pay: \<open>xs\<close> goes from the debts of \<open>i\<close> to its output.  Nothing else about the
  connection changes.
\<close>

definition pays where
  "pays pf ops reg i xs s s' \<longleftrightarrow>
     connections s' = connections s \<and> fresh_conn s' = fresh_conn s
     \<and> input_of i s' = input_of i s
     \<and> output_of i s' = output_of i s @ concat (map (answer_frame (pf_order pf)) xs)
     \<and> owed pf ops reg i s = mset xs + owed pf ops reg i s'"

text \<open>Nothing is owed on a connection that was destroyed.\<close>

lemma dead_owed:
  assumes "server_wf s" and "conns s i = None"
  shows "owed pf ops reg i s = {#}"
proof -
  have "\<not> referenced i s" using conn_ok_some [OF wf_live [OF assms(1), of i]] assms(2) by auto
  then show ?thesis by (auto simp: owed_def referenced_def assigned_def queued_def filter_empty_conv image_iff)
qed

lemma balanced_pays:
  assumes "server_wf s" and "balanced pf ops reg e' qs i D A s" and "pays pf ops reg i xs s s'"
  shows "balanced pf ops reg e' qs i D (A @ xs) s'"
proof (rule balanced_cong [OF assms(2)])
  assume "conns s i = None"
  with dead_owed [OF assms(1) this, of pf ops reg] assms(3) show "xs = []" by (simp add: pays_def)
qed (use assms(3) in \<open>simp_all add: pays_def\<close>)

lemma drain_pays:
  assumes "server_wf s" and "doPendingFunctors (run_functor pf) s = Some s'"
  shows "pays pf ops reg i (queued i (pendingFunctors s)) s s' \<and> pool_tasks s' = pool_tasks s \<and> pendingFunctors s' = []"
  using run_functors_output [OF functors_taken_wf [OF assms(1)] order.refl assms(2) [unfolded doPendingFunctors_def], of i]
  by (auto simp: pays_def owed_def output_of_def unsent_def input_of_def)

text \<open>A thread of the pool finishes the task number \<open>k\<close>.\<close>

lemma assigned_taken:
  assumes "k < length ts"
  shows "mset (assigned pf ops reg i ts)
    = mset (assigned pf ops reg i [ts ! k]) + mset (assigned pf ops reg i (take k ts @ drop (Suc k) ts))"
proof -
  have "ts = take k ts @ [ts ! k] @ drop (Suc k) ts" using id_take_nth_drop [OF assms] by simp
  then have "assigned pf ops reg i ts = assigned pf ops reg i (take k ts) @ assigned pf ops reg i [ts ! k]
      @ assigned pf ops reg i (drop (Suc k) ts)" by (metis assigned_simps(3))
  then show ?thesis by (simp only: mset_append assigned_simps(3)) (simp only: ac_simps)
qed

lemma work_pays:
  assumes wf: "server_wf s" and k: "k < length (pool_tasks s)"
  defines "s1 \<equiv> s\<lparr>pool_tasks := take k (pool_tasks s) @ drop (Suc k) (pool_tasks s)\<rparr>"
  assumes run: "run_task pf ops reg me (pool_tasks s ! k) s1 = Some s'"
  shows "(\<exists>xs. pays pf ops reg i xs s s') \<and> pool_tasks s' = take k (pool_tasks s) @ drop (Suc k) (pool_tasks s)"
proof -
  define t where "t = pool_tasks s ! k"
  define f where "f = SendResponse (task_conn t) (task_id t) (reply pf ops reg (task_request t))"
  have run1: "runInLoop (run_functor pf) me f s1 = Some s'"
    using run by (simp add: run_task_def f_def reply_def flip: t_def split: outcome.splits)
  have f: "queued i [f] = assigned pf ops reg i [t]" by (simp add: f_def task_answer_def answer_to_def)
  have owed: "owed pf ops reg i s = mset (queued i [f]) + owed pf ops reg i s1"
    unfolding f using assigned_taken [OF k, of pf ops reg i] by (simp add: owed_def s1_def t_def)
  have same: "conns s1 = conns s" "sent s1 = sent s" "connections s1 = connections s" "fresh_conn s1 = fresh_conn s"
      "pool_tasks s1 = take k (pool_tasks s) @ drop (Suc k) (pool_tasks s)"
    by (simp_all add: s1_def)
  show ?thesis
  proof (cases "isInLoopThread me s1")
    case True
    then have "run_functors (run_functor pf) [f] s1 = Some s'" using run1 by (simp add: runInLoop_def)
    from run_functors_output [OF task_taken_wf [OF wf k, folded t_def s1_def] _ this, of i] same owed
    have "pays pf ops reg i (queued i [f]) s s' \<and> pool_tasks s' = pool_tasks s1"
      by (simp add: pays_def f_def owed_def output_of_def unsent_def input_of_def)
    with same(5) show ?thesis by auto
  next
    case False
    with run1 have s': "s' = queueInLoop me f s1" by (simp add: runInLoop_def)
    then have "conns s' = conns s1" "sent s' = sent s1" "connections s' = connections s1" "fresh_conn s' = fresh_conn s1"
        "pool_tasks s' = pool_tasks s1" "pendingFunctors s' = pendingFunctors s1 @ [f]"
      by (simp_all add: queueInLoop_def push_functor_def wakeup_def Let_def)
    with same owed have "pays pf ops reg i [] s s'" "pool_tasks s' = pool_tasks s1"
      by (simp_all add: pays_def owed_def output_of_def unsent_def input_of_def)
    with same(5) show ?thesis by auto
  qed
qed

text \<open>Then the references of the tasks and functors go, and with them connections.\<close>

lemma work_event_pays:
  assumes wf: "server_wf s" and k: "k < length (pool_tasks s)" and svc: "services_defined (pf_rt pf) ops reg"
    and run: "serve_event pf ops reg (Work me k) s = Some s'"
  shows "\<exists>s1. (\<forall>i. \<exists>xs. pays pf ops reg i xs s s1) \<and> frees s1 s'
    \<and> pool_tasks s' = take k (pool_tasks s) @ drop (Suc k) (pool_tasks s)"
proof -
  obtain s1 where "run_task pf ops reg me (pool_tasks s ! k)
      (s\<lparr>pool_tasks := take k (pool_tasks s) @ drop (Suc k) (pool_tasks s)\<rparr>) = Some s1" "frees s1 s'"
    using work_safe [OF wf k svc, of me] run by auto
  moreover from this work_pays [OF wf k this(1)] have "\<forall>i. \<exists>xs. pays pf ops reg i xs s s1"
      "pool_tasks s' = take k (pool_tasks s) @ drop (Suc k) (pool_tasks s)" by (simp_all add: frees_def)
  ultimately show ?thesis by blast
qed

lemma drain_event_pays:
  assumes wf: "server_wf s" and run: "run_pending pf s = Some s'"
  shows "\<exists>s1. (\<forall>i. \<exists>xs. pays pf ops reg i xs s s1) \<and> frees s1 s' \<and> pool_tasks s' = pool_tasks s \<and> pendingFunctors s' = []"
proof -
  obtain s1 where "doPendingFunctors (run_functor pf) s = Some s1" "frees s1 s'"
    using drain_safe [OF wf, of pf] run by auto
  moreover from this drain_pays [OF wf this(1), of ops reg] have "\<forall>i. \<exists>xs. pays pf ops reg i xs s s1"
      "pool_tasks s' = pool_tasks s \<and> pendingFunctors s' = []" by (auto simp: frees_def)
  ultimately show ?thesis by blast
qed

lemma balanced_paid:
  assumes "server_wf s" and "balanced pf ops reg e' qs i D A s"
    and "(\<forall>i. \<exists>xs. pays pf ops reg i xs s s1) \<and> frees s1 s' \<and> P"
  shows "\<exists>xs. balanced pf ops reg e' qs i D (A @ xs) s'"
  using balanced_freed [OF balanced_pays [OF assms(1,2)]] assms(3) by blast

text \<open>Read and write events.\<close>

lemma balanced_reads_other:
  "balanced pf ops reg e' qs i D A s \<Longrightarrow> reads_on j s s' \<Longrightarrow> j \<noteq> i \<Longrightarrow> balanced pf ops reg e' qs i D A s'"
  using balanced_touches unfolding reads_on_def by blast

lemma balanced_data:
  assumes rt: "pb_runtime_ok (pf_rt pf)" and wf: "server_wf s" and j: "conns s j = Some c" "bs \<noteq> []"
    and proper: "\<forall>(reqId, req) \<in> set qs. proper_request (pf_rt pf) req"
    and pre: "prefix (D @ data_of i (Data j bs)) (concat (map (request_frame e' (pf_rt pf)) qs))"
    and run: "conn_event pf (ReadOk bs) j EPOLLIN s = Some s'"
    and b: "balanced pf ops reg e' qs i D A s"
  shows "balanced pf ops reg e' qs i (D @ data_of i (Data j bs)) A s'"
proof -
  let ?s = "mark (conn_channel c) EPOLLIN s"
  have s': "reads_on j ?s s'" "handleRead (Some (onMessage pf)) (Some (server_close pf)) (ReadOk bs) j ?s = Some s'"
    using data_event [OF rt wf j(1), of "ReadOk bs"] run j(2) by auto
  have wf': "server_wf ?s" and c': "conns ?s j = Some c" and b': "balanced pf ops reg e' qs i D A ?s"
    using wf j(1) b by simp_all
  show ?thesis
  proof (cases "j = i")
    case True
    with pre have pre': "prefix (D @ bs) (concat (map (request_frame e' (pf_rt pf)) qs))" by simp
    from books_data [OF rt _ _ j(2) proper pre', of ops reg i A ?s s'] balanced_books [OF b'] c' s'(2) alive_live(2) [OF wf' c']
      True have "books pf ops reg e' qs i (D @ bs) A s'" by simp
    with b s'(1) True show ?thesis by (auto simp: balanced_def reads_on_def touches_def)
  next
    case False
    with balanced_reads_other [OF b' s'(1)] show ?thesis by simp
  qed
qed

lemma balanced_retry:
  assumes rt: "pb_runtime_ok (pf_rt pf)" and wf: "server_wf s" and j: "conns s j = Some c"
    and run: "conn_event pf (ReadErr EAGAIN) j EPOLLIN s = Some s'" and b: "balanced pf ops reg e' qs i D A s"
  shows "balanced pf ops reg e' qs i D A s'"
proof -
  let ?s = "mark (conn_channel c) EPOLLIN s"
  have s': "reads_on j ?s s'" "handleRead (Some (onMessage pf)) (Some (server_close pf)) (ReadErr EAGAIN) j ?s = Some s'"
    using data_event [OF rt wf j, of "ReadErr EAGAIN"] run by auto
  show ?thesis
  proof (cases "j = i")
    case True
    obtain d where d: "conns ?s i = Some d" "s' = set_conn i d ?s"
      using s'(2) True by (auto simp: handleRead_def readFd_Err Let_def split: option.splits)
    have "balanced pf ops reg e' qs i D A ?s" using b by simp
    from this show ?thesis
      unfolding d(2)
      by (rule balanced_same) (use d(1) in \<open>simp_all add: owed_def output_of_def unsent_def set_conn_def input_of_def\<close>)
  next
    case False
    with balanced_reads_other [OF _ s'(1)] b show ?thesis by simp
  qed
qed

lemma balanced_write:
  assumes wf: "server_wf s" and j: "conns s j = Some c" and run: "conn_event pf r j EPOLLOUT s = Some s'"
    and b: "balanced pf ops reg e' qs i D A s"
  shows "balanced pf ops reg e' qs i D A s'"
proof -
  let ?s = "mark (conn_channel c) EPOLLOUT s"
  obtain w where w: "handleWrite (pf_ctl pf) w j ?s = Some s'" using run write_event [OF wf j, of pf r] by simp
  have ok: "conn_ok j ?s" and c: "conns ?s j = Some c" and b': "balanced pf ops reg e' qs i D A ?s"
    using alive_live(2) [of ?s j c] wf j b by simp_all
  from write_touches [OF w c] have t: "touches j ?s s'" "pool_tasks s' = pool_tasks ?s" by simp_all
  show ?thesis
  proof (cases "j = i")
    case True
    with write_effect [OF ok, of "pf_ctl pf" w] w write_input [OF w]
    have "output_of i s' = output_of i ?s" "input_of i s' = input_of i ?s" by (auto simp: output_of_def)
    with balanced_same [OF b', of s'] t show ?thesis by (simp add: owed_def touches_def)
  next
    case False
    with balanced_touches [OF b' t(1), of "[]"] t(2) show ?thesis by simp
  qed
qed

text \<open>Any event.\<close>

lemma balanced_step:
  assumes srv: "serving pf ops reg s" and en: "event_enabled ev s" and run: "serve_event pf ops reg ev s = Some s'"
    and proper: "\<forall>(reqId, req) \<in> set qs. proper_request (pf_rt pf) req"
    and pre: "prefix (D @ data_of i ev) (concat (map (request_frame e' (pf_rt pf)) qs))"
    and b: "balanced pf ops reg e' qs i D A s"
  shows "\<exists>xs. balanced pf ops reg e' qs i (D @ data_of i ev) (A @ xs) s'"
proof -
  have wf: "server_wf s" and rt: "pb_runtime_ok (pf_rt pf)" and svc: "services_defined (pf_rt pf) ops reg"
    using srv by (simp_all add: serving_def)
  have keep: ?thesis if "balanced pf ops reg e' qs i (D @ data_of i ev) A s'"
    using that by (metis append_Nil2)
  have ok: "\<not> closed_while_reading ev s" using server_runs.step_good [OF srv en run] by blast
  have close: ?thesis if "closes j ev" for j
    using balanced_close [OF wf that en ok run b] that by (intro keep) (cases ev; simp)
  show ?thesis
  proof (cases ev)
    case (Accept fd peer)
    let ?s = "mark (acceptor s) EPOLLIN s"
    have "Acceptor_handleRead pf (Some (newConnection pf)) (fd, peer) ?s = Some s'"
      using run accept_event [OF wf, of pf ops reg fd peer] Accept by simp
    moreover have "balanced pf ops reg e' qs i D A ?s" using b by simp
    ultimately show ?thesis using balanced_accept [of pf fd peer ?s s'] Accept
      by (intro keep) (auto simp: Acceptor_handleRead_def split: if_splits)
  next
    case (Data j bs)
    with en obtain c where "conns s j = Some c" "bs \<noteq> []" by auto
    with run balanced_data [OF rt wf this proper _ _ b] pre Data show ?thesis by (intro keep) (simp del: data_of.simps)
  next
    case (Retry j)
    with en obtain c where "conns s j = Some c" by auto
    with run balanced_retry [OF rt wf this _ b] Retry show ?thesis by (intro keep) simp
  next
    case (CanWrite j)
    with en obtain c where "conns s j = Some c" by auto
    with run balanced_write [OF wf this _ b] CanWrite show ?thesis by (intro keep) simp
  next
    case (Work me k)
    with en have k: "k < length (pool_tasks s)" by simp
    from work_event_pays [OF wf k svc, of me s'] run Work balanced_paid [OF wf b] show ?thesis by fastforce
  next
    case Drain
    with run have "run_pending pf s = Some s'" by simp
    from drain_event_pays [OF wf this, of ops reg] Drain balanced_paid [OF wf b] show ?thesis by fastforce
  next
    case Wakeup
    with run have "s' = read_wakeup s" by (simp add: server_callback_def)
    with balanced_same [OF b, of s'] Wakeup show ?thesis
      by (intro keep) (simp add: read_wakeup_def owed_def output_of_def unsent_def input_of_def)
  qed (use close in simp_all)
qed

text \<open>Runs: events that do not happen deliver nothing to a living connection.\<close>

lemma balanced_run:
  assumes "serving pf ops reg s" and "run_all event_enabled (serve_event pf ops reg) evs s = Some s'"
    and "\<forall>(reqId, req) \<in> set qs. proper_request (pf_rt pf) req"
    and "prefix (D @ arrived i evs) (concat (map (request_frame e' (pf_rt pf)) qs))"
    and "balanced pf ops reg e' qs i D A s"
  shows "\<exists>xs. balanced pf ops reg e' qs i (D @ arrived i evs) (A @ xs) s'"
  using assms(1,2,4,5)
proof (induction evs arbitrary: s D A)
  case Nil
  then show ?case by (auto intro: exI [of _ "[]"])
next
  case (Cons ev evs)
  have pre: "prefix ((D @ data_of i ev) @ arrived i evs) (concat (map (request_frame e' (pf_rt pf)) qs))"
    using Cons.prems(3) by simp
  then have pre1: "prefix (D @ data_of i ev) (concat (map (request_frame e' (pf_rt pf)) qs))"
    by (rule append_prefixD)
  show ?case
  proof (cases "event_enabled ev s")
    case True
    then obtain s1 where s1: "serve_event pf ops reg ev s = Some s1" "serving pf ops reg s1"
      using Cons.prems(1,2) server_runs.step_good [OF Cons.prems(1) True]
      by (auto simp: bind_eq_Some_conv simp del: serve_event.simps)
    from balanced_step [OF Cons.prems(1) True s1(1) assms(3) pre1 Cons.prems(4)]
    obtain xs where "balanced pf ops reg e' qs i (D @ data_of i ev) (A @ xs) s1" by blast
    from Cons.IH [OF s1(2) _ pre this] Cons.prems(2) True s1(1)
    obtain ys where "balanced pf ops reg e' qs i ((D @ data_of i ev) @ arrived i evs) ((A @ xs) @ ys) s'" by auto
    then show ?thesis by (auto intro: exI [of _ "xs @ ys"])
  next
    case False
    then have "balanced pf ops reg e' qs i (D @ data_of i ev) A s"
      using Cons.prems(4) by (cases ev) (auto simp: balanced_def)
    from Cons.IH [OF Cons.prems(1) _ pre this] Cons.prems(2) False show ?thesis by simp
  qed
qed

text \<open>A connection starts with balanced books: nothing refers to its name before.\<close>

lemma accepted_balanced:
  assumes wf: "server_wf s" and new: "newConnection pf fd peer s = Some s'" and "sent s (fresh_conn s) = []"
  shows "balanced pf ops reg e' qs (fresh_conn s) [] [] s'"
proof -
  let ?i = "fresh_conn s"
  note n = newConnection_frame [OF new]
  have "conns s ?i = None" using wf_facts(3) [OF wf, of ?i] by (cases "conns s ?i") auto
  from dead_owed [OF wf this, of pf ops reg] have "owed pf ops reg ?i s' = {#}" using n by (simp add: owed_def)
  with n assms(3) show ?thesis
    by (auto simp: balanced_def books_def rc.cut_def output_of_def unsent_def intro!: exI [of _ "0 :: nat"])
qed

text \<open>What is in the buffer is the beginning of the next frame.\<close>

lemma cut_request:
  "rc.cut e' (encode_requests rt (drop n qs)) rest \<longleftrightarrow>
   rest = [] \<or> (n < length qs \<and> strict_prefix rest (request_frame e' rt (qs ! n)))"
  by (cases "n < length qs")
    (auto simp: rc.cut_def encode_requests_def request_frame_def drop_map neq_Nil_conv split_def
      simp flip: Cons_nth_drop_Suc)

lemma balanced_open:
  assumes "balanced pf ops reg e' qs i D A s" and "conns s i = Some c"
  shows "\<exists>n rest. n \<le> length qs \<and> D = concat (map (request_frame e' (pf_rt pf)) (take n qs)) @ rest
    \<and> (rest = [] \<or> (n < length qs \<and> strict_prefix rest (request_frame e' (pf_rt pf) (qs ! n))))
    \<and> output_of i s = concat (map (answer_frame (pf_order pf)) A)
    \<and> mset A + owed pf ops reg i s = mset (map (answer_to pf ops reg) (take n qs))"
  using assms by (auto simp: balanced_def books_def cut_request)

section \<open>Finishing the work\<close>

text \<open>Threads finish all \<open>n\<close> tasks of the pool, in any order.\<close>

fun finishes :: "nat \<Rightarrow> (nat \<times> nat) list \<Rightarrow> bool" where
  "finishes n [] = (n = 0)"
| "finishes n ((me, k) # ws) = (k < n \<and> finishes (n - 1) ws)"

definition work_events :: "(nat \<times> nat) list \<Rightarrow> server_event list" where
  "work_events ws = map (\<lambda>(me, k). Work me k) ws"

lemma finish_pool:
  assumes "serving pf ops reg s" and "finishes (length (pool_tasks s)) ws"
  shows "\<exists>s'. run_all event_enabled (serve_event pf ops reg) (work_events ws) s = Some s' \<and> serving pf ops reg s'
    \<and> pool_tasks s' = [] \<and> connections s' = connections s"
  using assms
proof (induction ws arbitrary: s)
  case Nil
  then show ?case by (simp add: work_events_def)
next
  case (Cons w ws)
  obtain me k where w: "w = (me, k)" by (cases w)
  have k: "k < length (pool_tasks s)" using Cons.prems(2) w by simp
  obtain s1 where s1: "serve_event pf ops reg (Work me k) s = Some s1" "serving pf ops reg s1"
    using serve_progress [OF Cons.prems(1), of "Work me k"] k by auto
  have "server_wf s" using Cons.prems(1) by (simp add: serving_def)
  moreover have "services_defined (pf_rt pf) ops reg" using Cons.prems(1) by (simp add: serving_def)
  ultimately obtain s0 where s0: "\<exists>xs. pays pf ops reg 0 xs s s0" "frees s0 s1"
      "pool_tasks s1 = take k (pool_tasks s) @ drop (Suc k) (pool_tasks s)"
    using work_event_pays [OF _ k _ s1(1)] by blast
  then have p: "connections s1 = connections s" "length (pool_tasks s1) = length (pool_tasks s) - 1"
    using k unfolding s0(3) by (auto simp: pays_def frees_def)
  with Cons.IH [OF s1(2)] Cons.prems(2) w obtain s'
    where "run_all event_enabled (serve_event pf ops reg) (work_events ws) s1 = Some s'" "serving pf ops reg s'"
      "pool_tasks s' = []" "connections s' = connections s" by auto
  with s1(1) k w show ?case by (simp add: work_events_def del: serve_event.simps)
qed

lemma run_all_append:
  "run_all en step (evs @ evs') s = Option.bind (run_all en step evs s) (run_all en step evs')"
  by (induction evs arbitrary: s) (auto split: Option.bind_split)

text \<open>After that and one round of the loop nothing is owed to anyone.\<close>

lemma finish_all:
  assumes "serving pf ops reg s" and "finishes (length (pool_tasks s)) ws"
  shows "\<exists>s'. run_all event_enabled (serve_event pf ops reg) (work_events ws @ [Drain]) s = Some s'
    \<and> serving pf ops reg s' \<and> connections s' = connections s \<and> owed pf ops reg i s' = {#}"
proof -
  obtain s1 where s1: "run_all event_enabled (serve_event pf ops reg) (work_events ws) s = Some s1"
      "serving pf ops reg s1" "pool_tasks s1 = []" "connections s1 = connections s"
    using finish_pool [OF assms] by blast
  obtain s2 where s2: "serve_event pf ops reg Drain s1 = Some s2" "serving pf ops reg s2"
    using serve_progress [OF s1(2), of Drain] by auto
  have "server_wf s1" using s1(2) by (simp add: serving_def)
  with drain_event_pays [of s1 pf s2 ops reg] s2 s1(3) have "owed pf ops reg i s2 = {#}" "connections s2 = connections s1"
    by (auto simp: pays_def owed_def frees_def)
  with s1 s2 show ?thesis by (simp add: run_all_append)
qed

text \<open>Then a connection on which a complete stream has arrived has its answers.\<close>

lemma settle:
  assumes srv: "serving pf ops reg s" and i: "i \<in> connections s"
    and proper: "\<forall>(reqId, req) \<in> set qs. proper_request (pf_rt pf) req"
    and bal: "balanced pf ops reg e' qs i (concat (map (request_frame e' (pf_rt pf)) qs)) A s"
    and ws: "finishes (length (pool_tasks s)) ws"
  shows "\<exists>s' answered. run_all event_enabled (serve_event pf ops reg) (work_events ws @ [Drain]) s = Some s'
    \<and> serving pf ops reg s' \<and> connections s' = connections s
    \<and> output_of i s' = concat (map (answer_frame (pf_order pf)) answered)
    \<and> mset answered = mset (map (answer_to pf ops reg) qs)"
proof -
  let ?frames = "\<lambda>qs. concat (map (request_frame e' (pf_rt pf)) qs)"
  obtain s' where s': "run_all event_enabled (serve_event pf ops reg) (work_events ws @ [Drain]) s = Some s'"
      "serving pf ops reg s'" "connections s' = connections s" "owed pf ops reg i s' = {#}"
    using finish_all [OF srv ws, of i] by blast
  have none: "arrived i (work_events ws @ [Drain]) = []"
    by (auto simp: arrived_def work_events_def split_def)
  obtain xs where "balanced pf ops reg e' qs i (?frames qs) (A @ xs) s'"
    using balanced_run [OF srv s'(1) proper _ bal] none by auto
  moreover have "server_wf s'" "referenced i s'" using s'(2,3) i by (simp_all add: serving_def referenced_def)
  then obtain c where "conns s' i = Some c" using conn_ok_some [OF wf_live] by blast
  ultimately have "balanced pf ops reg e' qs i (?frames qs) (A @ xs) s'" "conns s' i = Some c" by simp_all
  from balanced_open [OF this] s'(4) obtain n rest
    where r: "?frames qs = ?frames (take n qs) @ rest"
      "rc.cut e' (encode_requests (pf_rt pf) (drop n qs)) rest"
      "output_of i s' = concat (map (answer_frame (pf_order pf)) (A @ xs))"
      "mset (A @ xs) = mset (map (answer_to pf ops reg) (take n qs))"
    by (auto simp flip: cut_request)
  have "?frames qs = ?frames (take n qs) @ ?frames (drop n qs)"
    by (metis append_take_drop_id concat_append map_append)
  with r(1) have "rest = rc.frames e' (encode_requests (pf_rt pf) (drop n qs))" by (simp add: encode_frames)
  with r(2) have "drop n qs = []" using rc.cut_all by (fastforce simp: encode_requests_def)
  with r(3,4) s'(1-3) show ?thesis by (intro exI [of _ s'] exI [of _ "A @ xs"]) simp
qed

section \<open>Connections that stay open\<close>

fun next_connections :: "server_event \<Rightarrow> ('u, 'k) server \<Rightarrow> nat set" where
  "next_connections (Accept fd peer) s = (if 0 \<le> fd then insert (fresh_conn s) (connections s) else connections s)"
| "next_connections (Eof i) s = connections s - {i}"
| "next_connections (ReadFails i e) s = connections s - {i}"
| "next_connections (PeerClosed i) s = connections s - {i}"
| "next_connections (PeerError i) s = connections s - {i}"
| "next_connections ev s = connections s"

text \<open>
  The effect of an event on the set of connections, and on names that are not in use.  Most events leave
  both alone.
\<close>

definition quiet :: "('u, 'k) server \<Rightarrow> ('u, 'k) server \<Rightarrow> bool" where
  "quiet s s' \<longleftrightarrow> connections s' = connections s \<and> fresh_conn s \<le> fresh_conn s'
     \<and> (\<forall>j. fresh_conn s' \<le> j \<longrightarrow> sent s' j = sent s j)"

lemma open_alive:
  assumes "server_wf s" and "i \<in> connections s"
  shows "\<exists>c. conns s i = Some c"
  using conn_ok_some [OF wf_live [OF assms(1), of i]] assms(2) by (simp add: referenced_def)

lemma touches_quiet:
  assumes "server_wf s" and "conns s i = Some c" and "touches i s s'"
  shows "quiet s s'"
  using wf_facts(3) [OF assms(1,2)] assms(3) by (auto simp: quiet_def touches_def)

lemma quiet_mark [simp]: "quiet (mark p ev s) s' = quiet s s'"
  by (simp add: quiet_def)

lemma fresh_none: "server_wf s \<Longrightarrow> fresh_conn s \<le> j \<Longrightarrow> conns s j = None"
  using wf_facts(3) [of "{}" s j] by (cases "conns s j") auto

lemma paid_quiet:
  assumes wf: "server_wf s" and p: "(\<forall>i. \<exists>xs. pays pf ops reg i xs s s1) \<and> frees s1 s' \<and> P"
  shows "quiet s s'"
proof -
  have same: "connections s1 = connections s" "fresh_conn s1 = fresh_conn s" using p by (auto simp: pays_def)
  have "sent s1 j = sent s j" if j: "fresh_conn s \<le> j" for j
  proof -
    have none: "conns s j = None" using fresh_none [OF wf j] .
    obtain xs where "pays pf ops reg j xs s s1" using p by blast
    with none dead_owed [OF wf none, of pf ops reg] show ?thesis
      by (auto simp: pays_def output_of_def unsent_def input_of_def)
  qed
  with same p show ?thesis by (simp add: quiet_def frees_def)
qed

lemma step_connections:
  assumes srv: "serving pf ops reg s" and en: "event_enabled ev s" and run: "serve_event pf ops reg ev s = Some s'"
  shows "connections s' = next_connections ev s \<and> fresh_conn s \<le> fresh_conn s'
    \<and> (\<forall>j. fresh_conn s' \<le> j \<longrightarrow> sent s' j = sent s j)"
proof -
  have wf: "server_wf s" and rt: "pb_runtime_ok (pf_rt pf)" and svc: "services_defined (pf_rt pf) ops reg"
    using srv by (simp_all add: serving_def)
  have ok: "\<not> closed_while_reading ev s" using server_runs.step_good [OF srv en run] by blast
  have close: "connections s' = connections s - {j} \<and> fresh_conn s' = fresh_conn s \<and> sent s' = sent s"
    if cl: "closes j ev" for j
  proof -
    obtain s0 c where s0: "server_close pf j s0 = Some s'" "server_wf s0" "conns s0 j = Some c" "nearly j s s0"
      using closing_event [OF wf cl en ok, of pf ops reg] run by auto
    with server_close_safe [OF s0(2,3), of pf] show ?thesis by (auto simp: frees_def nearly_def)
  qed
  have reads: "quiet s s'" if ran: "conn_event pf r j EPOLLIN s = Some s'" "conns s j \<noteq> None"
      and r: "r = ReadErr EAGAIN \<or> (\<exists>bs. r = ReadOk bs \<and> bs \<noteq> [])" for r j
  proof -
    obtain c where c: "conns s j = Some c" using ran(2) by blast
    let ?s = "mark (conn_channel c) EPOLLIN s"
    have "touches j ?s s'" using data_event [OF rt wf c r] ran(1) by (auto simp: reads_on_def)
    with touches_quiet [of ?s j c s'] wf c show ?thesis by simp
  qed
  show ?thesis
  proof (cases ev)
    case (Accept fd peer)
    with run accept_event [OF wf, of pf ops reg fd peer]
      newConnection_frame [of pf fd peer "mark (acceptor s) EPOLLIN s" s'] show ?thesis
      by (auto simp: Acceptor_handleRead_def simp del: serve_event.simps split: if_splits)
  next
    case (Data j bs)
    with run en reads [of "ReadOk bs" j] show ?thesis by (simp add: quiet_def)
  next
    case (Retry j)
    with run en reads [of "ReadErr EAGAIN" j] show ?thesis by (simp add: quiet_def)
  next
    case (CanWrite j)
    with en obtain c where c: "conns s j = Some c" by auto
    let ?s = "mark (conn_channel c) EPOLLOUT s"
    obtain w where "handleWrite (pf_ctl pf) w j ?s = Some s'"
      using run CanWrite write_event [OF wf c, of pf "ReadErr EAGAIN"] by simp
    from write_touches [OF this, of c] c touches_quiet [of ?s j c s'] wf CanWrite show ?thesis by (simp add: quiet_def)
  next
    case (Work me k)
    with run en work_event_pays [OF wf _ svc, of k me s'] paid_quiet [OF wf] have "quiet s s'"
      by (fastforce simp del: serve_event.simps)
    with Work show ?thesis by (simp add: quiet_def)
  next
    case Drain
    with run drain_event_pays [OF wf, of pf s' ops reg] paid_quiet [OF wf] have "quiet s s'" by fastforce
    with Drain show ?thesis by (simp add: quiet_def)
  next
    case Wakeup
    with run show ?thesis by (auto simp: server_callback_def read_wakeup_def)
  qed (use close in simp_all)
qed

lemma open_step:
  assumes "serving pf ops reg s" and "event_enabled ev s" and "serve_event pf ops reg ev s = Some s'"
    and "i \<in> connections s" and "\<not> closes i ev"
  shows "i \<in> connections s'"
  using step_connections [OF assms(1-3)] assms(4,5) by (cases ev) auto

lemma open_run:
  assumes "serving pf ops reg s" and "run_all event_enabled (serve_event pf ops reg) evs s = Some s'"
    and "i \<in> connections s" and "\<forall>ev \<in> set evs. \<not> closes i ev"
  shows "i \<in> connections s'"
  using assms
proof (induction evs arbitrary: s)
  case Nil
  then show ?case by simp
next
  case (Cons ev evs)
  show ?case
  proof (cases "event_enabled ev s")
    case True
    then obtain s1 where s1: "serve_event pf ops reg ev s = Some s1" "serving pf ops reg s1"
        "run_all event_enabled (serve_event pf ops reg) evs s1 = Some s'"
      using Cons.prems(1,2) server_runs.step_good [OF Cons.prems(1) True]
      by (auto simp: bind_eq_Some_conv simp del: serve_event.simps)
    from open_step [OF Cons.prems(1) True s1(1) Cons.prems(3)] Cons.prems(4) have "i \<in> connections s1" by auto
    from Cons.IH [OF s1(2,3) this] Cons.prems(4) show ?thesis by simp
  qed (use Cons in simp)
qed

text \<open>From the acceptance of a connection on.\<close>

lemma accepted_run:
  assumes srv: "serving pf ops reg s" and "0 \<le> fd" and "sent s (fresh_conn s) = []"
    and "\<forall>(reqId, req) \<in> set qs. proper_request (pf_rt pf) req"
    and "prefix (arrived (fresh_conn s) evs) (concat (map (request_frame e' (pf_rt pf)) qs))"
    and "\<forall>ev \<in> set evs. \<not> closes (fresh_conn s) ev"
    and "\<not> faults event_enabled closed_while_reading (serve_event pf ops reg) (Accept fd peer # evs) s"
  shows "\<exists>s' c. run_all event_enabled (serve_event pf ops reg) (Accept fd peer # evs) s = Some s'
    \<and> serving pf ops reg s' \<and> fresh_conn s \<in> connections s' \<and> conns s' (fresh_conn s) = Some c
    \<and> (\<exists>A. balanced pf ops reg e' qs (fresh_conn s) (arrived (fresh_conn s) evs) A s')"
proof -
  let ?i = "fresh_conn s" and ?s = "mark (acceptor s) EPOLLIN s"
  have wf: "server_wf s" using srv by (simp add: serving_def)
  from server_runs.runs_defined [OF srv assms(7)] obtain s'
    where run: "run_all event_enabled (serve_event pf ops reg) (Accept fd peer # evs) s = Some s'" "serving pf ops reg s'"
    by blast
  from this(1) obtain s1 where s1: "serve_event pf ops reg (Accept fd peer) s = Some s1"
      "run_all event_enabled (serve_event pf ops reg) evs s1 = Some s'"
    by (auto simp: bind_eq_Some_conv simp del: serve_event.simps)
  have srv1: "serving pf ops reg s1" using server_runs.step_good [OF srv _ s1(1)] by simp
  have new: "newConnection pf fd peer ?s = Some s1"
    using s1(1) accept_event [OF wf, of pf ops reg fd peer] assms(2) by (simp add: Acceptor_handleRead_def)
  have "?i \<in> connections s1" using newConnection_frame [OF new] by simp
  from open_run [OF srv1 s1(2) this assms(6)] have i: "?i \<in> connections s'" .
  have "balanced pf ops reg e' qs ?i [] [] s1" using accepted_balanced [OF _ new] wf assms(3) by simp
  from balanced_run [OF srv1 s1(2) assms(4) _ this] assms(5)
  have "\<exists>A. balanced pf ops reg e' qs ?i (arrived ?i evs) A s'" by auto
  with i run open_alive [of s' ?i] show ?thesis by (auto simp: serving_def)
qed

section \<open>Properties\<close>

lemma sample_serving: "serving sample_platform echo_ops (service_register echo_service Map.empty) sample_server"
  using sample_server_wf vrt.pb_runtime_ok_axioms echo_defined by (simp add: serving_def sample_platform_def)

lemma sample_fields: "pf_rt sample_platform = varint_runtime" "pf_order sample_platform = LittleEndian"
  by (simp_all add: sample_platform_def)

lemma sample_fresh: "fresh_conn sample_server = 2" "sent sample_server 2 = []"
  by (simp_all add: sample_server_def TcpConnection_new_def set_conn_def)

text \<open>Two requests in two pieces, between the events of another connection.\<close>

definition sample_stream :: bytes where
  "sample_stream = concat (map (request_frame BigEndian varint_runtime) [(3, sample_request), (4, sample_request)])"

definition sample_events :: "server_event list" where
  "sample_events = [Data 2 (take 50 sample_stream), Data 1 ''junk'', Work 5 0, PeerClosed 1, Data 2 (drop 50 sample_stream),
     CanWrite 2, Work 0 0, Drain]"

lemma sample_faultless:
  "\<not> faults event_enabled closed_while_reading (serve_event pf ops reg) (Accept 8 ''b'' # sample_events) s"
  by (rule no_faults) (simp add: sample_events_def)

lemma sample_arrived: "arrived 2 sample_events = sample_stream"
  by (simp add: sample_events_def)

text \<open>
  C5: The server implements a ledger.  A client connects, at any moment, and sends proper requests; the
  network delivers any part of the stream in pieces, interleaved with events of other connections (their
  ends and errors included), write events, finished tasks and drained functors in any order.  Unless the
  end of another connection meets the fault of C24, the run is defined, and at its end the complete requests are exactly those the server has taken: the answers written on the connection, one
  frame each, together with the answers still owed, by tasks in the pool and functors of the loop, are
  the responses of the dispatcher to these requests under their ids, each exactly once.
\<close>

theorem server_answers_requests:
  assumes "serving pf ops reg s" and "0 \<le> fd" and "i = fresh_conn s" and "sent s i = []"
    and "\<forall>(reqId, req) \<in> set qs. proper_request (pf_rt pf) req"
    and "prefix (arrived i evs) (concat (map (request_frame e' (pf_rt pf)) qs))"
    and "\<forall>ev \<in> set evs. \<not> closes i ev"
    and "\<not> faults event_enabled closed_while_reading (serve_event pf ops reg) (Accept fd peer # evs) s"
  shows "\<exists>s' n rest answered. run_all event_enabled (serve_event pf ops reg) (Accept fd peer # evs) s = Some s'
    \<and> n \<le> length qs \<and> arrived i evs = concat (map (request_frame e' (pf_rt pf)) (take n qs)) @ rest
    \<and> (rest = [] \<or> (n < length qs \<and> strict_prefix rest (request_frame e' (pf_rt pf) (qs ! n))))
    \<and> output_of i s' = concat (map (answer_frame (pf_order pf)) answered)
    \<and> mset answered + owed pf ops reg i s' = mset (map (answer_to pf ops reg) (take n qs))"
  using accepted_run [OF assms(1,2) _ assms(5), of evs e' peer] assms(3,4,6-8) balanced_open by blast

lemma server_answers_requests_witness:
  "\<exists>s' n answered. run_all event_enabled
       (serve_event sample_platform echo_ops (service_register echo_service Map.empty))
       (Accept 8 ''b'' # sample_events) sample_server = Some s'
     \<and> output_of 2 s' = concat (map (answer_frame LittleEndian) answered)
     \<and> mset answered + owed sample_platform echo_ops (service_register echo_service Map.empty) 2 s'
       = mset (map (answer_to sample_platform echo_ops (service_register echo_service Map.empty))
           (take n [(3, sample_request), (4, sample_request)]))"
proof -
  have "prefix (arrived 2 sample_events) (concat (map (request_frame BigEndian varint_runtime)
      [(3, sample_request), (4, sample_request)]))"
    by (simp only: sample_arrived sample_stream_def prefix_order.refl)
  with server_answers_requests [OF sample_serving, of 8 2 "[(3, sample_request), (4, sample_request)]" sample_events
      BigEndian "''b''"] sample_fresh sample_request_proper
      sample_faultless [of sample_platform echo_ops "service_register echo_service Map.empty" sample_server]
  show ?thesis by (fastforce simp: sample_fields sample_events_def simp del: run_all.simps)
qed

text \<open>
  C6: Every request is answered.  When the whole stream has arrived, the threads of the pool finish their
  tasks, in any order, and the loop runs its functors, then the output of the connection is one frame for
  each request, the response of the dispatcher under the id of the request, in some order, and nothing
  else.
\<close>

theorem requests_all_answered:
  assumes "serving pf ops reg s" and "0 \<le> fd" and "i = fresh_conn s" and "sent s i = []"
    and "\<forall>(reqId, req) \<in> set qs. proper_request (pf_rt pf) req"
    and "arrived i evs = concat (map (request_frame e' (pf_rt pf)) qs)"
    and "\<forall>ev \<in> set evs. \<not> closes i ev"
    and "\<not> faults event_enabled closed_while_reading (serve_event pf ops reg) (Accept fd peer # evs) s"
  shows "\<exists>s1. run_all event_enabled (serve_event pf ops reg) (Accept fd peer # evs) s = Some s1
    \<and> (\<forall>ws. finishes (length (pool_tasks s1)) ws \<longrightarrow>
        (\<exists>s' answered. run_all event_enabled (serve_event pf ops reg) (work_events ws @ [Drain]) s1 = Some s'
          \<and> output_of i s' = concat (map (answer_frame (pf_order pf)) answered)
          \<and> mset answered = mset (map (answer_to pf ops reg) qs)))"
proof -
  obtain s1 A where s1: "run_all event_enabled (serve_event pf ops reg) (Accept fd peer # evs) s = Some s1"
      "serving pf ops reg s1" "i \<in> connections s1" "balanced pf ops reg e' qs i (arrived i evs) A s1"
    using accepted_run [OF assms(1,2) _ assms(5), of evs e' peer] assms(3,4,6-8) by auto
  with settle [OF s1(2,3) assms(5)] assms(6) show ?thesis by metis
qed

text \<open>The order in which the tasks are listed is one schedule.\<close>

lemma finishes_in_order: "finishes n (replicate n (me, 0))"
  by (induction n) simp_all

lemma requests_all_answered_witness:
  "\<exists>s1 s' answered. run_all event_enabled
       (serve_event sample_platform echo_ops (service_register echo_service Map.empty))
       (Accept 8 ''b'' # sample_events) sample_server = Some s1
     \<and> run_all event_enabled (serve_event sample_platform echo_ops (service_register echo_service Map.empty))
       (work_events (replicate (length (pool_tasks s1)) (7, 0)) @ [Drain]) s1 = Some s'
     \<and> output_of 2 s' = concat (map (answer_frame LittleEndian) answered) \<and> length answered = 2"
proof -
  have "arrived 2 sample_events = concat (map (request_frame BigEndian varint_runtime)
      [(3, sample_request), (4, sample_request)])"
    by (simp only: sample_arrived sample_stream_def)
  moreover have "\<forall>ev \<in> set sample_events. \<not> closes 2 ev" by (simp add: sample_events_def)
  ultimately obtain s1 where s1: "run_all event_enabled
        (serve_event sample_platform echo_ops (service_register echo_service Map.empty))
        (Accept 8 ''b'' # sample_events) sample_server = Some s1"
      "\<forall>ws. finishes (length (pool_tasks s1)) ws \<longrightarrow>
        (\<exists>s' answered. run_all event_enabled (serve_event sample_platform echo_ops (service_register echo_service Map.empty))
            (work_events ws @ [Drain]) s1 = Some s'
          \<and> output_of 2 s' = concat (map (answer_frame LittleEndian) answered)
          \<and> mset answered = mset (map (answer_to sample_platform echo_ops (service_register echo_service Map.empty))
              [(3, sample_request), (4, sample_request)]))"
    using requests_all_answered [OF sample_serving, of 8 2 "[(3, sample_request), (4, sample_request)]" sample_events
      BigEndian "''b''"] sample_fresh sample_request_proper
      sample_faultless [of sample_platform echo_ops "service_register echo_service Map.empty" sample_server]
    by (auto simp: sample_fields simp del: run_all.simps)
  then obtain s' answered where "run_all event_enabled
        (serve_event sample_platform echo_ops (service_register echo_service Map.empty))
        (work_events (replicate (length (pool_tasks s1)) (7, 0)) @ [Drain]) s1 = Some s'"
      "output_of 2 s' = concat (map (answer_frame LittleEndian) answered)"
      "mset answered = mset (map (answer_to sample_platform echo_ops (service_register echo_service Map.empty))
         [(3, sample_request), (4, sample_request)])"
    using finishes_in_order by blast
  moreover from this(3) have "length answered = 2" by (metis length_Cons length_map list.size(3) numeral_2_eq_2 size_mset)
  ultimately show ?thesis using s1(1) by blast
qed

end
