(* ===== verification/Rpc_Deployment.thy ===== *)
theory Rpc_Deployment
  imports Server_Answers Client_Steps
begin

text \<open>
  A client and the server connected by a network.  The client is a channel with any number of calling
  threads and its loop, the server a loop with a pool, and the network delivers what one side wrote on a
  connection to the other, in order and in pieces of any size.  All of them move in any order, and other
  clients do what they like.
\<close>

section \<open>Deployments\<close>

text \<open>
  The client, the server, the connections of the client the server has accepted, and the bytes the
  network has delivered on a connection of the client, up to the server and down to the client.
\<close>

record ('u, 'k, 'g, 'r) deployment =
  dp_client :: "('u, 'g, 'r) client_run"
  dp_server :: "('u, 'k) server"
  dp_link :: "nat \<rightharpoonup> nat"
  dp_up :: "nat \<Rightarrow> bytes"
  dp_down :: "nat \<Rightarrow> bytes"

definition written_on :: "nat \<Rightarrow> ('u, 'g, 'r) RpcChannel \<Rightarrow> bytes" where
  "written_on x ch = concat (map snd (filter (\<lambda>m. fst m = x) (outbox ch)))"

definition call_message :: "('u, 'g, 'r) client_env \<Rightarrow> call \<Rightarrow> 'u RpcRequest" where
  "call_message env c = make_request (ce_rt env) (call_method c) (call_request c)"

definition receive_on :: "('u, 'g, 'r) client_env \<Rightarrow> nat \<Rightarrow> bytes \<Rightarrow> ('u, 'g, 'r) RpcChannel
    \<Rightarrow> (('u, 'g, 'r) RpcChannel \<times> (uint64 \<times> 'u RpcResponse) option) option" where
  "receive_on env x bs ch = decode_response env x (ch\<lparr>inbufs := (inbufs ch)(x := fill_input bs (inbufs ch x))\<rparr>)"

definition take_in :: "('u, 'g, 'r) RpcChannel \<Rightarrow> (uint64 \<times> 'u RpcResponse) option \<Rightarrow> ('u, 'g, 'r) client_run
    \<Rightarrow> ('u, 'g, 'r) client_run" where
  "take_in ch r cl =
     (case r of
        None \<Rightarrow> cl\<lparr>chan := ch\<rparr>
      | Some (reqId, rsp) \<Rightarrow> cl\<lparr>chan := ch, loop_at := Parsed reqId rsp, received := received cl @ [(reqId, rsp)]\<rparr>)"

text \<open>Events of the server that are not caused by this client.\<close>

definition foreign :: "(nat \<rightharpoonup> nat) \<Rightarrow> server_event \<Rightarrow> bool" where
  "foreign link ev \<longleftrightarrow> (\<forall>i bs. ev = Data i bs \<longrightarrow> i \<notin> ran link)"

inductive deploy_step ::
  "('u, 'k) platform \<Rightarrow> 'msg message_ops \<Rightarrow> ('mth, 'msg) service_registry \<Rightarrow> ('u, 'g, 'r) client_env
     \<Rightarrow> ('u, 'k, 'g, 'r) deployment \<Rightarrow> ('u, 'k, 'g, 'r) deployment \<Rightarrow> bool"
  for pf ops reg env where
  begin_call: "proper_request (ce_rt env) (make_request (ce_rt env) m request) \<Longrightarrow>
    (\<And>p. k = Async p \<Longrightarrow> pa_done p \<notin> closures (calls (dp_client d))) \<Longrightarrow>
    deploy_step pf ops reg env d (d\<lparr>dp_client := (dp_client d)\<lparr>calls := calls (dp_client d)
      @ [\<lparr>call_kind = k, call_method = m, call_request = request, call_at = Looking addr, call_id = None\<rparr>]\<rparr>\<rparr>)"
| caller: "i < length (calls (dp_client d)) \<Longrightarrow>
    advance env late (calls (dp_client d) ! i) (chan (dp_client d)) = Some (c, ch) \<Longrightarrow>
    deploy_step pf ops reg env d (d\<lparr>dp_client := (dp_client d)\<lparr>chan := ch, calls := (calls (dp_client d))[i := c]\<rparr>\<rparr>)"
| handle: "loop_advance env (loop_at (dp_client d)) (chan (dp_client d)) = Some (pc, ch) \<Longrightarrow>
    deploy_step pf ops reg env d (d\<lparr>dp_client := (dp_client d)\<lparr>chan := ch, loop_at := pc\<rparr>\<rparr>)"
| connected: "x < new_conn (chan (dp_client d)) \<Longrightarrow> dp_link d x = None \<Longrightarrow> 0 \<le> fd \<Longrightarrow>
    serve_event pf ops reg (Accept fd peer) (dp_server d) = Some s \<Longrightarrow>
    deploy_step pf ops reg env d (d\<lparr>dp_server := s, dp_link := (dp_link d)(x \<mapsto> fresh_conn (dp_server d))\<rparr>)"
| upstream: "dp_link d x = Some i \<Longrightarrow> event_enabled (Data i bs) (dp_server d) \<Longrightarrow>
    prefix (dp_up d x @ bs) (written_on x (chan (dp_client d))) \<Longrightarrow>
    serve_event pf ops reg (Data i bs) (dp_server d) = Some s \<Longrightarrow>
    deploy_step pf ops reg env d (d\<lparr>dp_server := s, dp_up := (dp_up d)(x := dp_up d x @ bs)\<rparr>)"
| downstream: "dp_link d x = Some i \<Longrightarrow> loop_at (dp_client d) = Polling \<Longrightarrow>
    prefix (dp_down d x @ bs) (sent (dp_server d) i) \<Longrightarrow>
    receive_on env x bs (chan (dp_client d)) = Some (ch, r) \<Longrightarrow>
    deploy_step pf ops reg env d
      (d\<lparr>dp_client := take_in ch r (dp_client d), dp_down := (dp_down d)(x := dp_down d x @ bs)\<rparr>)"
| elsewhere: "foreign (dp_link d) ev \<Longrightarrow> event_enabled ev (dp_server d) \<Longrightarrow>
    serve_event pf ops reg ev (dp_server d) = Some s \<Longrightarrow> deploy_step pf ops reg env d (d\<lparr>dp_server := s\<rparr>)"

text \<open>
  The start: a new channel and a server that was just started, or has served others.  The services are
  defined on all requests, and their answers to requests of a proper size have a proper size.
\<close>

definition deploy_start ::
  "('u, 'k) platform \<Rightarrow> 'msg message_ops \<Rightarrow> ('mth, 'msg) service_registry \<Rightarrow> ('u, 'k, 'g, 'r) deployment \<Rightarrow> bool" where
  "deploy_start pf ops reg d \<longleftrightarrow> client_start (dp_client d) \<and> serving pf ops reg (dp_server d)
     \<and> (\<forall>i \<ge> fresh_conn (dp_server d). sent (dp_server d) i = [])
     \<and> dp_link d = Map.empty \<and> dp_up d = (\<lambda>_. []) \<and> dp_down d = (\<lambda>_. [])"

definition replies_fit :: "'u pb_runtime \<Rightarrow> 'msg message_ops \<Rightarrow> ('mth, 'msg) service_registry \<Rightarrow> bool" where
  "replies_fit rt ops reg \<longleftrightarrow> (\<forall>request rsp. proper_request rt request \<and> dispatchRequest rt ops reg request = Returned rsp
     \<longrightarrow> RpcResponse_wf rt rsp \<and> fits (RpcResponse_InternalSerialize rt rsp))"

definition deploy_reachable ::
  "('u, 'k) platform \<Rightarrow> 'msg message_ops \<Rightarrow> ('mth, 'msg) service_registry \<Rightarrow> ('u, 'g, 'r) client_env
     \<Rightarrow> ('u, 'k, 'g, 'r) deployment \<Rightarrow> bool" where
  "deploy_reachable pf ops reg env d \<longleftrightarrow>
     (\<exists>d0. deploy_start pf ops reg d0 \<and> (deploy_step pf ops reg env)\<^sup>*\<^sup>* d0 d)"

section \<open>The invariant\<close>

text \<open>Somebody asked: a call of the client has sent this request under this id.\<close>

definition asked :: "('u, 'g, 'r) client_env \<Rightarrow> call list \<Rightarrow> uint64 \<Rightarrow> 'u RpcRequest \<Rightarrow> bool" where
  "asked env cs k req \<longleftrightarrow> (\<exists>c \<in> set cs. call_id c = Some k \<and> was_sent (call_at c) \<and> req = call_message env c)"

text \<open>
  A connection \<open>x\<close> of the client: what was written on it are the requests \<open>qs\<close>; if the server has or had it
  as \<open>i\<close>, its books are balanced for what has arrived, and what has come down is some of the answers \<open>A\<close>
  and the beginning of the next one, which waits in the input buffer of the client.
\<close>

definition heard :: "byte_order \<Rightarrow> (uint64 \<times> bytes) list \<Rightarrow> buffer \<Rightarrow> bytes \<Rightarrow> bool" where
  "heard e A b down \<longleftrightarrow> prefix down (rc.frames e A) \<and> (\<exists>m \<le> length A. down = rc.frames e (take m A) @ contents b)"

definition talks where
  "talks pf ops reg env d x qs \<longleftrightarrow>
     written_on x (chan (dp_client d)) = concat (map (request_frame (ce_order env) (ce_rt env)) qs)
     \<and> (\<forall>(k, req) \<in> set qs. proper_request (ce_rt env) req \<and> asked env (calls (dp_client d)) k req)
     \<and> (\<forall>i. dp_link d x = Some i \<longrightarrow> prefix (dp_up d x) (written_on x (chan (dp_client d)))
         \<and> (\<exists>A. balanced pf ops reg (ce_order env) qs i (dp_up d x) A (dp_server d)
             \<and> heard (pf_order pf) A (inbufs (chan (dp_client d)) x) (dp_down d x)))"

definition net_ok :: "('u, 'k, 'g, 'r) deployment \<Rightarrow> bool" where
  "net_ok d \<longleftrightarrow>
     (\<forall>x y i. dp_link d x = Some i \<longrightarrow> dp_link d y = Some i \<longrightarrow> x = y)
     \<and> (\<forall>x i. dp_link d x = Some i \<longrightarrow> i < fresh_conn (dp_server d) \<and> x < new_conn (chan (dp_client d)))
     \<and> (\<forall>x. dp_link d x = None \<longrightarrow> dp_up d x = [] \<and> dp_down d x = [])
     \<and> (\<forall>x < new_conn (chan (dp_client d)). buf_inv (inbufs (chan (dp_client d)) x)
          \<and> (dp_link d x = None \<longrightarrow> contents (inbufs (chan (dp_client d)) x) = []))
     \<and> (\<forall>i \<ge> fresh_conn (dp_server d). sent (dp_server d) i = [])"

definition calls_good :: "('u, 'g, 'r) client_env \<Rightarrow> call list \<Rightarrow> bool" where
  "calls_good env cs \<longleftrightarrow> (\<forall>c \<in> set cs. pc_ok c \<and> proper_request (ce_rt env) (call_message env c))"

text \<open>Every response the client has received is the answer of the dispatcher to a request of a call with its id.\<close>

definition true_answers where
  "true_answers ops reg env cl \<longleftrightarrow> (\<forall>(k, rsp) \<in> set (received cl). \<exists>req. asked env (calls cl) k req
     \<and> dispatchRequest (ce_rt env) ops reg req = Returned rsp)"

definition deploy_inv where
  "deploy_inv pf ops reg env d \<longleftrightarrow> serving pf ops reg (dp_server d) \<and> net_ok d \<and> calls_good env (calls (dp_client d))
     \<and> true_answers ops reg env (dp_client d) \<and> (\<forall>x. \<exists>qs. talks pf ops reg env d x qs)"

section \<open>Sections of the client\<close>

lemma matching_inbufs:
  "inbufs (fail_controller cid reason ch) = inbufs ch" "new_conn (fail_controller cid reason ch) = new_conn ch"
  "outbox (fail_controller cid reason ch) = outbox ch"
  by (simp_all add: fail_controller_def set_controller_def)

text \<open>
  What a section of a call does to the parts of the channel that face the network: buffers in use stay,
  new ones are empty, and only the section that sends writes, the frame of its call.
\<close>

definition faces :: "('u, 'g, 'r) RpcChannel \<Rightarrow> ('u, 'g, 'r) RpcChannel \<Rightarrow> bool" where
  "faces ch ch' \<longleftrightarrow> new_conn ch \<le> new_conn ch' \<and> (\<forall>x < new_conn ch. inbufs ch' x = inbufs ch x)
     \<and> (\<forall>x < new_conn ch'. new_conn ch \<le> x \<longrightarrow> inbufs ch' x = Buffer_new kInitialSize)"

lemma faces_same: "inbufs ch' = inbufs ch \<Longrightarrow> new_conn ch' = new_conn ch \<Longrightarrow> faces ch ch'"
  by (simp add: faces_def)

lemma dial_faces: "dial env addr ch = (r, ch') \<Longrightarrow> faces ch ch' \<and> outbox ch' = outbox ch"
  by (auto simp: dial_def faces_def Let_def split: if_splits stoi_result.splits)

lemma take_faces: "take_response env cid rid rsp ch = Some (r, ch') \<Longrightarrow> faces ch ch' \<and> outbox ch' = outbox ch"
  by (auto simp: take_response_def matching_inbufs intro!: faces_same split: if_splits)

lemma connect_failed_faces:
  "faces ch ch' \<Longrightarrow> faces ch (connect_failed k ch')" "outbox (connect_failed k ch') = outbox ch'"
  by (simp_all add: connect_failed_def faces_def matching_inbufs Let_def split: call_kind.split)

lemma faces_simps:
  "faces ch ch" "faces ch (store_conn addr x ch)" "faces ch (take_id ch)" "faces ch (register_call k reqId ch)"
  "faces ch (transmit x bs ch)" "faces ch (fail_controller cid reason (removePending reqId ch))"
  "outbox (store_conn addr x ch) = outbox ch" "outbox (take_id ch) = outbox ch"
  "outbox (register_call k reqId ch) = outbox ch" "outbox (removePending reqId ch) = outbox ch"
  "outbox (transmit x bs ch) = outbox ch @ [(x, bs)]"
  by (auto simp: faces_def store_conn_def take_id_def register_call_def transmit_def removePending_def matching_inbufs
      split: call_kind.split)

lemma advance_call:
  assumes "advance env late c ch = Some (c', ch')"
  shows "call_method c' = call_method c \<and> call_request c' = call_request c"
  using assms
  by (auto simp: advance_def go_def bind_eq_Some_conv split: call_pc.splits option.splits conn_result.splits
      prod.splits call_kind.splits if_splits)

lemma advance_pc_ok:
  assumes "advance env late c ch = Some (c', ch')" and "pc_ok c"
  shows "pc_ok c'"
proof -
  obtain k m r pc n where c: "c = \<lparr>call_kind = k, call_method = m, call_request = r, call_at = pc, call_id = n\<rparr>"
    by (cases c) auto
  show ?thesis
    using assms unfolding c
    by (auto simp: advance_def go_def bind_eq_Some_conv split: call_pc.splits option.splits conn_result.splits
        prod.splits call_kind.splits if_splits)
qed

lemma advance_faces:
  assumes "advance env late c ch = Some (c', ch')"
  shows "faces ch ch' \<and> (outbox ch' = outbox ch \<or> (\<exists>x k. call_at c = Registered x k
     \<and> outbox ch' = outbox ch @ [(x, call_frame env c k)] \<and> was_sent (call_at c') \<and> call_id c' = call_id c))"
proof (cases "call_at c")
  case (Looking addr)
  with assms show ?thesis by (auto simp: advance_def go_def faces_simps split: option.splits)
next
  case (Dialling addr)
  obtain r ch1 where d: "dial env addr ch = (r, ch1)" by fastforce
  with assms Dialling dial_faces [OF d] show ?thesis
    by (auto simp: advance_def go_def connect_failed_faces split: conn_result.splits)
next
  case (Waiting x reqId)
  with assms show ?thesis
    by (auto simp: advance_def go_def bind_eq_Some_conv faces_simps dest: take_faces
        split: option.splits call_kind.splits if_splits)
qed (use assms in \<open>auto simp: advance_def go_def faces_simps matching_inbufs split: call_kind.splits\<close>)

lemma loop_faces:
  assumes "loop_advance env l ch = Some (pc, ch')"
  shows "inbufs ch' = inbufs ch \<and> new_conn ch' = new_conn ch \<and> outbox ch' = outbox ch"
  using assms
  by (cases l) (auto simp: sync_section_def async_section_def run_callback_def matching_inbufs
      split: if_splits option.splits)

lemma asked_append: "asked env cs k req \<Longrightarrow> asked env (cs @ [c]) k req"
  by (auto simp: asked_def)

lemma asked_update:
  assumes "asked env cs k req" and i: "i < length cs" and adv: "advance env late (cs ! i) ch = Some (c, ch')"
  shows "asked env (cs[i := c]) k req"
proof -
  obtain d where d: "d \<in> set cs" "call_id d = Some k" "was_sent (call_at d)" "req = call_message env d"
    using assms(1) by (auto simp: asked_def)
  then obtain j where j: "j < length cs" "d = cs ! j" by (auto simp: in_set_conv_nth)
  show ?thesis
  proof (cases "j = i")
    case True
    have "c \<in> set (cs[i := c])" using i by (simp add: set_update_memI)
    with advance_sent [OF adv] advance_call [OF adv] d j True show ?thesis
      unfolding asked_def by (intro bexI [of _ c]) (simp_all add: call_message_def)
  next
    case False
    with j have "d \<in> set (cs[i := c])" by (metis length_list_update nth_list_update_neq nth_mem)
    with d show ?thesis unfolding asked_def by blast
  qed
qed

lemma calls_good_update:
  assumes "calls_good env cs" and "i < length cs" and "advance env late (cs ! i) ch = Some (c, ch')"
  shows "calls_good env (cs[i := c])"
proof -
  have "pc_ok (cs ! i) \<and> proper_request (ce_rt env) (call_message env (cs ! i))"
    using assms(1,2) nth_mem unfolding calls_good_def by blast
  then have "pc_ok c \<and> proper_request (ce_rt env) (call_message env c)"
    using advance_pc_ok [OF assms(3)] advance_call [OF assms(3)] by (simp add: call_message_def)
  with assms(1) set_update_subset_insert [of cs i c] show ?thesis unfolding calls_good_def by blast
qed

section \<open>Receiving\<close>

lemma answer_frames: "concat (map (answer_frame e) A) = rc.frames e A"
  by (induction A) auto

text \<open>
  The client takes at most one frame off the buffer in a read event, whole; a response it decodes is
  in one of the answers.
\<close>

lemma receive_answers:
  assumes inv: "buf_inv (inbufs ch x)" and m: "m \<le> length A"
    and pre: "prefix (contents (inbufs ch x) @ bs) (rc.frames e (drop m A))"
    and fit: "\<forall>(k, p) \<in> set A. fits p"
    and run: "receive_on env x bs ch = Some (ch', r)"
  shows "\<exists>b m'. ch' = ch\<lparr>inbufs := (inbufs ch)(x := b)\<rparr> \<and> buf_inv b \<and> m' \<le> length A
    \<and> rc.frames e (take m A) @ contents (inbufs ch x) @ bs = rc.frames e (take m' A) @ contents b
    \<and> (\<forall>k rsp. r = Some (k, rsp) \<longrightarrow> (\<exists>p. (k, p) \<in> set A
        \<and> RpcResponse_ParseFromString (ce_rt env) (RpcResponse_default (ce_rt env)) p = Some (rsp, True)))"
proof -
  define b0 where "b0 = fill_input bs (inbufs ch x)"
  have b0: "buf_inv b0" "contents b0 = contents (inbufs ch x) @ bs" using fill_input_spec [OF inv] by (simp_all add: b0_def)
  obtain ms1 ms2 part where ms: "drop m A = ms1 @ ms2" "contents b0 = rc.frames e ms1 @ part" "rc.cut e ms2 part"
    using rc.prefix_of_frames [OF pre] b0(2) by auto
  have fits_later: "fits p" if "(k, p) \<in> set (drop m A)" for k p using fit that in_set_dropD by fastforce
  show ?thesis
  proof (cases ms1)
    case Nil
    have "part = [] \<or> (\<exists>k p. fits p \<and> strict_prefix part (packWithId e k p))"
      using ms(1,3) Nil fits_later by (fastforce simp: rc.cut_def)
    then have "fst (tryUnpackWithId (ce_order env) b0 0) = [] \<and> snd (snd (tryUnpackWithId (ce_order env) b0 0)) = b0"
      using rc.unpack_empty [OF b0(1)] rc.unpack_partial [OF b0(1), of _ e] ms(2) Nil by auto
    then have "ch' = ch\<lparr>inbufs := (inbufs ch)(x := b0)\<rparr>" "r = None"
      using run by (auto simp: receive_on_def decode_response_def Let_def b0_def [symmetric] split: prod.splits)
    with b0 m show ?thesis by (intro exI [of _ b0] exI [of _ m]) simp
  next
    case (Cons a ms1')
    obtain k p where a: "a = (k, p)" by (cases a)
    have kp: "(k, p) \<in> set (drop m A)" using ms(1) Cons a by simp
    then have "m < length A" by (metis drop_all empty_iff list.set(1) not_less)
    moreover have "A ! m = (k, p)" using ms(1) Cons a by (metis append_Cons calculation hd_drop_conv_nth list.sel(1))
    ultimately have next_answer: "take (Suc m) A = take m A @ [(k, p)]" "Suc m \<le> length A" "(k, p) \<in> set A"
      using nth_mem [of m A] by (simp_all add: take_Suc_conv_app_nth)
    have "contents b0 = packWithId e k p @ (rc.frames e ms1' @ part)" using ms(2) Cons a by simp
    from rc.unpack_frame [OF b0(1) fits_later [OF kp] this, of "ce_order env"]
    obtain b where b: "tryUnpackWithId (ce_order env) b0 0 = (p, k, b)" "buf_inv b" "contents b = rc.frames e ms1' @ part"
      by blast
    have "ch' = ch\<lparr>inbufs := (inbufs ch)(x := b)\<rparr>" and r: "r = Some (k', rsp) \<Longrightarrow> k' = k
        \<and> RpcResponse_ParseFromString (ce_rt env) (RpcResponse_default (ce_rt env)) p = Some (rsp, True)" for k' rsp
      using run b(1) by (auto simp: receive_on_def decode_response_def Let_def b0_def [symmetric] split: if_splits)
    moreover have "rc.frames e (take m A) @ contents (inbufs ch x) @ bs = rc.frames e (take (Suc m) A) @ contents b"
      using b0(2) b(3) ms(2) Cons a next_answer(1) by simp
    ultimately show ?thesis using b(2) next_answer(2,3) by (intro exI [of _ b] exI [of _ "Suc m"]) auto
  qed
qed

text \<open>The answers of the server are what the dispatcher returned for requests that were asked.\<close>

lemma answers_true:
  assumes srv: "serving pf ops reg s" and "replies_fit (pf_rt pf) ops reg"
    and qs: "\<forall>(k, req) \<in> set qs. proper_request (pf_rt pf) req \<and> asked env cs k req"
    and A: "mset A \<subseteq># mset (map (answer_to pf ops reg) qs)" and a: "(k, p) \<in> set A"
  shows "fits p \<and> (\<exists>req rsp. asked env cs k req \<and> dispatchRequest (pf_rt pf) ops reg req = Returned rsp
    \<and> (\<forall>m0. RpcResponse_ParseFromString (pf_rt pf) m0 p = Some (rsp, True)))"
proof -
  have "(k, p) \<in># mset (map (answer_to pf ops reg) qs)" using a mset_subset_eqD [OF A] by simp
  then obtain q where q: "q \<in> set qs" "(k, p) = answer_to pf ops reg q" by auto
  obtain k' req where q': "q = (k', req)" by (cases q)
  with q have "(k', req) \<in> set qs" "k' = k" "p = reply pf ops reg req" by (auto simp: answer_to_def)
  with qs have req: "proper_request (pf_rt pf) req" "asked env cs k req" by auto
  obtain rsp where rsp: "dispatchRequest (pf_rt pf) ops reg req = Returned rsp"
    using srv by (auto simp: serving_def services_defined_def)
  with \<open>p = reply pf ops reg req\<close> have p: "p = RpcResponse_InternalSerialize (pf_rt pf) rsp" by (simp add: reply_def)
  have "RpcResponse_wf (pf_rt pf) rsp" "fits p" using assms(2) req(1) rsp p by (auto simp: replies_fit_def)
  moreover have "pb_runtime_ok (pf_rt pf)" using srv by (simp add: serving_def)
  ultimately show ?thesis using p req(2) rsp pb_runtime_ok.response_reads_back by blast
qed

lemma heard_more:
  assumes "heard e A b down"
  shows "heard e (A @ xs) b down"
proof -
  obtain m where "prefix down (rc.frames e A)" "m \<le> length A" "down = rc.frames e (take m A) @ contents b"
    using assms unfolding heard_def by blast
  moreover from this(2) have "take m (A @ xs) = take m A" "m \<le> length (A @ xs)" by simp_all
  ultimately show ?thesis unfolding heard_def rc.frames_append by (metis prefix_prefix)
qed

section \<open>Steps keep the invariant\<close>

text \<open>Any event of the server, on the connections the client already has.\<close>

lemma talks_served:
  assumes srv: "serving pf ops reg (dp_server d)" and "pf_rt pf = ce_rt env"
    and en: "event_enabled ev (dp_server d)" and run: "serve_event pf ops reg ev (dp_server d) = Some (dp_server d')"
    and same: "dp_client d' = dp_client d" "dp_down d' x = dp_down d x" "dp_link d' x = dp_link d x"
    and up: "\<And>i. dp_link d x = Some i \<Longrightarrow> dp_up d' x = dp_up d x @ data_of i ev
      \<and> prefix (dp_up d' x) (written_on x (chan (dp_client d)))"
    and t: "talks pf ops reg env d x qs"
  shows "talks pf ops reg env d' x qs"
proof -
  have W: "written_on x (chan (dp_client d)) = concat (map (request_frame (ce_order env) (ce_rt env)) qs)"
    and qs: "\<forall>(k, req) \<in> set qs. proper_request (ce_rt env) req \<and> asked env (calls (dp_client d)) k req"
    using t unfolding talks_def by blast+
  have served: "\<exists>A. balanced pf ops reg (ce_order env) qs i (dp_up d' x) A (dp_server d')
      \<and> heard (pf_order pf) A (inbufs (chan (dp_client d)) x) (dp_down d x)"
    if i: "dp_link d x = Some i" for i
  proof -
    obtain A where b: "balanced pf ops reg (ce_order env) qs i (dp_up d x) A (dp_server d)"
        and down: "heard (pf_order pf) A (inbufs (chan (dp_client d)) x) (dp_down d x)"
      using t i unfolding talks_def by blast
    have "\<forall>(k, req) \<in> set qs. proper_request (pf_rt pf) req" using qs assms(2) by auto
    from balanced_step [OF srv en run this _ b] up [OF i] W assms(2)
    obtain xs where "balanced pf ops reg (ce_order env) qs i (dp_up d' x) (A @ xs) (dp_server d')" by auto
    then show ?thesis using heard_more [OF down] by blast
  qed
  have "prefix (dp_up d' x) (written_on x (chan (dp_client d)))" if "dp_link d x = Some i" for i using up [OF that] by blast
  with W qs served same show ?thesis by (simp add: talks_def)
qed

lemma talks_cong:
  assumes "talks pf ops reg env d x qs"
    and "written_on x (chan (dp_client d')) = written_on x (chan (dp_client d))"
    and "calls (dp_client d') = calls (dp_client d)" and "dp_server d' = dp_server d"
    and "dp_link d' x = dp_link d x" and "dp_up d' x = dp_up d x" and "dp_down d' x = dp_down d x"
    and "inbufs (chan (dp_client d')) x = inbufs (chan (dp_client d)) x"
  shows "talks pf ops reg env d' x qs"
  using assms(1) unfolding talks_def assms(2-) .

lemma talks_prefix:
  "talks pf ops reg env d x qs \<Longrightarrow> dp_link d x = Some i \<Longrightarrow> prefix (dp_up d x) (written_on x (chan (dp_client d)))"
  unfolding talks_def by blast

lemma net_served:
  assumes net: "net_ok d" and srv: "serving pf ops reg (dp_server d)" and en: "event_enabled ev (dp_server d)"
    and run: "serve_event pf ops reg ev (dp_server d) = Some (dp_server d')"
    and same: "dp_client d' = dp_client d" "dp_down d' = dp_down d" "dp_link d' = dp_link d"
      "\<And>x. dp_link d x = None \<Longrightarrow> dp_up d' x = dp_up d x"
  shows "net_ok d'"
proof -
  note s = step_connections [OF srv en run]
  have "sent (dp_server d') i = []" if "fresh_conn (dp_server d') \<le> i" for i
    using s that net unfolding net_ok_def by (metis order_trans)
  moreover have "i < fresh_conn (dp_server d')" if "dp_link d x = Some i" for x i
    using s that net unfolding net_ok_def by (metis order_less_le_trans)
  ultimately show ?thesis using net unfolding net_ok_def same(1-3) by (intro conjI) (simp_all add: same(4))
qed

text \<open>Changes of the client that do not write.\<close>

lemma talks_client:
  assumes "talks pf ops reg env d x qs"
    and "written_on x ch = written_on x (chan (dp_client d))"
    and "dp_link d x \<noteq> None \<Longrightarrow> inbufs ch x = inbufs (chan (dp_client d)) x"
    and "\<And>k req. asked env (calls (dp_client d)) k req \<Longrightarrow> asked env cs k req"
  shows "talks pf ops reg env (d\<lparr>dp_client := cl\<lparr>chan := ch, calls := cs\<rparr>\<rparr>) x qs"
  using assms unfolding talks_def by fastforce

lemma net_client:
  assumes "net_ok d" and "faces (chan (dp_client d)) (chan cl)"
  shows "net_ok (d\<lparr>dp_client := cl\<rparr>)"
proof -
  let ?ch = "chan cl"
  have f: "new_conn (chan (dp_client d)) \<le> new_conn ?ch"
      "\<And>x. x < new_conn (chan (dp_client d)) \<Longrightarrow> inbufs ?ch x = inbufs (chan (dp_client d)) x"
      "\<And>x. x < new_conn ?ch \<Longrightarrow> new_conn (chan (dp_client d)) \<le> x \<Longrightarrow> inbufs ?ch x = Buffer_new kInitialSize"
    using assms(2) unfolding faces_def by blast+
  have "buf_inv (inbufs ?ch x) \<and> (dp_link d x = None \<longrightarrow> contents (inbufs ?ch x) = [])" if "x < new_conn ?ch" for x
  proof (cases "x < new_conn (chan (dp_client d))")
    case True
    with assms(1) f(2) show ?thesis by (simp add: net_ok_def)
  next
    case False
    with f(3) that show ?thesis by (simp add: buf_simps inv_intros)
  qed
  moreover have "x < new_conn ?ch" if "dp_link d x = Some i" for x i
    using assms(1) f(1) that unfolding net_ok_def by (metis order_less_le_trans)
  ultimately show ?thesis using assms(1) unfolding net_ok_def by simp
qed

text \<open>A new connection.\<close>

lemma connected_inv:
  assumes inv: "deploy_inv pf ops reg env d" and "pf_rt pf = ce_rt env"
    and x: "x < new_conn (chan (dp_client d))" "dp_link d x = None" "0 \<le> fd"
    and run: "serve_event pf ops reg (Accept fd peer) (dp_server d) = Some s"
  shows "deploy_inv pf ops reg env (d\<lparr>dp_server := s, dp_link := (dp_link d)(x \<mapsto> fresh_conn (dp_server d))\<rparr>)"
    (is "deploy_inv _ _ _ _ ?d")
proof -
  let ?i = "fresh_conn (dp_server d)"
  have srv: "serving pf ops reg (dp_server d)" and net: "net_ok d" using inv by (simp_all add: deploy_inv_def)
  have wf: "server_wf (dp_server d)" using srv by (simp add: serving_def)
  have new: "newConnection pf fd peer (mark (acceptor (dp_server d)) EPOLLIN (dp_server d)) = Some s"
    using run x(3) accept_event [OF wf, of pf ops reg fd peer] by (simp add: Acceptor_handleRead_def)
  note f = newConnection_frame [OF new]
  have used: "j < ?i" if "dp_link d y = Some j" for y j using net that unfolding net_ok_def by blast
  have "sent (dp_server d) ?i = []" "dp_up d x = []" "dp_down d x = []" "contents (inbufs (chan (dp_client d)) x) = []"
    using net x unfolding net_ok_def by auto
  then have "balanced pf ops reg (ce_order env) qs ?i (dp_up d x) [] s" for qs
    using accepted_balanced [OF _ new] wf by simp
  moreover have "heard (pf_order pf) [] (inbufs (chan (dp_client d)) x) (dp_down d x)"
    using \<open>dp_down d x = []\<close> \<open>contents (inbufs (chan (dp_client d)) x) = []\<close> by (simp add: heard_def)
  ultimately have "talks pf ops reg env ?d x qs" if "talks pf ops reg env d x qs" for qs
    using that \<open>dp_up d x = []\<close> unfolding talks_def by auto
  moreover have "talks pf ops reg env ?d y qs" if "talks pf ops reg env d y qs" "y \<noteq> x" for y qs
  proof (rule talks_served [OF srv assms(2), where ev = "Accept fd peer", OF _ _ _ _ _ _ that(1)])
    show "dp_up ?d y = dp_up d y @ data_of i (Accept fd peer) \<and> prefix (dp_up ?d y) (written_on y (chan (dp_client d)))"
      if "dp_link d y = Some i" for i using talks_prefix [OF \<open>talks pf ops reg env d y qs\<close> that] by simp
  qed (use run that(2) in simp_all)
  ultimately have "\<exists>qs. talks pf ops reg env ?d y qs" for y using inv unfolding deploy_inv_def by metis
  moreover have "net_ok ?d"
    using net f used x(1) unfolding net_ok_def by (auto simp: less_Suc_eq)
  moreover have "serving pf ops reg s" using server_runs.step_good [OF srv _ run] by simp
  ultimately show ?thesis using inv by (simp add: deploy_inv_def)
qed

text \<open>Events of the server on what it already has: data of this client, or anything else.\<close>

lemma served_inv:
  assumes inv: "deploy_inv pf ops reg env d" and "pf_rt pf = ce_rt env"
    and en: "event_enabled ev (dp_server d)" and run: "serve_event pf ops reg ev (dp_server d) = Some s"
    and up: "\<And>x i. dp_link d x = Some i \<Longrightarrow> up x = dp_up d x @ data_of i ev
        \<and> prefix (up x) (written_on x (chan (dp_client d)))"
      "\<And>x. dp_link d x = None \<Longrightarrow> up x = dp_up d x"
  shows "deploy_inv pf ops reg env (d\<lparr>dp_server := s, dp_up := up\<rparr>)"
proof -
  let ?d = "d\<lparr>dp_server := s, dp_up := up\<rparr>"
  have srv: "serving pf ops reg (dp_server d)" and net: "net_ok d" using inv by (simp_all add: deploy_inv_def)
  have "talks pf ops reg env ?d x qs" if "talks pf ops reg env d x qs" for x qs
  proof (rule talks_served [OF srv assms(2) en, of ?d x, OF _ _ _ _ _ that])
    show "dp_up ?d x = dp_up d x @ data_of i ev \<and> prefix (dp_up ?d x) (written_on x (chan (dp_client d)))"
      if "dp_link d x = Some i" for i using up(1) [OF that] by auto
  qed (use run in simp_all)
  moreover have "net_ok ?d" by (rule net_served [OF net srv en, of ?d]) (simp_all add: run up(2))
  moreover have "serving pf ops reg s" using server_runs.step_good [OF srv en run] by simp
  ultimately show ?thesis using inv unfolding deploy_inv_def by fastforce
qed

text \<open>A call of the client goes on.\<close>

lemma written_frame:
  "outbox ch' = outbox ch @ [(y, bs)] \<Longrightarrow> written_on x ch' = written_on x ch @ (if x = y then bs else [])"
  by (simp add: written_on_def)

text \<open>One more request on a connection.\<close>

lemma talks_write:
  assumes t: "talks pf ops reg env d x qs"
    and w: "written_on x ch = written_on x (chan (dp_client d)) @ request_frame (ce_order env) (ce_rt env) (k, req)"
    and q: "proper_request (ce_rt env) req" "asked env cs k req"
    and keep: "dp_link d x \<noteq> None \<Longrightarrow> inbufs ch x = inbufs (chan (dp_client d)) x"
    and ask: "\<And>k req. asked env (calls (dp_client d)) k req \<Longrightarrow> asked env cs k req"
  shows "talks pf ops reg env (d\<lparr>dp_client := cl\<lparr>chan := ch, calls := cs\<rparr>\<rparr>) x (qs @ [(k, req)])"
proof -
  have W: "written_on x (chan (dp_client d)) = concat (map (request_frame (ce_order env) (ce_rt env)) qs)"
    and qs: "\<forall>(k, req) \<in> set qs. proper_request (ce_rt env) req \<and> asked env (calls (dp_client d)) k req"
    using t unfolding talks_def by blast+
  have "prefix (dp_up d x) (written_on x ch)
      \<and> (\<exists>A. balanced pf ops reg (ce_order env) (qs @ [(k, req)]) j (dp_up d x) A (dp_server d)
        \<and> heard (pf_order pf) A (inbufs ch x) (dp_down d x))"
    if j: "dp_link d x = Some j" for j
  proof -
    from t j obtain A where "balanced pf ops reg (ce_order env) qs j (dp_up d x) A (dp_server d)"
        "heard (pf_order pf) A (inbufs (chan (dp_client d)) x) (dp_down d x)"
      unfolding talks_def by blast
    moreover have "prefix (dp_up d x) (written_on x ch)" using talks_prefix [OF t j] unfolding w by (rule prefix_prefix)
    ultimately show ?thesis using balanced_more keep j by fastforce
  qed
  then show ?thesis unfolding talks_def using W qs w q ask by auto
qed

lemma caller_talks:
  assumes t: "talks pf ops reg env d x qs" and net: "net_ok d" and good: "calls_good env (calls (dp_client d))"
    and i: "i < length (calls (dp_client d))"
    and adv: "advance env late (calls (dp_client d) ! i) (chan (dp_client d)) = Some (c, ch)"
  shows "\<exists>qs. talks pf ops reg env (d\<lparr>dp_client := (dp_client d)\<lparr>chan := ch, calls := (calls (dp_client d))[i := c]\<rparr>\<rparr>) x qs"
proof -
  let ?cs = "calls (dp_client d)"
  note f = advance_faces [OF adv]
  have keep: "inbufs ch x = inbufs (chan (dp_client d)) x" if "dp_link d x \<noteq> None"
    using that net f unfolding net_ok_def faces_def by blast
  have ask: "asked env (?cs[i := c]) k req" if "asked env ?cs k req" for k req using asked_update [OF that i adv] .
  show ?thesis
  proof (cases "written_on x ch = written_on x (chan (dp_client d))")
    case True
    from talks_client [where cl = "dp_client d", OF t this keep ask] show ?thesis by blast
  next
    case False
    then have "outbox ch \<noteq> outbox (chan (dp_client d))" by (auto simp: written_on_def)
    with f obtain y k where y: "call_at (?cs ! i) = Registered y k" "was_sent (call_at c)" "call_id c = call_id (?cs ! i)"
        "outbox ch = outbox (chan (dp_client d)) @ [(y, call_frame env (?cs ! i) k)]" by blast
    let ?req = "call_message env (?cs ! i)"
    have w: "written_on x ch = written_on x (chan (dp_client d)) @ request_frame (ce_order env) (ce_rt env) (k, ?req)"
      using written_frame [OF y(4), of x] False by (auto simp: request_frame_def call_frame_def call_message_def split: if_splits)
    have "?cs ! i \<in> set ?cs" using i by simp
    then have ok: "pc_ok (?cs ! i)" "proper_request (ce_rt env) ?req" using good unfolding calls_good_def by blast+
    then have "call_id c = Some k" using y(1,3) by (cases "?cs ! i") simp
    moreover have "c \<in> set (?cs[i := c])" using i by (simp add: set_update_memI)
    ultimately have "asked env (?cs[i := c]) k ?req"
      using y(2) advance_call [OF adv] by (auto simp: asked_def call_message_def)
    from talks_write [OF t w ok(2) this keep ask] show ?thesis by blast
  qed
qed

lemma caller_deployed:
  assumes inv: "deploy_inv pf ops reg env d" and i: "i < length (calls (dp_client d))"
    and adv: "advance env late (calls (dp_client d) ! i) (chan (dp_client d)) = Some (c, ch)"
  shows "deploy_inv pf ops reg env (d\<lparr>dp_client := (dp_client d)\<lparr>chan := ch, calls := (calls (dp_client d))[i := c]\<rparr>\<rparr>)"
proof -
  have net: "net_ok d" and good: "calls_good env (calls (dp_client d))" using inv by (simp_all add: deploy_inv_def)
  have "\<exists>qs. talks pf ops reg env d x qs" for x using inv by (simp add: deploy_inv_def)
  then have "\<exists>qs. talks pf ops reg env (d\<lparr>dp_client := (dp_client d)\<lparr>chan := ch, calls := (calls (dp_client d))[i := c]\<rparr>\<rparr>) x qs" for x
    using caller_talks [OF _ net good i adv] by blast
  moreover have "true_answers ops reg env ((dp_client d)\<lparr>chan := ch, calls := (calls (dp_client d))[i := c]\<rparr>)"
    using inv asked_update [OF _ i adv] unfolding deploy_inv_def true_answers_def by fastforce
  moreover have "net_ok (d\<lparr>dp_client := (dp_client d)\<lparr>chan := ch, calls := (calls (dp_client d))[i := c]\<rparr>\<rparr>)"
    using conjunct1 [OF advance_faces [OF adv]] by (intro net_client [OF net]) simp
  ultimately show ?thesis using inv calls_good_update [OF good i adv] by (simp add: deploy_inv_def)
qed

text \<open>Bytes of the server reach the client.\<close>

lemma received_talks:
  assumes inv: "deploy_inv pf ops reg env d" and eq: "pf_rt pf = ce_rt env" and fit: "replies_fit (ce_rt env) ops reg"
    and x: "dp_link d x = Some i" "prefix (dp_down d x @ bs) (sent (dp_server d) i)"
    and run: "receive_on env x bs (chan (dp_client d)) = Some (ch, r)" and t: "talks pf ops reg env d x qs"
  shows "\<exists>b. ch = (chan (dp_client d))\<lparr>inbufs := (inbufs (chan (dp_client d)))(x := b)\<rparr> \<and> buf_inv b
    \<and> talks pf ops reg env (d\<lparr>dp_client := take_in ch r (dp_client d), dp_down := (dp_down d)(x := dp_down d x @ bs)\<rparr>) x qs
    \<and> (\<forall>k rsp. r = Some (k, rsp) \<longrightarrow> (\<exists>req. asked env (calls (dp_client d)) k req
        \<and> dispatchRequest (ce_rt env) ops reg req = Returned rsp))"
proof -
  let ?e = "pf_order pf" and ?ch = "chan (dp_client d)"
  have srv: "serving pf ops reg (dp_server d)" and net: "net_ok d" using inv by (simp_all add: deploy_inv_def)
  have qs: "\<forall>(k, req) \<in> set qs. proper_request (pf_rt pf) req \<and> asked env (calls (dp_client d)) k req"
    using t eq unfolding talks_def by auto
  obtain A where b: "balanced pf ops reg (ce_order env) qs i (dp_up d x) A (dp_server d)"
      and h: "heard ?e A (inbufs ?ch x) (dp_down d x)"
    using t x(1) unfolding talks_def by blast
  have out: "prefix (sent (dp_server d) i) (rc.frames ?e A)" and A: "mset A \<subseteq># mset (map (answer_to pf ops reg) qs)"
    using balanced_told [OF b] by (simp_all add: told_def answer_frames)
  obtain m where m: "m \<le> length A" "dp_down d x = rc.frames ?e (take m A) @ contents (inbufs ?ch x)"
    using h unfolding heard_def by blast
  have inb: "buf_inv (inbufs ?ch x)" using net x(1) unfolding net_ok_def by blast
  have down: "prefix (dp_down d x @ bs) (rc.frames ?e A)"
    using prefix_order.trans [OF x(2) out] .
  moreover have "rc.frames ?e A = rc.frames ?e (take m A) @ rc.frames ?e (drop m A)"
    by (metis append_take_drop_id rc.frames_append)
  ultimately have pre: "prefix (contents (inbufs ?ch x) @ bs) (rc.frames ?e (drop m A))" using m(2) by simp
  note truth = answers_true [OF srv fit [folded eq] qs A]
  have "\<forall>(k, p) \<in> set A. fits p" using truth by blast
  from receive_answers [OF inb m(1) pre this run] obtain b m' where r: "ch = ?ch\<lparr>inbufs := (inbufs ?ch)(x := b)\<rparr>"
      "buf_inv b" "m' \<le> length A"
      "rc.frames ?e (take m A) @ contents (inbufs ?ch x) @ bs = rc.frames ?e (take m' A) @ contents b"
      "\<And>k rsp. r = Some (k, rsp) \<Longrightarrow> \<exists>p. (k, p) \<in> set A
        \<and> RpcResponse_ParseFromString (ce_rt env) (RpcResponse_default (ce_rt env)) p = Some (rsp, True)"
    by blast
  have "heard ?e A b (dp_down d x @ bs)" using down m(2) r(3,4) unfolding heard_def by auto
  then have "talks pf ops reg env (d\<lparr>dp_client := take_in ch r (dp_client d), dp_down := (dp_down d)(x := dp_down d x @ bs)\<rparr>) x qs"
    using t x(1) b r(1) unfolding talks_def by (auto simp: take_in_def written_on_def split: option.split)
  moreover have "\<exists>req. asked env (calls (dp_client d)) k req \<and> dispatchRequest (ce_rt env) ops reg req = Returned rsp"
    if rsp: "r = Some (k, rsp)" for k rsp
  proof -
    obtain p where p: "(k, p) \<in> set A"
        "RpcResponse_ParseFromString (ce_rt env) (RpcResponse_default (ce_rt env)) p = Some (rsp, True)"
      using r(5) [OF rsp] by blast
    from truth [OF p(1)] p(2) eq show ?thesis by (metis Pair_inject option.inject)
  qed
  ultimately show ?thesis using r(1,2) by blast
qed

lemma received_inv:
  assumes inv: "deploy_inv pf ops reg env d" and "pf_rt pf = ce_rt env" and "replies_fit (ce_rt env) ops reg"
    and x: "dp_link d x = Some i" "prefix (dp_down d x @ bs) (sent (dp_server d) i)"
    and run: "receive_on env x bs (chan (dp_client d)) = Some (ch, r)"
  shows "deploy_inv pf ops reg env
    (d\<lparr>dp_client := take_in ch r (dp_client d), dp_down := (dp_down d)(x := dp_down d x @ bs)\<rparr>)" (is "deploy_inv _ _ _ _ ?d")
    and "r = Some (k, rsp) \<Longrightarrow> \<exists>req. asked env (calls (dp_client d)) k req"
proof -
  note step = received_talks [OF inv assms(2,3) x run]
  have talk: "\<exists>qs. talks pf ops reg env d y qs" for y using inv by (simp add: deploy_inv_def)
  then obtain qs b where b: "ch = (chan (dp_client d))\<lparr>inbufs := (inbufs (chan (dp_client d)))(x := b)\<rparr>" "buf_inv b"
      and here: "talks pf ops reg env ?d x qs"
      and ask: "\<And>k rsp. r = Some (k, rsp) \<Longrightarrow> \<exists>req. asked env (calls (dp_client d)) k req
        \<and> dispatchRequest (ce_rt env) ops reg req = Returned rsp"
    using step by metis
  have cl: "chan (take_in ch r (dp_client d)) = ch" "calls (take_in ch r (dp_client d)) = calls (dp_client d)"
      "received (take_in ch r (dp_client d)) = received (dp_client d) @ (case r of None \<Rightarrow> [] | Some a \<Rightarrow> [a])"
    by (auto simp: take_in_def split: option.split)
  have same: "written_on y ch = written_on y (chan (dp_client d))" "new_conn ch = new_conn (chan (dp_client d))"
      "inbufs ch y = (if y = x then b else inbufs (chan (dp_client d)) y)" for y
    using b(1) by (simp_all add: written_on_def)
  have "talks pf ops reg env ?d y qs'" if "talks pf ops reg env d y qs'" "y \<noteq> x" for y qs'
    by (rule talks_cong [OF that(1)]) (simp_all add: cl same that(2))
  then have "\<exists>qs. talks pf ops reg env ?d y qs" for y using here talk by metis
  moreover have "net_ok ?d" using inv b(2) x(1) unfolding deploy_inv_def net_ok_def by (simp add: cl same)
  moreover have "true_answers ops reg env (take_in ch r (dp_client d))"
    using inv ask unfolding deploy_inv_def true_answers_def cl by (fastforce split: option.split)
  ultimately show "deploy_inv pf ops reg env ?d" using inv by (simp add: deploy_inv_def cl)
  show "\<exists>req. asked env (calls (dp_client d)) k req" if "r = Some (k, rsp)" using ask [OF that] by blast
qed

lemma called_deployed:
  assumes inv: "deploy_inv pf ops reg env d" and proper: "proper_request (ce_rt env) (make_request (ce_rt env) m request)"
  shows "deploy_inv pf ops reg env (d\<lparr>dp_client := (dp_client d)\<lparr>calls := calls (dp_client d)
    @ [\<lparr>call_kind = k, call_method = m, call_request = request, call_at = Looking addr, call_id = None\<rparr>]\<rparr>\<rparr>)"
proof -
  let ?c = "\<lparr>call_kind = k, call_method = m, call_request = request, call_at = Looking addr, call_id = None\<rparr>"
  let ?cl = "(dp_client d)\<lparr>calls := calls (dp_client d) @ [?c]\<rparr>"
  have "talks pf ops reg env (d\<lparr>dp_client := ?cl\<rparr>) x qs" if "talks pf ops reg env d x qs" for x qs
    using talks_client [OF that refl refl, of "calls ?cl" "dp_client d"] asked_append by fastforce
  moreover have "net_ok (d\<lparr>dp_client := ?cl\<rparr>)"
    using inv by (intro net_client) (simp_all add: deploy_inv_def faces_simps)
  moreover have "true_answers ops reg env ?cl"
    using inv asked_append unfolding deploy_inv_def true_answers_def by fastforce
  moreover have "calls_good env (calls ?cl)"
    using proper inv by (simp add: deploy_inv_def calls_good_def call_message_def)
  ultimately show ?thesis using inv unfolding deploy_inv_def by fastforce
qed

lemma handled_deployed:
  assumes inv: "deploy_inv pf ops reg env d"
    and adv: "loop_advance env (loop_at (dp_client d)) (chan (dp_client d)) = Some (pc, ch)"
  shows "deploy_inv pf ops reg env (d\<lparr>dp_client := (dp_client d)\<lparr>chan := ch, loop_at := pc\<rparr>\<rparr>)"
proof -
  note f = loop_faces [OF adv]
  let ?cl = "(dp_client d)\<lparr>chan := ch, loop_at := pc\<rparr>"
  have "talks pf ops reg env (d\<lparr>dp_client := ?cl\<rparr>) x qs" if "talks pf ops reg env d x qs" for x qs
    by (rule talks_cong [OF that]) (simp_all add: f written_on_def)
  moreover have "net_ok (d\<lparr>dp_client := ?cl\<rparr>)"
    using inv f by (intro net_client) (simp_all add: deploy_inv_def faces_same)
  ultimately show ?thesis using inv unfolding deploy_inv_def true_answers_def by fastforce
qed

lemma upstream_deployed:
  assumes inv: "deploy_inv pf ops reg env d" and rt: "pf_rt pf = ce_rt env" and x: "dp_link d x = Some i"
    and en: "event_enabled (Data i bs) (dp_server d)"
    and sent: "prefix (dp_up d x @ bs) (written_on x (chan (dp_client d)))"
    and run: "serve_event pf ops reg (Data i bs) (dp_server d) = Some s"
  shows "deploy_inv pf ops reg env (d\<lparr>dp_server := s, dp_up := (dp_up d)(x := dp_up d x @ bs)\<rparr>)"
proof (rule served_inv [OF inv rt en run])
  have link: "dp_link d y = Some i \<Longrightarrow> y = x" for y
    using x inv unfolding deploy_inv_def net_ok_def by blast
  show "((dp_up d)(x := dp_up d x @ bs)) y = dp_up d y @ data_of j (Data i bs)
      \<and> prefix (((dp_up d)(x := dp_up d x @ bs)) y) (written_on y (chan (dp_client d)))"
    if "dp_link d y = Some j" for y j
  proof (cases "y = x")
    case True
    with x sent that show ?thesis by simp
  next
    case False
    obtain qs where "talks pf ops reg env d y qs" using inv unfolding deploy_inv_def by blast
    from talks_prefix [OF this that] False link [of y] that show ?thesis by auto
  qed
qed (use x in auto)

lemma elsewhere_deployed:
  assumes inv: "deploy_inv pf ops reg env d" and rt: "pf_rt pf = ce_rt env" and away: "foreign (dp_link d) ev"
    and en: "event_enabled ev (dp_server d)" and run: "serve_event pf ops reg ev (dp_server d) = Some s"
  shows "deploy_inv pf ops reg env (d\<lparr>dp_server := s\<rparr>)"
proof -
  have none: "data_of j ev = []" if "dp_link d y = Some j" for y j
    using that away by (cases ev) (auto simp: foreign_def ran_def)
  have "prefix (dp_up d y) (written_on y (chan (dp_client d)))" if "dp_link d y = Some j" for y j
    using inv talks_prefix that unfolding deploy_inv_def by blast
  with served_inv [OF inv rt en run, of "dp_up d"] none show ?thesis by simp
qed

lemma deploy_step_inv:
  assumes "pf_rt pf = ce_rt env" and "replies_fit (ce_rt env) ops reg"
    and "deploy_step pf ops reg env d d'" and "deploy_inv pf ops reg env d"
  shows "deploy_inv pf ops reg env d'"
  using assms(3,4)
proof (induction rule: deploy_step.induct)
  case (begin_call m request k d addr)
  then show ?case by (intro called_deployed)
next
  case (caller i d late c ch)
  then show ?case by (rule caller_deployed [rotated])
next
  case (handle d pc ch)
  then show ?case by (intro handled_deployed)
next
  case (connected x d fd peer s)
  then show ?case using connected_inv [OF _ assms(1)] by blast
next
  case (upstream d x i bs s)
  then show ?case by (intro upstream_deployed [OF _ assms(1)])
next
  case (downstream d x i bs ch r)
  then show ?case using received_inv(1) [OF _ assms(1,2)] by blast
next
  case (elsewhere d ev s)
  then show ?case by (intro elsewhere_deployed [OF _ assms(1)])
qed

lemma deploy_start_inv: "deploy_start pf ops reg d \<Longrightarrow> deploy_inv pf ops reg env d"
proof -
  assume "deploy_start pf ops reg d"
  then have s: "serving pf ops reg (dp_server d)" "\<forall>i \<ge> fresh_conn (dp_server d). sent (dp_server d) i = []"
      "dp_link d = Map.empty" "dp_up d = (\<lambda>_. [])" "dp_down d = (\<lambda>_. [])"
      "calls (dp_client d) = []" "received (dp_client d) = []" "new_conn (chan (dp_client d)) = 0" "outbox (chan (dp_client d)) = []"
    by (auto simp: deploy_start_def client_start_def RpcChannel_new_def)
  have "talks pf ops reg env d x []" for x using s by (simp add: talks_def written_on_def)
  then show ?thesis using s by (auto simp: deploy_inv_def net_ok_def calls_good_def true_answers_def)
qed

interpretation deployed: step_system "deploy_start pf ops reg" "deploy_step pf ops reg env"
  "\<lambda>d. pf_rt pf = ce_rt env \<and> replies_fit (ce_rt env) ops reg \<longrightarrow> deploy_inv pf ops reg env d" for pf ops reg env
  by unfold_locales (use deploy_start_inv deploy_step_inv in blast)+

lemma deploy_reachable_inv:
  "pf_rt pf = ce_rt env \<Longrightarrow> replies_fit (ce_rt env) ops reg \<Longrightarrow> deploy_reachable pf ops reg env d \<Longrightarrow>
   deploy_inv pf ops reg env d"
  using deployed.steps_inv [of pf ops reg _ env d] by (auto simp: deploy_reachable_def)

section \<open>The client of a deployment\<close>

text \<open>To the client, the network and the server are an honest partner.\<close>

lemma deploy_step_client:
  assumes "pf_rt pf = ce_rt env" and "replies_fit (ce_rt env) ops reg"
    and "deploy_step pf ops reg env d d'" and "deploy_inv pf ops reg env d"
  shows "dp_client d' = dp_client d \<or> client_step env True (dp_client d) (dp_client d')"
  using assms(3,4)
proof (induction rule: deploy_step.induct)
  case (begin_call m request k d addr)
  then show ?case
    by (cases k) (auto intro: client_step.begin_sync client_step.begin_async)
next
  case (caller i d late c ch)
  then show ?case using client_step.caller by fastforce
next
  case (handle d pc ch)
  then show ?case using client_step.handle by fastforce
next
  case (downstream d x i bs ch r)
  note read = downstream(4) [unfolded receive_on_def]
  show ?case
  proof (cases r)
    case None
    with client_step.arrive_nothing [OF downstream(2) read [unfolded None], of True] show ?thesis by (simp add: take_in_def)
  next
    case (Some a)
    obtain k rsp where a: "a = (k, rsp)" by (cases a)
    have "k \<in> sent_ids (calls (dp_client d))"
      using received_inv(2) [OF downstream(5) assms(1,2) downstream(1,3,4)] Some a
      by (auto simp: asked_def sent_ids_def)
    with client_step.arrive_response [OF downstream(2) read [unfolded Some a], of True] Some a show ?thesis
      by (simp add: take_in_def)
  qed
qed simp_all

lemma deployed_client:
  assumes "pf_rt pf = ce_rt env" and "replies_fit (ce_rt env) ops reg" and "deploy_reachable pf ops reg env d"
  shows "client_reachable env True (dp_client d)"
proof -
  obtain d0 where start: "deploy_start pf ops reg d0" and "(deploy_step pf ops reg env)\<^sup>*\<^sup>* d0 d"
    using assms(3) unfolding deploy_reachable_def by blast
  from this(2) show ?thesis
  proof (induction rule: rtranclp_induct)
    case base
    show ?case by (rule reachable_start) (use start in \<open>simp add: deploy_start_def\<close>)
  next
    case (step d1 d2)
    have "deploy_inv pf ops reg env d1"
      using deploy_reachable_inv [OF assms(1,2)] start step(1) unfolding deploy_reachable_def by blast
    from deploy_step_client [OF assms(1,2) step(2) this] step(3) show ?case using reachable_step by metis
  qed
qed

section \<open>A service for examples\<close>

abbreviation echo_reg :: "(unit, bytes) service_registry" where
  "echo_reg \<equiv> service_register echo_service Map.empty"

text \<open>The echo service answers with its argument, or with one of three short errors.\<close>

lemma echo_dispatch:
  assumes "dispatchRequest rt echo_ops echo_reg q = Returned rsp"
  shows "(args q \<noteq> [] \<and> rsp = set_result (args q) (set_error_code NO_ERROR (RpcResponse_default rt)))
    \<or> rsp \<in> {set_error_code NO_SERVICE (RpcResponse_default rt), set_error_code NO_METHOD (RpcResponse_default rt),
        set_error_msg ''Service exception: empty'' (set_error_code INTERNAL_ERROR (RpcResponse_default rt))}"
  using assms by (auto simp: dispatch_defs echo_ops_def echo_service_def service_register_def split: if_splits)

lemma echo_error_sizes:
  "RpcResponse_ByteSizeLong varint_runtime (set_error_code NO_SERVICE (RpcResponse_default varint_runtime)) \<le> 100"
  "RpcResponse_ByteSizeLong varint_runtime (set_error_code NO_METHOD (RpcResponse_default varint_runtime)) \<le> 100"
  "RpcResponse_ByteSizeLong varint_runtime (set_error_msg ''Service exception: empty''
     (set_error_code INTERNAL_ERROR (RpcResponse_default varint_runtime))) \<le> 100"
  using vrt.response_size [symmetric]
  by (simp_all add: RpcResponse_InternalSerialize_def RpcResponse_default_def NO_SERVICE_def NO_METHOD_def
      INTERNAL_ERROR_def varint_runtime_def length_varint_small)

lemma echo_result_size:
  "RpcResponse_ByteSizeLong varint_runtime (set_result (args q) (set_error_code NO_ERROR (RpcResponse_default varint_runtime)))
     \<le> RpcRequest_ByteSizeLong varint_runtime q"
  using vrt.no_unknown by (simp add: RpcResponse_ByteSizeLong_def RpcRequest_ByteSizeLong_def RpcResponse_default_def NO_ERROR_def Let_def)

lemma echo_replies_fit: "replies_fit varint_runtime echo_ops echo_reg"
proof -
  have "RpcResponse_wf varint_runtime rsp \<and> fits (RpcResponse_InternalSerialize varint_runtime rsp)"
    if q: "proper_request varint_runtime q" and r: "dispatchRequest varint_runtime echo_ops echo_reg q = Returned rsp"
    for q rsp
  proof -
    have "8 + RpcRequest_ByteSizeLong varint_runtime q \<le> kMaxLen" and len: "field_len (args q)"
      using q vrt.request_size [of q] by (simp_all add: proper_request_def fits_def RpcRequest_wf_def)
    moreover have "RpcResponse_ByteSizeLong varint_runtime rsp \<le> max 100 (RpcRequest_ByteSizeLong varint_runtime q)"
      using echo_dispatch [OF r] echo_error_sizes echo_result_size [of q] by (auto simp: le_max_iff_disj simp del: response_setters)
    moreover have "108 \<le> kMaxLen" by (simp add: kMaxLen_def)
    ultimately have "8 + RpcResponse_ByteSizeLong varint_runtime rsp \<le> kMaxLen" by simp
    moreover have "RpcResponse_wf varint_runtime rsp"
      using echo_dispatch [OF r] len
      by (auto simp: RpcResponse_wf_def RpcResponse_default_def) (simp_all add: field_len_def varint_runtime_def)
    ultimately show ?thesis using vrt.response_size [of rsp] by (simp add: fits_def)
  qed
  then show ?thesis unfolding replies_fit_def by blast
qed

section \<open>Runs of deployments\<close>

lemma deploy_reach_step:
  "deploy_reachable pf ops reg env d \<Longrightarrow> deploy_step pf ops reg env d d' \<Longrightarrow> deploy_reachable pf ops reg env d'"
  by (auto simp: deploy_reachable_def intro: rtranclp.rtrancl_into_rtrancl)

lemma run_calls_deployed:
  "run_calls env is (dp_client d) = Some cl \<Longrightarrow> deploy_reachable pf ops reg env d \<Longrightarrow>
   deploy_reachable pf ops reg env (d\<lparr>dp_client := cl\<rparr>)"
proof (induction "is" arbitrary: d)
  case Nil
  then show ?case by (cases d) simp
next
  case (Cons i "is")
  then obtain c ch where i: "i < length (calls (dp_client d))"
      "advance env False (calls (dp_client d) ! i) (chan (dp_client d)) = Some (c, ch)"
      "run_calls env is ((dp_client d)\<lparr>chan := ch, calls := (calls (dp_client d))[i := c]\<rparr>) = Some cl"
    by (auto simp: bind_eq_Some_conv split: if_splits)
  from Cons.IH [of "d\<lparr>dp_client := (dp_client d)\<lparr>chan := ch, calls := (calls (dp_client d))[i := c]\<rparr>\<rparr>"] i(3)
    deploy_reach_step [OF Cons.prems(2) deploy_step.caller [OF i(1,2)]]
  show ?case by simp
qed

lemma server_deployed:
  "run_all event_enabled (serve_event pf ops reg) evs (dp_server d) = Some s \<Longrightarrow> \<forall>ev \<in> set evs. foreign (dp_link d) ev \<Longrightarrow>
   deploy_reachable pf ops reg env d \<Longrightarrow> deploy_reachable pf ops reg env (d\<lparr>dp_server := s\<rparr>)"
proof (induction evs arbitrary: d)
  case Nil
  then show ?case by (cases d) simp
next
  case (Cons ev evs)
  show ?case
  proof (cases "event_enabled ev (dp_server d)")
    case True
    with Cons.prems(1) obtain s1 where s1: "serve_event pf ops reg ev (dp_server d) = Some s1"
        "run_all event_enabled (serve_event pf ops reg) evs s1 = Some s"
      by (auto simp: bind_eq_Some_conv simp del: serve_event.simps)
    from Cons.IH [of "d\<lparr>dp_server := s1\<rparr>"] s1(2) Cons.prems(2)
      deploy_reach_step [OF Cons.prems(3) deploy_step.elsewhere [OF _ True s1(1)]]
    show ?thesis by simp
  next
    case False
    with Cons show ?thesis by simp
  qed
qed

text \<open>A call of the echo service, up to the point where its request is written.\<close>

definition echo_call :: call where
  "echo_call = \<lparr>call_kind = Sync 0 0, call_method = (''Echo'', ''echo''), call_request = ''hi'',
     call_at = Waiting 0 0, call_id = Some 0\<rparr>"

definition sample_deployment :: "(bytes, int \<rightharpoonup> uint32 \<times> ptr, unit, bytes) deployment" where
  "sample_deployment = \<lparr>dp_client = sample_start, dp_server = sample_server, dp_link = Map.empty,
     dp_up = (\<lambda>_. []), dp_down = (\<lambda>_. [])\<rparr>"

lemma sample_deploy_start: "deploy_start sample_platform echo_ops echo_reg sample_deployment"
proof -
  have "sent sample_server i = []" for i by (simp add: sample_server_def TcpConnection_new_def set_conn_def)
  then show ?thesis using sample_start_ok sample_serving by (simp add: deploy_start_def sample_deployment_def)
qed

lemma echo_message: "call_message sample_env echo_call =
    \<lparr>service_name = ''Echo'', method_name = ''echo'', args = ''hi'', req_unknown = []\<rparr>"
  by (simp add: call_message_def echo_call_def make_request_def sample_env_def set_args_def set_method_name_def
      set_service_name_def RpcRequest_default_def varint_runtime_def)

lemma echo_message_proper: "proper_request varint_runtime (call_message sample_env echo_call)"
  unfolding echo_message proper_request_def RpcRequest_wf_def RpcRequest_InternalSerialize_def
  by (simp add: field_len_def fits_def kMaxLen_def varint_runtime_def length_varint_small)

lemma written_run:
  "\<exists>cl. deploy_reachable sample_platform echo_ops echo_reg sample_env (sample_deployment\<lparr>dp_client := cl\<rparr>)
     \<and> calls cl = [echo_call] \<and> outbox (chan cl) = [(0, call_frame sample_env echo_call 0)] \<and> new_conn (chan cl) = 1
     \<and> inbufs (chan cl) 0 = Buffer_new kInitialSize \<and> loop_at cl = Polling \<and> pendingSync (chan cl) = {0}
     \<and> received cl = []"
proof -
  let ?c = "echo_call\<lparr>call_at := Looking ''h:1'', call_id := None\<rparr>"
  let ?d = "sample_deployment\<lparr>dp_client := sample_start\<lparr>calls := [?c]\<rparr>\<rparr>"
  obtain ch conn where dial: "dial sample_env ''h:1'' sample_channel = (Conn conn, ch)" using sample_dial by blast
  have "deploy_step sample_platform echo_ops echo_reg sample_env sample_deployment ?d"
    using deploy_step.begin_call [of sample_env "(''Echo'', ''echo'')" "''hi''" "Sync 0 0" sample_deployment
        sample_platform echo_ops echo_reg "''h:1''"] echo_message_proper
    by (simp add: sample_deployment_def sample_start_def call_message_def echo_call_def sample_env_def)
  moreover have "deploy_reachable sample_platform echo_ops echo_reg sample_env sample_deployment"
    using sample_deploy_start by (auto simp: deploy_reachable_def)
  ultimately have "deploy_reachable sample_platform echo_ops echo_reg sample_env ?d" using deploy_reach_step by blast
  moreover have "\<exists>cl. run_calls sample_env [0, 0, 0, 0, 0, 0] (dp_client ?d) = Some cl
     \<and> calls cl = [echo_call] \<and> outbox (chan cl) = [(0, call_frame sample_env echo_call 0)] \<and> new_conn (chan cl) = 1
     \<and> inbufs (chan cl) 0 = Buffer_new kInitialSize \<and> loop_at cl = Polling \<and> pendingSync (chan cl) = {0}
     \<and> received cl = []"
    by (simp add: echo_call_def advance_def go_def sample_start_def RpcChannel_new_def dial_uniform [OF dial] store_conn_def
        take_id_def register_call_def transmit_def call_frame_def numeral_eq_Suc)
  ultimately obtain cl where cl: "deploy_reachable sample_platform echo_ops echo_reg sample_env (?d\<lparr>dp_client := cl\<rparr>)"
      "calls cl = [echo_call]" "outbox (chan cl) = [(0, call_frame sample_env echo_call 0)]" "new_conn (chan cl) = 1"
      "inbufs (chan cl) 0 = Buffer_new kInitialSize" "loop_at cl = Polling" "pendingSync (chan cl) = {0}" "received cl = []"
    using run_calls_deployed by blast
  then show ?thesis by (intro exI [of _ cl]) simp
qed

lemma echo_answer:
  "answer_to sample_platform echo_ops echo_reg (0, call_message sample_env echo_call)
     = (0, RpcResponse_InternalSerialize varint_runtime (ok_response ''hi''))"
  by (simp add: echo_message answer_to_def reply_def dispatch_defs echo_ops_def echo_service_def service_register_def
      sample_platform_def ok_response_def)

text \<open>The server takes the request, works, and writes the answer.\<close>

abbreviation echo_frame :: bytes where
  "echo_frame \<equiv> request_frame LittleEndian varint_runtime (0, call_message sample_env echo_call)"

lemma echo_served:
  fixes serve and run
  defines "serve \<equiv> serve_event sample_platform echo_ops echo_reg" and "run \<equiv> run_all event_enabled serve"
  shows "\<exists>sa sb sd evs. serve (Accept 8 ''b'') sample_server = Some sa \<and> event_enabled (Data 2 echo_frame) sa
     \<and> serve (Data 2 echo_frame) sa = Some sb \<and> run evs sb = Some sd \<and> (\<forall>i bs. Data i bs \<notin> set evs)
     \<and> sent sd 2 = packWithId LittleEndian 0 (RpcResponse_InternalSerialize varint_runtime (ok_response ''hi''))"
proof -
  let ?q = "(0, call_message sample_env echo_call)"
  have rt: "pf_rt sample_platform = varint_runtime" "pf_order sample_platform = LittleEndian"
    by (simp_all add: sample_platform_def)
  have proper: "\<forall>(k, req) \<in> set [?q]. proper_request (pf_rt sample_platform) req" using echo_message_proper rt by simp
  have "echo_frame \<noteq> []" using rc.frame_nonempty by (simp add: request_frame_def)
  then have "arrived 2 [Data 2 echo_frame] = echo_frame" by simp
  moreover have "\<not> faults event_enabled closed_while_reading (serve_event sample_platform echo_ops echo_reg)
      [Accept 8 ''b'', Data 2 echo_frame] sample_server"
    by (rule no_faults) simp
  ultimately
  obtain sb A where sb: "run [Accept 8 ''b'', Data 2 echo_frame] sample_server = Some sb"
      "serving sample_platform echo_ops echo_reg sb" "2 \<in> connections sb"
      "balanced sample_platform echo_ops echo_reg LittleEndian [?q] 2 echo_frame A sb"
    using accepted_run [OF sample_serving _ _ proper, of 8 "[Data 2 echo_frame]" LittleEndian "''b''"] sample_fresh
    by (auto simp: run_def serve_def rt simp del: run_all.simps)
  obtain sa where sa: "serve (Accept 8 ''b'') sample_server = Some sa" "serving sample_platform echo_ops echo_reg sa"
    using serve_progress [OF sample_serving, of "Accept 8 ''b''"] by (auto simp: serve_def simp del: serve_event.simps)
  have "server_wf sample_server" using sample_serving by (simp add: serving_def)
  from accept_event [OF this, of sample_platform echo_ops echo_reg 8 "''b''"] sa(1)
    newConnection_frame [of sample_platform 8 "''b''" "mark (acceptor sample_server) EPOLLIN sample_server" sa]
  have "conns sa 2 \<noteq> None" using sample_fresh by (auto simp: serve_def Acceptor_handleRead_def)
  with \<open>echo_frame \<noteq> []\<close> have en: "event_enabled (Data 2 echo_frame) sa" by simp
  define ws :: "(nat \<times> nat) list" where "ws = replicate (length (pool_tasks sb)) (7, 0)"
  have "finishes (length (pool_tasks sb)) ws" by (simp add: ws_def finishes_in_order)
  with settle [OF sb(2,3) proper] sb(4) obtain sc B where sc: "run (work_events ws @ [Drain]) sb = Some sc"
      "serving sample_platform echo_ops echo_reg sc" "connections sc = connections sb"
      "output_of 2 sc = concat (map (answer_frame LittleEndian) B)"
      "mset B = mset (map (answer_to sample_platform echo_ops echo_reg) [?q])"
    by (auto simp: rt run_def serve_def) metis
  have "B = [answer_to sample_platform echo_ops echo_reg ?q]" using sc(5) by simp
  with sc(4) have out: "output_of 2 sc = packWithId LittleEndian 0 (RpcResponse_InternalSerialize varint_runtime (ok_response ''hi''))"
    by (simp add: echo_answer)
  have wf_c: "server_wf sc" using sc(2) by (simp add: serving_def)
  obtain c where c: "conns sc 2 = Some c" using open_alive [OF wf_c] sc(3) sb(3) by auto
  let ?s = "mark (conn_channel c) EPOLLOUT sc"
  have open_c: "event_enabled (CanWrite 2) sc" using c by simp
  obtain sd where sd: "serve (CanWrite 2) sc = Some sd"
    using serve_progress [OF sc(2) open_c] by (auto simp: serve_def simp del: serve_event.simps)
  then have "handleWrite map_ctl (Wrote (length (unsent 2 sc))) 2 ?s = Some sd"
    using write_event [OF wf_c c, of sample_platform "ReadErr EAGAIN"] by (simp add: serve_def sample_platform_def)
  moreover have "conn_ok 2 ?s" using alive_live(2) [of ?s 2 c] wf_c c by simp
  ultimately have "sent sd 2 = packWithId LittleEndian 0 (RpcResponse_InternalSerialize varint_runtime (ok_response ''hi''))"
    using write_effect [of 2 ?s map_ctl "Wrote (length (unsent 2 sc))"] out by (auto simp: output_of_def)
  moreover have "run ((work_events ws @ [Drain]) @ [CanWrite 2]) sb = Some sd"
    unfolding run_def by (subst run_all_append) (use sc(1) sd open_c in \<open>simp add: run_def\<close>)
  moreover have "serve (Data 2 echo_frame) sa = Some sb" using sb(1) sa(1) en by (simp add: run_def bind_eq_Some_conv)
  ultimately show ?thesis using sa(1) en
    by (intro exI [of _ sa] exI [of _ sb] exI [of _ sd] exI [of _ "(work_events ws @ [Drain]) @ [CanWrite 2]"])
      (auto simp: work_events_def)
qed

lemma served_run:
  "\<exists>d cl. deploy_reachable sample_platform echo_ops echo_reg sample_env d \<and> dp_client d = cl \<and> dp_link d = [0 \<mapsto> 2]
     \<and> dp_down d 0 = []
     \<and> sent (dp_server d) 2 = packWithId LittleEndian 0 (RpcResponse_InternalSerialize varint_runtime (ok_response ''hi''))
     \<and> calls cl = [echo_call] \<and> inbufs (chan cl) 0 = Buffer_new kInitialSize \<and> loop_at cl = Polling
     \<and> pendingSync (chan cl) = {0} \<and> received cl = []"
proof -
  obtain cl where cl: "deploy_reachable sample_platform echo_ops echo_reg sample_env (sample_deployment\<lparr>dp_client := cl\<rparr>)"
      "calls cl = [echo_call]" "outbox (chan cl) = [(0, call_frame sample_env echo_call 0)]" "new_conn (chan cl) = 1"
      "inbufs (chan cl) 0 = Buffer_new kInitialSize" "loop_at cl = Polling" "pendingSync (chan cl) = {0}" "received cl = []"
    using written_run by blast
  have f: "call_frame sample_env echo_call 0 = echo_frame"
    by (simp add: call_frame_def request_frame_def call_message_def sample_env_def)
  obtain sa sb sd evs where s: "serve_event sample_platform echo_ops echo_reg (Accept 8 ''b'') sample_server = Some sa"
      "event_enabled (Data 2 echo_frame) sa" "serve_event sample_platform echo_ops echo_reg (Data 2 echo_frame) sa = Some sb"
      "run_all event_enabled (serve_event sample_platform echo_ops echo_reg) evs sb = Some sd" "\<forall>i bs. Data i bs \<notin> set evs"
      "sent sd 2 = packWithId LittleEndian 0 (RpcResponse_InternalSerialize varint_runtime (ok_response ''hi''))"
    using echo_served by blast
  let ?d2 = "sample_deployment\<lparr>dp_client := cl, dp_server := sa, dp_link := [0 \<mapsto> 2]\<rparr>"
  have d2: "deploy_reachable sample_platform echo_ops echo_reg sample_env ?d2"
    using deploy_reach_step [OF cl(1) deploy_step.connected [of 0 _ 8 _ _ _ "''b''" sa]] cl(4) s(1) sample_fresh
    by (simp add: sample_deployment_def)
  let ?d3 = "?d2\<lparr>dp_server := sb, dp_up := (dp_up ?d2)(0 := dp_up ?d2 0 @ echo_frame)\<rparr>"
  have d3: "deploy_reachable sample_platform echo_ops echo_reg sample_env ?d3"
    by (rule deploy_reach_step [OF d2 deploy_step.upstream [of _ 0 2]])
      (use s(2,3) cl(3) f in \<open>simp_all add: sample_deployment_def written_on_def\<close>)
  have "\<forall>ev \<in> set evs. foreign (dp_link ?d3) ev" using s(5) by (auto simp: foreign_def)
  from server_deployed [OF _ this d3, of sd] s(4)
  have "deploy_reachable sample_platform echo_ops echo_reg sample_env (?d3\<lparr>dp_server := sd\<rparr>)" by simp
  then show ?thesis using s(6) cl(2,5-8)
    by (intro exI [of _ "?d3\<lparr>dp_server := sd\<rparr>"] exI [of _ cl]) (simp add: sample_deployment_def)
qed

text \<open>The client reads it.\<close>

lemma echo_arrives:
  "\<exists>d d'. deploy_reachable sample_platform echo_ops echo_reg sample_env d
     \<and> deploy_step sample_platform echo_ops echo_reg sample_env d d'
     \<and> received (dp_client d) = [] \<and> received (dp_client d') = [(0, ok_response ''hi'')]
     \<and> calls (dp_client d') = [echo_call]
     \<and> loop_at (dp_client d') = Parsed 0 (ok_response ''hi'') \<and> pendingSync (chan (dp_client d')) = {0}"
proof -
  let ?rsp = "ok_response ''hi''" and ?rt = "varint_runtime"
  let ?p = "RpcResponse_InternalSerialize ?rt ?rsp"
  have rt: "ce_rt sample_env = ?rt" "ce_order sample_env = LittleEndian" by (simp_all add: sample_env_def)
  obtain d cl where d: "deploy_reachable sample_platform echo_ops echo_reg sample_env d" "dp_client d = cl"
      "dp_link d = [0 \<mapsto> 2]" "dp_down d 0 = []"
      "sent (dp_server d) 2 = packWithId LittleEndian 0 ?p" "calls cl = [echo_call]"
      "inbufs (chan cl) 0 = Buffer_new kInitialSize" "loop_at cl = Polling" "pendingSync (chan cl) = {0}" "received cl = []"
    using served_run by blast
  have rsp: "fits ?p" "?p \<noteq> []" "RpcResponse_wf ?rt ?rsp" using ok_response_proper [of "''hi''"] by (simp_all add: proper_response_def)
  have inv: "buf_inv (Buffer_new kInitialSize)" "contents (Buffer_new kInitialSize) = []" by (simp_all add: buf_simps inv_intros)
  define b0 where "b0 = fill_input (packWithId LittleEndian 0 ?p) (inbufs (chan cl) 0)"
  have "buf_inv b0" "contents b0 = packWithId LittleEndian 0 ?p @ []"
    using fill_input_spec [OF inv(1)] inv(2) d(7) by (simp_all add: b0_def)
  from rc.unpack_frame [OF this(1) rsp(1) this(2), of LittleEndian]
  obtain b where b: "tryUnpackWithId LittleEndian b0 0 = (?p, 0, b)" by blast
  let ?ch = "(chan cl)\<lparr>inbufs := (inbufs (chan cl))(0 := b)\<rparr>"
  have "receive_on sample_env 0 (packWithId LittleEndian 0 ?p) (chan cl) = Some (?ch, Some (0, ?rsp))"
    using b rsp(2) vrt.response_reads_back [OF rsp(3)]
    by (simp add: receive_on_def decode_response_def rt Let_def b0_def [symmetric])
  from deploy_step.downstream [of d 0 2 "packWithId LittleEndian 0 ?p" sample_env ?ch "Some (0, ?rsp)"] this d(2-5,8)
  have "deploy_step sample_platform echo_ops echo_reg sample_env d
      (d\<lparr>dp_client := take_in ?ch (Some (0, ?rsp)) cl, dp_down := (dp_down d)(0 := packWithId LittleEndian 0 ?p)\<rparr>)" (is "deploy_step _ _ _ _ _ ?d1")
    by simp
  then show ?thesis using d by (intro exI [of _ d] exI [of _ ?d1]) (simp add: take_in_def)
qed

text \<open>The loop hands the response over, and the call returns.\<close>

lemma returned_run:
  "\<exists>d c. deploy_reachable sample_platform echo_ops echo_reg sample_env d \<and> calls (dp_client d) = [c]
     \<and> call_kind c = Sync 0 0 \<and> call_at c = Finished CallOk \<and> call_id c = Some 0
     \<and> call_message sample_env c = call_message sample_env echo_call"
proof -
  let ?rsp = "ok_response ''hi''"
  obtain d0 d where d: "deploy_reachable sample_platform echo_ops echo_reg sample_env d"
      "calls (dp_client d) = [echo_call]" "loop_at (dp_client d) = Parsed 0 ?rsp" "pendingSync (chan (dp_client d)) = {0}"
    using echo_arrives deploy_reach_step by metis
  let ?ch = "(chan (dp_client d))\<lparr>promises := (promises (chan (dp_client d)))(0 \<mapsto> ?rsp), pendingSync := {}\<rparr>"
  have "loop_advance sample_env (loop_at (dp_client d)) (chan (dp_client d)) = Some (Polling, ?ch)"
    using d(3,4) vrt.response_copied by (simp add: sync_section_def sample_env_def)
  from deploy_reach_step [OF d(1) deploy_step.handle [OF this]]
  have d2: "deploy_reachable sample_platform echo_ops echo_reg sample_env
      (d\<lparr>dp_client := (dp_client d)\<lparr>chan := ?ch, loop_at := Polling\<rparr>\<rparr>)" (is "deploy_reachable _ _ _ _ ?d2") .
  let ?c = "echo_call\<lparr>call_at := Finished CallOk\<rparr>"
  obtain ch3 where ch3: "advance sample_env False echo_call ?ch = Some (?c, ch3)"
    by (simp add: echo_call_def advance_def go_def take_response_def ok_response_def) (simp add: sample_env_def go_def)
  have cl2: "calls (dp_client ?d2) = [echo_call]" "chan (dp_client ?d2) = ?ch" by (simp_all add: d(2))
  have "advance sample_env False (calls (dp_client ?d2) ! 0) (chan (dp_client ?d2)) = Some (?c, ch3)"
    unfolding cl2 using ch3 by simp
  from deploy_reach_step [OF d2 deploy_step.caller [OF _ this]]
  have "deploy_reachable sample_platform echo_ops echo_reg sample_env
      (?d2\<lparr>dp_client := (dp_client ?d2)\<lparr>chan := ch3, calls := [?c]\<rparr>\<rparr>)" unfolding cl2 by simp
  then show ?thesis
    by (intro exI [of _ "?d2\<lparr>dp_client := (dp_client ?d2)\<lparr>chan := ch3, calls := [?c]\<rparr>\<rparr>"] exI [of _ ?c])
      (simp add: echo_call_def call_message_def)
qed

section \<open>Properties\<close>

text \<open>
  C4: Every call gets its own answer.  Any number of threads of a client call, over any number of
  connections, while other clients come and go; the network cuts the streams anywhere, the pool of the
  server finishes tasks in any order, the kernel takes any part of a write, and bytes the server has written
  arrive even after it has closed the connection.  A call that returned successfully has an id that no other
  call has, and whatever the client has received under this id is the response of the server's dispatcher to
  the request of this call.  A synchronous call returned with such a response,
  free of errors; the closure of an asynchronous call has run only for such a response.
\<close>

theorem calls_get_own_answers:
  assumes "pf_rt pf = ce_rt env" and "replies_fit (ce_rt env) ops reg" and "deploy_reachable pf ops reg env d"
    and "issued (calls (dp_client d)) \<le> 2 ^ 64" and "i < length (calls (dp_client d))"
    and "calls (dp_client d) ! i = c" and "call_at c = Finished CallOk"
  shows "\<exists>k. call_id c = Some k
    \<and> (\<forall>j < length (calls (dp_client d)). call_id (calls (dp_client d) ! j) = Some k \<longrightarrow> j = i)
    \<and> (\<forall>rsp. (k, rsp) \<in> set (received (dp_client d)) \<longrightarrow> dispatchRequest (ce_rt env) ops reg (call_message env c) = Returned rsp)
    \<and> (case call_kind c of
         Sync _ _ \<Rightarrow> \<exists>rsp. promises (chan (dp_client d)) k = Some rsp \<and> error_code rsp = NO_ERROR
           \<and> dispatchRequest (ce_rt env) ops reg (call_message env c) = Returned rsp
       | Async p \<Rightarrow> pa_done p \<in> set (closures_run (chan (dp_client d))) \<longrightarrow>
           (\<exists>rsp. (k, rsp) \<in> set (received (dp_client d))
              \<and> dispatchRequest (ce_rt env) ops reg (call_message env c) = Returned rsp))"
proof -
  note inv = deploy_reachable_inv [OF assms(1-3)]
  have "pb_runtime_ok (ce_rt env)" using inv assms(1) by (auto simp: deploy_inv_def serving_def)
  note I = client_reachable_inv [OF this deployed_client [OF assms(1-3)] assms(4), unfolded client_inv_def]
  have mem: "c \<in> set (calls (dp_client d))" using nth_mem [OF assms(5)] assms(6) by simp
  have c: "pc_ok c" "call_ok (chan (dp_client d)) (loop_at (dp_client d)) (received (dp_client d)) c"
    using I mem by blast+
  then obtain k where k: "call_id c = Some k" using assms(7) by (cases c) auto
  have unique: "\<forall>j < length (calls (dp_client d)). call_id (calls (dp_client d) ! j) = Some k \<longrightarrow> j = i"
    using conjunct1 [OF I] assms(5,6) k unfolding ids_ok_def by blast
  have own: "dispatchRequest (ce_rt env) ops reg (call_message env c) = Returned rsp"
    if "(k, rsp) \<in> set (received (dp_client d))" for rsp
  proof -
    have "true_answers ops reg env (dp_client d)" using inv by (simp add: deploy_inv_def)
    with that obtain req where "asked env (calls (dp_client d)) k req" "dispatchRequest (ce_rt env) ops reg req = Returned rsp"
      by (auto simp: true_answers_def)
    then obtain b where b: "b \<in> set (calls (dp_client d))" "call_id b = Some k"
        "dispatchRequest (ce_rt env) ops reg (call_message env b) = Returned rsp"
      by (auto simp: asked_def)
    moreover have "b = c" using ids_name [OF conjunct1 [OF I] b(1) mem b(2) k] .
    ultimately show ?thesis by simp
  qed
  then show ?thesis
    using c(2) k unique assms(7) by (auto simp: call_ok_def one_place_def split: call_kind.splits)
qed

lemma calls_get_own_answers_witness:
  "\<exists>d rsp. deploy_reachable sample_platform echo_ops echo_reg sample_env d
     \<and> promises (chan (dp_client d)) 0 = Some rsp \<and> error_code rsp = NO_ERROR
     \<and> dispatchRequest varint_runtime echo_ops echo_reg (call_message sample_env echo_call) = Returned rsp"
proof -
  obtain d c where d: "deploy_reachable sample_platform echo_ops echo_reg sample_env d" "calls (dp_client d) = [c]"
      "call_kind c = Sync 0 0" "call_at c = Finished CallOk" "call_id c = Some 0"
      "call_message sample_env c = call_message sample_env echo_call"
    using returned_run by blast
  have rt: "pf_rt sample_platform = ce_rt sample_env" "ce_rt sample_env = varint_runtime"
    by (simp_all add: sample_platform_def sample_env_def)
  have "issued (calls (dp_client d)) \<le> 2 ^ 64" using issued_length [of "calls (dp_client d)"] d(2) by simp
  from calls_get_own_answers [OF rt(1) _ d(1) this, of 0 c] echo_replies_fit d rt(2) show ?thesis by auto
qed

text \<open>
  C7: The deployment refines the client of an honest partner.  The state of the client in a deployment is one
  that it reaches with a partner that answers only what was asked, and every step of the deployment is a
  step of that client or leaves it alone.  So what was shown for clients of honest partners, which responses
  the loop drops and which it hands over, holds with this server and any network, also for the bytes that
  arrive after the server has closed the connection.
\<close>

theorem deployment_is_honest:
  assumes "pf_rt pf = ce_rt env" and "replies_fit (ce_rt env) ops reg" and "deploy_reachable pf ops reg env d"
    and "deploy_step pf ops reg env d d'"
  shows "client_reachable env True (dp_client d)
    \<and> (dp_client d' = dp_client d \<or> client_step env True (dp_client d) (dp_client d'))"
  using deployed_client [OF assms(1-3)] deploy_step_client [OF assms(1,2,4) deploy_reachable_inv [OF assms(1-3)]] by blast

lemma deployment_is_honest_witness:
  "\<exists>d d'. deploy_step sample_platform echo_ops echo_reg sample_env d d' \<and> client_reachable sample_env True (dp_client d)
     \<and> received (dp_client d) = [] \<and> client_step sample_env True (dp_client d) (dp_client d')"
proof -
  have rt: "pf_rt sample_platform = ce_rt sample_env" "replies_fit (ce_rt sample_env) echo_ops echo_reg"
    using echo_replies_fit by (simp_all add: sample_platform_def sample_env_def)
  obtain d d' where "deploy_reachable sample_platform echo_ops echo_reg sample_env d" "received (dp_client d) = []"
      "deploy_step sample_platform echo_ops echo_reg sample_env d d'" "received (dp_client d') = [(0, ok_response ''hi'')]"
    using echo_arrives by blast
  moreover from this(2,4) have "dp_client d' \<noteq> dp_client d" by auto
  ultimately show ?thesis using deployment_is_honest [OF rt, of d d'] by blast
qed

end
