(* ===== verification/Spec2Isabelle.thy ===== *)
theory Spec2Isabelle
  imports Net_Buffer Rpc_Codec Rpc_Header Math_Messages Load_Balancer Custom_Controller
    Registry_Center Registry_Client Rpc_Dispatch Math_Service Event_Loop Loop_Steps Thread_Pool
    Tcp_Connection Net_Address Rpc_Server Rpc_Channel Rpc_Benchmark Message_Objects Rpc_Programs
    Server_Steps Client_Steps Registry_Program Server_Answers Rpc_Deployment
begin

text \<open>
  A model and correctness proofs of the RPC framework of this repository: a reactor network library, a
  frame protocol with protobuf payloads, a server with a thread pool, a client channel with service
  discovery, a registry with an HTTP interface, and the programs built from them.

  \<^bold>\<open>The system.\<close>  Three processes cooperate.  The registry (\<^verbatim>\<open>registry_center\<close>) answers
  \<^verbatim>\<open>POST /register\<close> and \<^verbatim>\<open>GET /discover\<close>.  The server (\<^verbatim>\<open>rpc_server\<close>) accepts TCP connections in an event
  loop, cuts the byte streams into frames, runs the requests in a thread pool and sends the answers from
  the loop.  The client (\<^verbatim>\<open>rpc_client\<close>) asks the registry for addresses, chooses one, connects, sends a
  request frame and waits for the response with its id.  A benchmark drives the server without the client
  library.

  \<^bold>\<open>Theories, in the order of the code.\<close>

  \<^item> \<open>Rpc_Prelude\<close>: words, memory layout and byte order, vectors; shared lemmas and collections.
  \<^item> \<open>Net_Buffer\<close>: \<^verbatim>\<open>Buffer.h/.cpp\<close>.  A buffer is a vector with two indices; the locale \<open>byte_queue\<close> is its
    contract, and every sequence of operations refines a byte queue.
  \<^item> \<open>Rpc_Codec\<close>: \<^verbatim>\<open>rpc/rpc_codec.h\<close>.  The locales \<open>frame_codec\<close>, \<open>frame_reader\<close> and \<open>chunked_reader\<close> state what the
    server and the client rely on: frames come back in order however the stream is cut.
  \<^item> \<open>Pb_Runtime\<close>: the protobuf runtime as a parameter, a record of the functions the generated code calls;
    the locale \<open>pb_runtime_ok\<close> states their documented laws, and a runtime with base-128 numbers is an instance.
  \<^item> \<open>Rpc_Header\<close>, \<open>Math_Messages\<close>, \<open>Message_Objects\<close>: the generated \<^verbatim>\<open>rpc_header.pb.h/.cc\<close> and
    \<^verbatim>\<open>math_service.pb.h/.cc\<close>: parsing, serialization, sizes, merging, presence bits, assignment and swapping.
  \<^item> \<open>Net_Address\<close>: \<^verbatim>\<open>InetAddress\<close>, \<^verbatim>\<open>Socket\<close>, \<open>createNonBlockingConnection\<close> and the text of addresses.
  \<^item> \<open>Event_Loop\<close>, \<open>Loop_Steps\<close>: \<^verbatim>\<open>Channel\<close> and \<^verbatim>\<open>EventLoop\<close>, first as functions on a state with an explicit heap of
    channels and the kernel's interest list (locale \<open>epoll_set\<close>), then as a step relation of the loop, run by
    one thread and constructed by another or the same, with posting threads.
  \<^item> \<open>Fifo_Executor\<close>, \<open>Thread_Pool\<close>: transition systems with an invariant (locale \<open>step_system\<close>) and, on top of it, the
    contract of a queue of work that is run once and in order, which both the loop's functors and
    \<^verbatim>\<open>ThreadPool\<close> meet; the pool as a step relation with condition variable.
  \<^item> \<open>Tcp_Connection\<close>: \<^verbatim>\<open>TcpConnection\<close> on the reactor state, with partial writes.
  \<^item> \<open>Rpc_Dispatch\<close>, \<open>Math_Service\<close>: \<^verbatim>\<open>rpc_service_registry.h\<close>, both dispatchers, \<^verbatim>\<open>math_service_impl.h\<close>; the locale
    \<open>service_method\<close> is what a method promises the dispatcher.
  \<^item> \<open>Rpc_Server\<close>, \<open>Server_Steps\<close>, \<open>Server_Answers\<close>: \<^verbatim>\<open>Acceptor\<close> and \<^verbatim>\<open>rpc/rpc_server.cpp\<close>; then the server under
    arbitrary sequences of events (locale \<open>guarded_system\<close>), each event of a descriptor handled by
    \<open>Channel::handleEvent\<close>, first which runs reach a destroyed object and that all others keep what is in use
    alive, then that it keeps accounts of the answers it owes and has given.
  \<^item> \<open>Registry_Center\<close>, \<open>Registry_Program\<close>, \<open>Registry_Client\<close>, \<open>Load_Balancer\<close>, \<open>Custom_Controller\<close>:
    \<^verbatim>\<open>registry_center*\<close>, \<^verbatim>\<open>registry_client*\<close>, \<^verbatim>\<open>load_balancer.h\<close>, \<^verbatim>\<open>custom_controller.h\<close>.
  \<^item> \<open>Rpc_Channel\<close>, \<open>Client_Steps\<close>: \<^verbatim>\<open>rpc/rpc_channel.cpp\<close>, the client: its calls one at a time, then many
    calling threads and the loop thread as a step relation over the sections of the code.
  \<^item> \<open>Rpc_Deployment\<close>: client, network and server as one step relation, over the steps of \<open>Client_Steps\<close> and the
    events of \<open>Server_Steps\<close>; it refines the client of an honest partner.
  \<^item> \<open>Rpc_Programs\<close>: \<^verbatim>\<open>rpc_server_main.cpp\<close> and \<^verbatim>\<open>rpc_client_main.cpp\<close>.  \<open>Rpc_Benchmark\<close>: \<^verbatim>\<open>benchmark/rpc_benchmark.cpp\<close>.
  \<^item> This theory: the properties that span client, network and server.

  \<^bold>\<open>How code becomes definitions.\<close>  A class is a record with the members of the class, a method a
  function that returns the new state.  Integers keep their width where the code depends on it.  A result
  \<open>None\<close> of a reactor operation is undefined behaviour (a dangling pointer) or a callback that does not
  return, and so it is for a buffer read beyond its vector; \<open>outcome\<close> in \<open>Rpc_Dispatch\<close> separates return, exceptions, undefined behaviour and divergence;
  \<open>process\<close> adds \<open>exit\<close>; the JSON parser answers with a value, a parse error or a number out of range, since
  the code catches only the second.  Connections and channels have names, so that sharing and lifetime can be
  stated: a connection lives as long as the server's set, a task of the pool or a functor of the loop refers
  to it, and the last of these to go destroys it.
  What the kernel, the clock, the file system, the network and the vendored libraries answer is an argument
  of the function that asks; laws about these answers are hypotheses, and every property with hypotheses
  has a witness at concrete values.  Threads appear in step relations over the critical sections of the
  code (\<open>Loop_Steps\<close>, \<open>Thread_Pool\<close>, \<open>Client_Steps\<close>) and as arbitrary sequences of events (\<open>Server_Steps\<close>).

  \<^bold>\<open>Loops.\<close>  No fuel is used.  Loops over frames, retries, digits and partial sends are recursive
  functions with a termination proof; the parse loop of the generated code, which a broken runtime could
  keep running, is a partial function whose termination is a theorem for every runtime that meets the
  laws.  The loops of \<open>EventLoop::loop\<close> and of the benchmark's workers run over the list of answers they
  receive.

  \<^bold>\<open>What is shown.\<close>  End to end: a remote addition returns the sum through client, frames cut at will, pool,
  loop and back, many of them at once do not mix, and the two programs print the result; in a deployment
  with many calling threads, other clients and any network, every call gets its own answer and no other.
  Transport: frames survive any cut and any pair of
  byte orders; output keeps its order under partial writes and drains.  Concurrency: tasks and functors
  run once and in order, no notification of the pool is lost, the loop is woken for what threads other than
  the one that constructed it post, and shutdown ends.  Server: it refines a ledger of requests read, answers
  owed and answers written, in which every request is answered once under its id; bad requests are answered
  too; under every sequence of events a destroyed object is touched exactly when a read event ends a
  connection that only the server refers to, and connections do not disturb each other.
  Client: responses reach the call with their id and no other, under every interleaving of calls each
  completes once, a response that has a payload and parses is handed over unless its call was answered or
  has given up, retries are bounded.
  Discovery: the registry returns what was registered, clients survive
  an outage.  Messages: round trips, merging, presence, value semantics.  The
  theorems that describe defects (an undefined method, a use after free, deaf descriptors, dropped frames
  and responses, posts that wake nobody, exceptions nobody catches) state exactly when they occur.

  The server's fault at the end of a connection is a hypothesis of the theorems about longer runs: they hold
  for runs that do not meet it.  Theorems about the server under arbitrary events assume services that return
  on every request; the service of \<open>Math_Service\<close> is undefined on requests for \<open>Sub\<close>, which any client may send.

  \<^bold>\<open>Not modelled.\<close>  The protobuf, HTTP and JSON libraries (parameters); descriptors, reflection and arenas
  of the generated messages beyond a same-arena flag; the release of static objects at process exit; the
  floating-point figures and the formatting of the benchmark's report; log output other than the lines of
  the programs; data races on objects that the code uses from two threads without a lock; build files.
  In \<open>Server_Steps\<close> each report of \<open>epoll_wait\<close> is one event of one channel (a report of input and output
  together is the read event and then the write event, \<open>Event_Loop.handle_event_read\<close>; the order of reports is
  that of the events), the wakeup descriptor is always read by its callback, and a pool thread runs a task and
  drops its reference in one step: that this thread may then destroy a connection, and with it a channel of
  the loop, while the loop runs, is a data race the model does not follow.  A hangup or error destroys the
  channel, and with it the \<open>std::function\<close> that is running; nothing is read from it afterwards, and the model
  takes this for harmless.
\<close>

section \<open>From the call to the answer\<close>

text \<open>The request of a call of \<open>Add\<close>, and the response of the dispatcher to it.\<close>

definition add_call :: "'u pb_runtime \<Rightarrow> 'u AddRequest \<Rightarrow> 'u RpcRequest" where
  "add_call rt q = make_request rt add_method (AddRequest_InternalSerialize rt q)"

definition add_response :: "'u pb_runtime \<Rightarrow> 'u AddRequest \<Rightarrow> 'u RpcResponse" where
  "add_response rt q = set_result (AddResponse_InternalSerialize rt (add_answer rt q))
     (set_error_code NO_ERROR (RpcResponse_default rt))"

lemma add_call_fields [simp]:
  "service_name (add_call rt q) = ''math.MathService''" "method_name (add_call rt q) = ''Add''"
  "args (add_call rt q) = AddRequest_InternalSerialize rt q"
  by (simp_all add: add_call_def make_request_def add_method_def set_args_def set_method_name_def
      set_service_name_def)

text \<open>
  The server's half of a batch of calls: the pieces of the request frames in, the response frames out in
  the order \<open>fin\<close> in which the pool's threads finish.
\<close>

definition add_task :: "nat \<Rightarrow> 'u pb_runtime \<Rightarrow> uint64 \<times> 'u AddRequest \<Rightarrow> 'u task" where
  "add_task i rt kq = task_of_request i (fst kq, add_call rt (snd kq))"

definition add_frame :: "byte_order \<Rightarrow> 'u pb_runtime \<Rightarrow> uint64 \<times> 'u AddRequest \<Rightarrow> bytes" where
  "add_frame e rt kq = response_frame e rt (fst kq) (add_response rt (snd kq))"

lemma server_batch:
  assumes rt: "pb_runtime_ok (pf_rt pf)"
    and qs: "\<forall>(k, q) \<in> set qs. good_add (pf_rt pf) q \<and> proper_request (pf_rt pf) (add_call (pf_rt pf) q)"
    and s: "conn_ok i s" "conns s i = Some c" "contents (inputBuffer c) = []" "pool_tasks s = []"
      "pendingFunctors s = []"
    and chunks: "\<forall>chunk \<in> set chunks. chunk \<noteq> []"
      "concat chunks = concat (map (\<lambda>(k, q). request_frame e' (pf_rt pf) (k, add_call (pf_rt pf) q)) qs)"
    and finish: "set fin \<subseteq> set qs" "length ws = length fin" "threadId s \<notin> set ws"
  shows "\<exists>s1 s2 s3. read_events pf i chunks s = Some s1 \<and> pool_tasks s1 = map (add_task i (pf_rt pf)) qs
      \<and> run_tasks pf (math_ops (pf_rt pf)) (service_register (MathServiceImpl (pf_rt pf)) reg)
          (zip ws (map (add_task i (pf_rt pf)) fin)) s1 = Some s2
      \<and> doPendingFunctors (run_functor pf) s2 = Some s3
      \<and> sent s3 i @ unsent i s3 = sent s i @ unsent i s @ concat (map (add_frame (pf_order pf) (pf_rt pf)) fin)"
proof -
  let ?rt = "pf_rt pf"
  define rs where "rs = map (\<lambda>(k, q). (k, add_call ?rt q)) qs"
  let ?reg = "service_register (MathServiceImpl ?rt) reg"
  let ?mts = "zip ws (map (add_task i ?rt) fin)"
  let ?payload = "\<lambda>kq. RpcResponse_InternalSerialize ?rt (add_response ?rt (snd kq))"
  have inv: "buf_inv (inputBuffer c)" using s(1,2) by (auto simp: conn_ok_def)
  have tasks: "map (task_of_request i) rs = map (add_task i ?rt) qs" by (auto simp: add_task_def rs_def)
  have frames: "concat chunks = concat (map (request_frame e' ?rt) rs)"
    using chunks(2) by (simp add: rs_def comp_def case_prod_unfold)
  have proper: "\<forall>(reqId, req) \<in> set rs. proper_request ?rt req" using qs by (auto simp: rs_def)
  obtain b' where "read_events pf i chunks s
      = Some (set_conn i (c\<lparr>inputBuffer := b'\<rparr>) (s\<lparr>pool_tasks := pool_tasks s @ map (add_task i ?rt) qs\<rparr>))" "buf_inv b'"
    using read_events_tasks [OF rt chunks(1) proper s(2) inv, of e'] s(3) frames tasks
    by (auto simp: encode_frames rc.cut_def)
  moreover define s1 where "s1 = set_conn i (c\<lparr>inputBuffer := b'\<rparr>) (s\<lparr>pool_tasks := map (add_task i ?rt) qs\<rparr>)"
  ultimately have read: "read_events pf i chunks s = Some s1" and "buf_inv b'" using s(4) by simp_all
  then have s1: "conn_ok i s1" "unsent i s1 = unsent i s" "sent s1 i = sent s i" "pendingFunctors s1 = []"
      "threadId s1 = threadId s" "pool_tasks s1 = map (add_task i ?rt) qs"
    using s by (auto simp: s1_def conn_ok_def unsent_def set_conn_def)
  have others: "\<forall>(me, t) \<in> set ?mts. me \<noteq> threadId s1 \<and> task_conn t = i"
  proof clarify
    fix me t assume "(me, t) \<in> set ?mts"
    from set_zip_leftD [OF this] set_zip_rightD [OF this] show "me \<noteq> threadId s1 \<and> task_conn t = i"
      using finish(3) s1(5) by (auto simp: add_task_def task_of_request_def)
  qed
  have "answers pf (math_ops ?rt) ?reg (add_task i ?rt kq) (?payload kq)" if "kq \<in> set fin" for kq
    using pb_runtime_ok.add_dispatch_sum [OF rt, of "snd kq" "add_call ?rt (snd kq)" reg] that finish(1) qs
    by (fastforce simp: answers_def add_task_def task_of_request_def add_response_def)
  then have "list_all2 (\<lambda>(me, t) payload. answers pf (math_ops ?rt) ?reg t payload) ?mts (map ?payload fin)"
    using finish(2) by (auto simp: list_all2_conv_all_nth)
  from answered_tasks [OF s1(1,4) others this] obtain s2 s3 where
    "run_tasks pf (math_ops ?rt) ?reg ?mts s1 = Some s2" "doPendingFunctors (run_functor pf) s2 = Some s3"
    "sent s3 i @ unsent i s3 = sent s1 i @ unsent i s1
       @ concat (map (\<lambda>(mt, payload). packWithId (pf_order pf) (task_id (snd mt)) payload) (zip ?mts (map ?payload fin)))"
    by blast
  moreover have "map (\<lambda>(mt, payload). packWithId (pf_order pf) (task_id (snd mt)) payload) (zip ?mts (map ?payload fin))
      = map (add_frame (pf_order pf) ?rt) fin"
    using finish(2) by (intro nth_equalityI) (auto simp: add_task_def task_of_request_def add_frame_def response_frame_def)
  ultimately show ?thesis using read s1 by (intro exI [of _ s1] exI [of _ s2] exI [of _ s3]) simp
qed

lemma server_half:
  assumes rt: "pb_runtime_ok (pf_rt pf)" and q: "good_add (pf_rt pf) q"
    and fits: "proper_request (pf_rt pf) (add_call (pf_rt pf) q)"
    and s: "conn_ok i s" "conns s i = Some c" "contents (inputBuffer c) = []" "pool_tasks s = []"
      "pendingFunctors s = []" "me \<noteq> threadId s"
    and chunks: "\<forall>chunk \<in> set chunks. chunk \<noteq> []"
      "concat chunks = request_frame e' (pf_rt pf) (reqId, add_call (pf_rt pf) q)"
  shows "\<exists>s1 t s2 s3. read_events pf i chunks s = Some s1 \<and> pool_tasks s1 = [t]
      \<and> run_task pf (math_ops (pf_rt pf)) (service_register (MathServiceImpl (pf_rt pf)) reg) me t s1 = Some s2
      \<and> doPendingFunctors (run_functor pf) s2 = Some s3
      \<and> sent s3 i @ unsent i s3 = sent s i @ unsent i s
          @ response_frame (pf_order pf) (pf_rt pf) reqId (add_response (pf_rt pf) q)"
  using server_batch [OF rt, of "[(reqId, q)]" i s c chunks e' "[(reqId, q)]" "[me]" reg] assms
  by (auto simp: bind_eq_Some_conv add_frame_def)

section \<open>Properties that span the program\<close>

text \<open>
  C1: a remote addition returns the sum.  A client calls \<open>math.MathService.Add\<close> synchronously and its
  lookup gives a connection; the frame it sends reaches the server in arbitrary non-empty pieces; a pool
  thread runs the task and the server's loop sends the answer; what the server sent reaches the client in
  one read event before the timeout.  Then the client's attempt succeeds, the frame the client sent is the
  one the server read, and the response object holds exactly the sum of the two operands, for hosts of
  any byte order on either side.
\<close>

theorem remote_add:
  assumes rt: "pb_runtime_ok rt" "pf_rt pf = rt" "ce_rt env = rt"
    and q: "good_add rt q" and sizes: "proper_request rt (add_call rt q)" "proper_response rt (add_response rt q)"
    and server: "conn_ok i s" "conns s i = Some c" "contents (inputBuffer c) = []" "pool_tasks s = []"
      "pendingFunctors s = []" "me \<noteq> threadId s" "sent s i = []" "unsent i s = []"
    and client: "lookup_and_connect env att ''no available servers'' ''connection failed'' cid ch = (Conn conn, ch1)"
      "idle_input ch1 conn" "ce_parse env = AddResponse_ParseFromString rt"
    and network: "\<forall>chunk \<in> set chunks. chunk \<noteq> []"
      "concat chunks = request_frame (ce_order env) rt (nextId ch1, add_call rt q)"
  shows "\<exists>s1 t s2 s3. read_events pf i chunks s = Some s1 \<and> pool_tasks s1 = [t]
      \<and> run_task pf (math_ops rt) (service_register (MathServiceImpl rt) reg) me t s1 = Some s2
      \<and> doPendingFunctors (run_functor pf) s2 = Some s3
      \<and> (at_arrivals att = [(conn, sent s3 i @ unsent i s3)] \<longrightarrow>
          (\<exists>ch'. doCall env att add_method cid (AddRequest_InternalSerialize rt q) rid ch = (CallOk, ch')
             \<and> outbox ch' = outbox ch1 @ [(conn, concat chunks)]
             \<and> sint (addr_sum (responses ch' rid)) = sint (addq_a q) + sint (addq_b q)))"
proof -
  obtain s1 t s2 s3 where srv: "read_events pf i chunks s = Some s1" "pool_tasks s1 = [t]"
      "run_task pf (math_ops rt) (service_register (MathServiceImpl rt) reg) me t s1 = Some s2"
      "doPendingFunctors (run_functor pf) s2 = Some s3"
      "sent s3 i @ unsent i s3 = response_frame (pf_order pf) rt (nextId ch1) (add_response rt q)"
    using server_half [of pf q i s c me chunks "ce_order env" "nextId ch1" reg] rt q sizes(1) server network
    by auto
  have parse: "ce_parse env (responses ch1 rid) (result (add_response rt q)) = Some (add_answer rt q, True)"
    using pb_runtime_ok.add_answer_parses [OF rt(1)] client(3) by (simp add: add_response_def)
  have sum: "sint (addr_sum (add_answer rt q)) = sint (addq_a q) + sint (addq_b q)"
    using q by (simp add: add_answer_def set_sum_def good_add_def sint_add_fits)
  have "\<exists>ch'. doCall env att add_method cid (AddRequest_InternalSerialize rt q) rid ch = (CallOk, ch')
      \<and> outbox ch' = outbox ch1 @ [(conn, concat chunks)] \<and> responses ch' rid = add_answer rt q"
    if "at_arrivals att = [(conn, sent s3 i @ unsent i s3)]"
    using answered_attempt [of env att cid ch conn ch1 "add_response rt q" "pf_order pf" rid "add_answer rt q" True
        add_method "AddRequest_InternalSerialize rt q"] rt sizes(2) client(1,2) parse that srv(5) network(2)
    by (auto simp: add_response_def add_call_def)
  with srv sum show ?thesis by metis
qed

text \<open>A client whose response objects are of type \<open>AddResponse\<close>.\<close>

definition add_env :: "(bytes, unit, bytes AddResponse) client_env" where
  "add_env = \<lparr>ce_rt = varint_runtime, ce_order = BigEndian, ce_json = (\<lambda>_. ParseError),
     ce_draw = (\<lambda>g n. (0, g)), ce_net = \<lparr>ns_order = BigEndian, ns_pton = (\<lambda>_. Some 0), ns_socket = 5, ns_connect = (\<lambda>_ _. (0, 0))\<rparr>,
     ce_parse = AddResponse_ParseFromString varint_runtime\<rparr>"

definition add_channel :: "(bytes, unit, bytes AddResponse) RpcChannel" where
  "add_channel =
     \<lparr>registryClient = put_cache ''M'' [''h:9999''] 0 (RegistryClient_new Map.empty ''r'' 80 30 2),
      serviceName = ''M'', loadBalancer = LoadBalancer_new ROUND_ROBIN (), chan_conns = Map.empty,
      pendingSync = {}, pendingAsync = Map.empty, nextId = 7, promises = Map.empty,
      inbufs = (\<lambda>_. Buffer_new kInitialSize), new_conn = 4, outbox = [], shut = {},
      controllers = (\<lambda>_. CustomController_new), responses = (\<lambda>_. AddResponse_default varint_runtime),
      closures_run = []\<rparr>"

lemma add_lookup:
  "\<exists>ch1. lookup_and_connect add_env (sample_attempt arrivals) s1 s2 cid add_channel = (Conn 4, ch1)
     \<and> idle_input ch1 4 \<and> nextId ch1 = 7"
  by (simp add: lookup_and_connect_def add_channel_def sample_attempt_def add_env_def getAddresses_def
      put_cache_def RegistryClient_new_def to_seconds_def select_def LoadBalancer_new_def getConnection_def
      stoi_def scan_int_def is_space_def is_digit_def decimal_def idle_input_def createNonBlockingConnection_def Let_def)

lemma sample_add_good: "good_add varint_runtime sample_add"
  by (simp add: good_add_def sample_add_def addq_set_a_def addq_set_b_def AddRequest_default_def
      AddRequest_inv_def addq_has_a_def addq_has_b_def fits_int32_def)

text \<open>The messages of an addition are short.\<close>

lemma int32_field_size:
  "length (WriteInt32ToArray varint_runtime 1 v) \<le> 11" "length (WriteInt32ToArray varint_runtime 2 v) \<le> 11"
  "WriteInt32ToArray varint_runtime 1 v \<noteq> []"
  using length_varint64 [of "scast v"] by (simp_all add: varint_runtime_def length_varint_small)

lemma add_args_size:
  "good_add varint_runtime q \<Longrightarrow> length (AddRequest_InternalSerialize varint_runtime q) < 100"
  using int32_field_size(1) [of "addq_a q"] int32_field_size(2) [of "addq_b q"] vrt.no_unknown
  by (simp add: AddRequest_InternalSerialize_def good_add_def)

lemma add_answer_size:
  "length (AddResponse_InternalSerialize varint_runtime (add_answer varint_runtime q)) < 100"
  "AddResponse_InternalSerialize varint_runtime (add_answer varint_runtime q) \<noteq> []"
  using int32_field_size(1,3) [of "addq_a q + addq_b q"] vrt.no_unknown
  by (simp_all add: AddResponse_InternalSerialize_def add_answer_def set_sum_def AddResponse_default_def)

lemma add_sizes:
  assumes "good_add varint_runtime q"
  shows "proper_request varint_runtime (add_call varint_runtime q)"
    "proper_response varint_runtime (add_response varint_runtime q)"
proof -
  let ?q = "add_call varint_runtime q"
  have "req_unknown ?q = unknown_default varint_runtime"
    by (simp add: add_call_def make_request_def set_args_def set_method_name_def set_service_name_def
        RpcRequest_default_def)
  moreover have "VerifyUTF8 varint_runtime ''math.MathService''" "VerifyUTF8 varint_runtime ''Add''"
    by (simp_all add: varint_runtime_def)
  ultimately have "RpcRequest_wf varint_runtime ?q"
    using add_args_size [OF assms] by (simp add: RpcRequest_wf_def field_len_def)
  moreover have "RpcRequest_ByteSizeLong varint_runtime ?q \<le> 200" "0 < RpcRequest_ByteSizeLong varint_runtime ?q"
    using add_args_size [OF assms] vrt.no_unknown \<open>req_unknown ?q = unknown_default varint_runtime\<close>
    by (simp_all add: RpcRequest_ByteSizeLong_def) (simp_all add: varint_runtime_def length_varint_small)
  ultimately show "proper_request varint_runtime ?q"
    using vrt.request_size [of ?q] by (auto simp: proper_request_def fits_def kMaxLen_def)
  show "proper_response varint_runtime (add_response varint_runtime q)"
    using ok_response_proper [OF add_answer_size(2,1)] by (simp add: ok_response_def add_response_def)
qed

lemmas sample_add_sizes = add_sizes [OF sample_add_good]

lemma remote_add_witness:
  "\<exists>att ch'. doCall add_env att add_method 0 (AddRequest_InternalSerialize varint_runtime sample_add) 3 add_channel
       = (CallOk, ch') \<and> sint (addr_sum (responses ch' 3)) = - 5"
proof -
  let ?rt = varint_runtime
  let ?f = "request_frame BigEndian ?rt (7, add_call ?rt sample_add)"
  let ?g = "response_frame LittleEndian ?rt 7 (add_response ?rt sample_add)"
  let ?att = "sample_attempt [(4, ?g)]"
  obtain ch1 where ch1: "lookup_and_connect add_env ?att ''no available servers'' ''connection failed'' 0 add_channel
      = (Conn 4, ch1)" "idle_input ch1 4" "nextId ch1 = 7" using add_lookup by blast
  obtain c where c: "conns sample_server 1 = Some c" "contents (inputBuffer c) = []"
    using sample_server_conn by auto
  have ne: "\<forall>chunk \<in> set [?f]. chunk \<noteq> []" using length_packWithId [of BigEndian 7]
    by (auto simp: request_frame_def simp del: length_packWithId) (metis add_is_0 list.size(3) zero_neq_numeral)
  have env: "pf_rt sample_platform = ?rt" "pf_order sample_platform = LittleEndian" "ce_rt add_env = ?rt"
      "ce_order add_env = BigEndian" "ce_parse add_env = AddResponse_ParseFromString ?rt"
    by (simp_all add: sample_platform_def add_env_def)
  have arr: "at_arrivals ?att = [(4, ?g)]" by (simp add: sample_attempt_def)
  have a: "addq_a sample_add = - 5" "addq_b sample_add = 0"
    by (simp_all add: sample_add_def addq_set_a_def addq_set_b_def AddRequest_default_def)
  obtain s1 t s2 s3 where h: "read_events sample_platform 1 [?f] sample_server = Some s1" "pool_tasks s1 = [t]"
      "run_task sample_platform (math_ops ?rt) (service_register (MathServiceImpl ?rt) Map.empty) 9 t s1 = Some s2"
      "doPendingFunctors (run_functor sample_platform) s2 = Some s3" "sent s3 1 @ unsent 1 s3 = ?g"
    using server_half [of sample_platform sample_add 1 sample_server c 9 "[?f]" BigEndian 7 Map.empty]
      vrt.pb_runtime_ok_axioms sample_add_good sample_add_sizes(1) sample_server_ok sample_server_tasks c ne env
    by auto
  from remote_add [OF vrt.pb_runtime_ok_axioms env(1,3) sample_add_good sample_add_sizes sample_server_ok(1) c
      sample_server_tasks sample_server_thread(2), of 9 ?att 0 add_channel 4 ch1 "[?f]" Map.empty 3]
    ch1 ne env sample_server_ok arr h a
  show ?thesis by auto
qed

section \<open>The two programs together\<close>

lemma client_request_good: "good_add rt (client_request rt)"
  by (simp add: good_add_def client_request_def addq_set_a_def addq_set_b_def AddRequest_default_def
      AddRequest_inv_def addq_has_a_def addq_has_b_def fits_int32_def)

lemma client_request_sum: "addr_sum (add_answer rt (client_request rt)) = 30"
  by (simp add: add_answer_def set_sum_def client_request_def addq_set_a_def addq_set_b_def)

lemma show_30: "show_int32 30 = ''30''"
  by (simp add: show_int32_def show_nat.simps char_of_def bit_0)

text \<open>The client program, once its first attempt has succeeded.\<close>

lemma client_main_ends:
  assumes "doCall env (atts 0) add_method 0 (AddRequest_InternalSerialize (ce_rt env) (client_request (ce_rt env))) 0
      (client_channel (ce_rt env) files gen) = (CallOk, ch')"
    and "controllers ch' = controllers (client_channel (ce_rt env) files gen)"
  shows "rpc_client_main env files gen atts
    = Ends (Cout (''Sync Add result: '' @ show_int32 (addr_sum (responses ch' 0)))) (close ch')"
proof -
  let ?ch = "client_channel (ce_rt env) files gen"
  have c: "controllers ?ch 0 = setMaxRetries 1 (setTimeoutMs 1000 CustomController_new)"
    by (simp add: client_channel_def RpcChannel_new_def)
  then have "maxRetries (controllers ?ch 0) = 1" "idempotent (controllers ?ch 0)" "\<not> failed (controllers ?ch 0)"
    by (simp_all add: setMaxRetries_def setTimeoutMs_def CustomController_new_def)
  with assms show ?thesis
    by (simp add: rpc_client_main_def CallMethod_client_def call_loop.simps)
qed

text \<open>
  C3: concurrent additions do not mix.  Many calls of \<open>Add\<close> wait at one client.  Their frames reach the
  server in arbitrary pieces, the pool's threads finish the tasks in any order, and the loop sends the
  answers, whose frames the client reads one per read event.  Then every call holds a response without error
  whose result parses to the sum of its own arguments.
\<close>

theorem concurrent_adds:
  assumes rt: "pb_runtime_ok rt" "pf_rt pf = rt" "ce_rt env = rt"
    and qs: "\<forall>(k, q) \<in> set qs. good_add rt q \<and> proper_request rt (add_call rt q) \<and> proper_response rt (add_response rt q)"
      "distinct (map fst qs)"
    and server: "conn_ok i s" "conns s i = Some c" "contents (inputBuffer c) = []" "pool_tasks s = []"
      "pendingFunctors s = []" "sent s i = []" "unsent i s = []"
    and network: "\<forall>chunk \<in> set chunks. chunk \<noteq> []"
      "concat chunks = concat (map (\<lambda>(k, q). request_frame (ce_order env) rt (k, add_call rt q)) qs)"
    and finish: "mset fin = mset qs" "length ws = length fin" "threadId s \<notin> set ws"
    and client: "fst ` set qs \<subseteq> pendingSync ch" "idle_input ch conn"
  shows "\<exists>s1 s2 s3 ch'. read_events pf i chunks s = Some s1
      \<and> mset (pool_tasks s1) = mset (map (add_task i rt) fin)
      \<and> run_tasks pf (math_ops rt) (service_register (MathServiceImpl rt) reg)
          (zip ws (map (add_task i rt) fin)) s1 = Some s2
      \<and> doPendingFunctors (run_functor pf) s2 = Some s3
      \<and> sent s3 i @ unsent i s3 = concat (map (add_frame (pf_order pf) rt) fin)
      \<and> client_reads env (map (\<lambda>kq. (conn, add_frame (pf_order pf) rt kq)) fin) ch = Some ch'
      \<and> (\<forall>(k, q) \<in> set qs. \<exists>rsp r. promises ch' k = Some rsp \<and> error_code rsp = NO_ERROR
          \<and> AddResponse_ParseFromString rt (AddResponse_default rt) (result rsp) = Some (r, True)
          \<and> sint (addr_sum r) = sint (addq_a q) + sint (addq_b q))"
proof -
  have "mset (map fst fin) = mset (map fst qs)" using finish(1) by simp
  with qs(2) have done_qs: "set fin = set qs" "distinct (map fst fin)"
    using mset_eq_setD [OF finish(1)] mset_eq_imp_distinct_iff by blast+
  let ?evs = "map (\<lambda>kq. (conn, fst kq, add_response rt (snd kq))) fin"
  obtain s1 s2 s3 where srv: "read_events pf i chunks s = Some s1" "pool_tasks s1 = map (add_task i rt) qs"
      "run_tasks pf (math_ops rt) (service_register (MathServiceImpl rt) reg) (zip ws (map (add_task i rt) fin)) s1 = Some s2"
      "doPendingFunctors (run_functor pf) s2 = Some s3"
      "sent s3 i @ unsent i s3 = concat (map (add_frame (pf_order pf) rt) fin)"
    using server_batch [of pf qs i s c chunks "ce_order env" fin ws reg] rt qs(1) server network finish(2,3) done_qs(1)
    by (auto simp: case_prod_unfold)
  have "\<forall>(conn, k, rsp) \<in> set ?evs. idle_input ch conn \<and> proper_response (ce_rt env) rsp \<and> k \<in> pendingSync ch"
    using qs(1) client rt(3) done_qs(1) by fastforce
  moreover have "distinct (map (fst \<circ> snd) ?evs)" using done_qs(2) by (simp add: comp_def)
  ultimately obtain ch' where ch': "client_reads env (map (\<lambda>(conn, k, rsp). (conn, response_frame (pf_order pf) rt k rsp)) ?evs) ch = Some ch'"
      "\<forall>x. promises ch' x = (case map_of (map snd ?evs) x of None \<Rightarrow> promises ch x | Some r \<Rightarrow> Some r)"
    using reads_resolve [of env ?evs ch "pf_order pf"] rt(1,3) by blast
  have "\<exists>rsp r. promises ch' k = Some rsp \<and> error_code rsp = NO_ERROR
      \<and> AddResponse_ParseFromString rt (AddResponse_default rt) (result rsp) = Some (r, True)
      \<and> sint (addr_sum r) = sint (addq_a q) + sint (addq_b q)" if kq: "(k, q) \<in> set qs" for k q
  proof -
    have "map_of (map snd ?evs) k = Some (add_response rt q)"
      using kq done_qs by (intro map_of_is_SomeI) (force simp: comp_def)+
    then have "promises ch' k = Some (add_response rt q)" using ch'(2) by simp
    moreover have "fits_int32 (sint (addq_a q) + sint (addq_b q))" using qs(1) kq by (auto simp: good_add_def)
    ultimately show ?thesis
      using pb_runtime_ok.add_answer_parses [OF rt(1)]
      by (intro exI [of _ "add_response rt q"] exI [of _ "add_answer rt q"])
        (simp add: add_response_def add_answer_def set_sum_def sint_add_fits)
  qed
  moreover have "client_reads env (map (\<lambda>kq. (conn, add_frame (pf_order pf) rt kq)) fin) ch = Some ch'"
    using ch'(1) by (simp add: comp_def add_frame_def)
  ultimately show ?thesis using srv finish(1) by (intro exI [of _ s1] exI [of _ s2] exI [of _ s3] exI [of _ ch']) auto
qed

lemma concurrent_adds_witness:
  "\<exists>s1 s2 s3 ch' rsp. read_events sample_platform 1
       [request_frame BigEndian varint_runtime (1, add_call varint_runtime sample_add),
        request_frame BigEndian varint_runtime (2, add_call varint_runtime sample_add)] sample_server = Some s1
     \<and> run_tasks sample_platform (math_ops varint_runtime) (service_register (MathServiceImpl varint_runtime) Map.empty)
       [(8, add_task 1 varint_runtime (2, sample_add)), (9, add_task 1 varint_runtime (1, sample_add))] s1 = Some s2
     \<and> doPendingFunctors (run_functor sample_platform) s2 = Some s3
     \<and> client_reads add_env [(4, add_frame LittleEndian varint_runtime (2, sample_add)),
         (4, add_frame LittleEndian varint_runtime (1, sample_add))] (add_channel\<lparr>pendingSync := {1, 2}\<rparr>) = Some ch'
     \<and> promises ch' 1 = Some rsp \<and> error_code rsp = NO_ERROR"
proof -
  let ?rt = varint_runtime and ?q = sample_add
  let ?qs = "[(1 :: uint64, ?q), (2, ?q)]" and ?fin = "[(2 :: uint64, ?q), (1, ?q)]"
  let ?fs = "map (\<lambda>(k, q). request_frame BigEndian ?rt (k, add_call ?rt q)) ?qs"
  obtain c where c: "conns sample_server 1 = Some c" "contents (inputBuffer c) = []"
    using sample_server_conn by auto
  have ne: "\<forall>chunk \<in> set ?fs. chunk \<noteq> []" using length_packWithId [of BigEndian]
    by (auto simp: request_frame_def simp del: length_packWithId) (metis add_is_0 list.size(3) zero_neq_numeral)+
  have env: "pf_rt sample_platform = ?rt" "pf_order sample_platform = LittleEndian" "ce_rt add_env = ?rt"
      "ce_order add_env = BigEndian"
    by (simp_all add: sample_platform_def add_env_def)
  have good: "\<forall>(k, q) \<in> set ?qs. good_add ?rt q \<and> proper_request ?rt (add_call ?rt q) \<and> proper_response ?rt (add_response ?rt q)"
    using sample_add_good sample_add_sizes by simp
  have ch: "fst ` set ?qs \<subseteq> pendingSync (add_channel\<lparr>pendingSync := {1, 2}\<rparr>)"
      "idle_input (add_channel\<lparr>pendingSync := {1, 2}\<rparr>) 4"
    by (simp_all add: add_channel_def idle_input_def)
  from concurrent_adds [OF vrt.pb_runtime_ok_axioms env(1,3) good _ sample_server_ok(1) c sample_server_tasks _ _ _ ne _ _ _ _ ch,
      of ?fin "[8, 9]" Map.empty] env sample_server_ok sample_server_thread
  show ?thesis by (simp add: add_mset_commute) blast
qed

text \<open>
  C2: the two programs work together.  On a registry that knows no address of the service, the server
  program starts, registers and prints so.  A client that then runs the client program finds the address
  in the registry and dials it; the server accepts, its frame arrives in arbitrary non-empty pieces, a
  pool thread runs the task and the server's loop answers; if that answer reaches the client before its
  timeout, the client prints \<open>Sync Add result: 30\<close>, having sent exactly one frame.  The JSON library's
  parser reads the list of this one address back from its printed form, and the registration text as the
  object it denotes.
\<close>

theorem programs_cooperate:
  assumes rt: "pb_runtime_ok rt" "pf_rt pf = rt" "ce_rt env = rt" "ce_parse env = AddResponse_ParseFromString rt"
    and sizes: "proper_request rt (add_call rt (client_request rt))"
      "proper_response rt (add_response rt (client_request rt))"
    and registry: "center_inv center" "discover ''MathService'' center = {}"
      "parse register_body = JsonValue (JObject [(''service'', JString ''MathService''), (''address'', JString ''127.0.0.1:9999'')])"
    and server: "rpc_server_main rt sys = Proceed (Some (s0, reg, out))"
      "ss_post sys ''/register'' register_body = Some (sent_status (library_reply (snd (post_register parse register_body center))))"
      "0 \<le> connfd" "me \<noteq> ss_thread sys"
    and discovery: "ce_json env (dump (JArray [JString ''127.0.0.1:9999''])) = JsonValue (JArray [JString ''127.0.0.1:9999''])"
      "param (discover_path ''MathService'') = ''MathService''"
      "at_http (atts 0) = (\<lambda>path i. let r = get_discover dump (param path) (fst (post_register parse register_body center))
          in Some (sent_status r, content r))"
      "0 \<le> createNonBlockingConnection (ce_net env) ''127.0.0.1'' 9999"
    and network: "\<forall>chunk \<in> set chunks. chunk \<noteq> []"
      "concat chunks = request_frame (ce_order env) rt (0, add_call rt (client_request rt))"
  shows "out = Cout ''Registered to RegistryCenter''
    \<and> (\<exists>s s1 t s2 s3. Acceptor_handleRead pf (Some (newConnection pf)) (connfd, peer) s0 = Some s
      \<and> read_events pf (fresh_conn s0) chunks s = Some s1 \<and> pool_tasks s1 = [t]
      \<and> run_task pf (math_ops rt) reg me t s1 = Some s2 \<and> doPendingFunctors (run_functor pf) s2 = Some s3
      \<and> (at_arrivals (atts 0) = [(0, sent s3 (fresh_conn s0) @ unsent (fresh_conn s0) s3)] \<longrightarrow>
          (\<exists>ch. rpc_client_main env files gen atts = Ends (Cout ''Sync Add result: 30'') ch
             \<and> outbox ch = [(0, concat chunks)])))"
proof -
  let ?q = "client_request rt" and ?i = "fresh_conn s0"
  note post = registered_address [of parse center, OF registry(3)]
  have out: "out = Cout ''Registered to RegistryCenter''"
    using server(1,2) post
    by (auto simp: rpc_server_main_def http_reply_def sent_status_def split: process.splits option.splits)
  note s0 = server_started [OF server(1)]
  obtain s c where s: "Acceptor_handleRead pf (Some (newConnection pf)) (connfd, peer) s0 = Some s"
      "conn_ok ?i s" "conns s ?i = Some c" "contents (inputBuffer c) = []" "pool_tasks s = []"
      "pendingFunctors s = []" "threadId s = threadId s0" "sent s ?i = []" "unsent ?i s = []"
    using accepted_connection [OF server(3), of s0 pf peer] s0 by blast
  have reg: "reg = service_register (MathServiceImpl rt) Map.empty" and me: "me \<noteq> threadId s"
    using s0 s(7) server(4) by simp_all
  obtain s1 t s2 s3 where srv: "read_events pf ?i chunks s = Some s1" "pool_tasks s1 = [t]"
      "run_task pf (math_ops rt) reg me t s1 = Some s2" "doPendingFunctors (run_functor pf) s2 = Some s3"
      "sent s3 ?i @ unsent ?i s3 = response_frame (pf_order pf) rt 0 (add_response rt ?q)"
    using server_half [of pf ?q ?i s c me chunks "ce_order env" 0 Map.empty] rt(1,2) client_request_good [of rt] sizes(1)
      s me reg network by auto
  obtain ch1 where ch1: "lookup_and_connect env (atts 0) ''no available servers'' ''connection failed'' 0
        (client_channel rt files gen) = (Conn 0, ch1)" "idle_input ch1 0" "nextId ch1 = 0" "outbox ch1 = []"
      "controllers ch1 = controllers (client_channel rt files gen)"
    using client_finds_server [of center env dump param "atts 0", OF registry(1,2) discovery(1,2) _ discovery(4)]
      discovery(3) post by fastforce
  have "ce_parse env (responses ch1 0) (result (add_response rt ?q)) = Some (add_answer rt ?q, True)"
    using pb_runtime_ok.add_answer_parses [OF rt(1)] rt(4) by (simp add: add_response_def)
  then have "\<exists>ch. rpc_client_main env files gen atts = Ends (Cout ''Sync Add result: 30'') ch
      \<and> outbox ch = [(0, concat chunks)]" if "at_arrivals (atts 0) = [(0, sent s3 ?i @ unsent ?i s3)]"
    using answered_attempt [of env "atts 0" 0 "client_channel rt files gen" 0 ch1 "add_response rt ?q" "pf_order pf" 0
        "add_answer rt ?q" True add_method "AddRequest_InternalSerialize rt ?q"] rt sizes(2) ch1 that srv(5) network(2)
      client_main_ends [of env atts files gen]
    by (auto simp: add_response_def add_call_def client_request_sum show_30 close_def)
  with out s(1) srv(1-4) show ?thesis by blast
qed

text \<open>A registry that has seen no service, and both programs on one host.\<close>

definition only_registration :: json_parser where
  "only_registration text =
     (if text = register_body
      then JsonValue (JObject [(''service'', JString ''MathService''), (''address'', JString ''127.0.0.1:9999'')])
      else ParseError)"

definition sample_sys :: "(int \<rightharpoonup> uint32 \<times> ptr) server_sys" where
  "sample_sys = \<lparr>ss_ctl = map_ctl, ss_kernel = Map.empty, ss_thread = 0, ss_epoll = 3, ss_eventfd = 4,
     ss_order = LittleEndian, ss_pton = (\<lambda>_. Some 0), ss_socket = 5, ss_bind = (\<lambda>_ _. 0), ss_listen = (\<lambda>_. 0),
     ss_post = (\<lambda>_ body. Some (sent_status (library_reply (snd (post_register only_registration body Map.empty)))))\<rparr>"

definition discovering_env :: "(bytes, unit, bytes AddResponse) client_env" where
  "discovering_env = add_env\<lparr>ce_json := (\<lambda>b. JsonValue (JArray (map JString (mark_parse [] b))))\<rparr>"

definition discovering_attempt :: "(nat \<times> bytes) list \<Rightarrow> attempt" where
  "discovering_attempt arrivals = (sample_attempt arrivals)\<lparr>at_http := (\<lambda>path i.
     let r = get_discover mark_dump (drop 18 path) (fst (post_register only_registration register_body Map.empty))
     in Some (sent_status r, content r))\<rparr>"

lemma sample_sys_starts: "\<exists>s0 reg out. rpc_server_main varint_runtime sample_sys = Proceed (Some (s0, reg, out))"
  by (simp add: rpc_server_main_def sample_sys_def EventLoop_new_def createEventfd_def enableReading_def change_events_def
      RpcServer_new_def Acceptor_new_def Socket_new_def Socket_bind_def RpcServer_start_def Acceptor_listen_def
      Socket_listen_def updateChannel_def Let_def)

lemma programs_cooperate_witness:
  "\<exists>arrivals ch. rpc_client_main discovering_env Map.empty () (\<lambda>_. discovering_attempt arrivals)
     = Ends (Cout ''Sync Add result: 30'') ch"
proof -
  let ?rt = varint_runtime
  let ?f = "request_frame BigEndian ?rt (0, add_call ?rt (client_request ?rt))"
  obtain s0 reg out where start: "rpc_server_main ?rt sample_sys = Proceed (Some (s0, reg, out))"
    using sample_sys_starts by blast
  have env: "pf_rt sample_platform = ?rt" "ce_rt discovering_env = ?rt"
      "ce_parse discovering_env = AddResponse_ParseFromString ?rt" "ce_order discovering_env = BigEndian"
    by (simp_all add: sample_platform_def discovering_env_def add_env_def)
  have reg: "center_inv Map.empty" "discover ''MathService'' Map.empty = {}"
      "only_registration register_body
         = JsonValue (JObject [(''service'', JString ''MathService''), (''address'', JString ''127.0.0.1:9999'')])"
    by (simp_all add: center_inv_def discover_def only_registration_def)
  have srv: "ss_post sample_sys ''/register'' register_body
      = Some (sent_status (library_reply (snd (post_register only_registration register_body Map.empty))))" "(0 :: int) \<le> 7"
      "(9 :: nat) \<noteq> ss_thread sample_sys" by (simp_all add: sample_sys_def)
  have disc: "ce_json discovering_env (mark_dump (JArray [JString ''127.0.0.1:9999'']))
        = JsonValue (JArray [JString ''127.0.0.1:9999''])"
      "drop 18 (discover_path ''MathService'') = ''MathService''"
      "0 \<le> createNonBlockingConnection (ce_net discovering_env) ''127.0.0.1'' 9999"
    using mark_inverts [of "[''127.0.0.1:9999'']"]
    by (simp_all add: discovering_env_def discover_path_def add_env_def createNonBlockingConnection_def)
  have http: "at_http (discovering_attempt arrivals) = (\<lambda>path i. let r = get_discover mark_dump (drop 18 path)
        (fst (post_register only_registration register_body Map.empty)) in Some (sent_status r, content r))" for arrivals
    by (simp add: discovering_attempt_def)
  have ne: "\<forall>chunk \<in> set [?f]. chunk \<noteq> []" "concat [?f] = ?f"
    by (simp_all add: request_frame_def packWithId_alt flip: length_0_conv)
  note good = client_request_good [of ?rt]
  note s0 = server_started [OF start]
  let ?g = "response_frame LittleEndian ?rt 0 (add_response ?rt (client_request ?rt))"
  let ?atts = "\<lambda>_ :: int. discovering_attempt [(0, ?g)]"
  obtain s c where s: "Acceptor_handleRead sample_platform (Some (newConnection sample_platform)) (7, ''peer'') s0 = Some s"
      "conn_ok (fresh_conn s0) s" "conns s (fresh_conn s0) = Some c" "contents (inputBuffer c) = []" "pool_tasks s = []"
      "pendingFunctors s = []" "threadId s = threadId s0" "sent s (fresh_conn s0) = []" "unsent (fresh_conn s0) s = []"
    using accepted_connection [OF srv(2), of s0 sample_platform "''peer''"] s0 by blast
  obtain s1 t s2 s3 where h: "read_events sample_platform (fresh_conn s0) [?f] s = Some s1" "pool_tasks s1 = [t]"
      "run_task sample_platform (math_ops ?rt) reg 9 t s1 = Some s2"
      "doPendingFunctors (run_functor sample_platform) s2 = Some s3"
      "sent s3 (fresh_conn s0) @ unsent (fresh_conn s0) s3 = ?g"
    using server_half [of sample_platform "client_request ?rt" "fresh_conn s0" s c 9 "[?f]" BigEndian 0 Map.empty]
      vrt.pb_runtime_ok_axioms good add_sizes(1) [OF good] s s0 srv(3) ne env(1)
    by (auto simp: sample_platform_def)
  have arrives: "at_arrivals (?atts 0) = [(0, ?g)]"
    by (simp add: discovering_attempt_def sample_attempt_def)
  from programs_cooperate [of ?rt sample_platform discovering_env Map.empty only_registration sample_sys s0 reg out
      7 9 mark_dump "drop 18" ?atts "[?f]" "''peer''" Map.empty "()",
      OF vrt.pb_runtime_ok_axioms env(1-3) add_sizes [OF good] reg start srv disc(1,2) http disc(3) ne(1)]
  show ?thesis using s(1) h arrives ne(2) env(4) by auto
qed

end
